(* ===== verification/KV_Prelude.thy ===== *)
theory KV_Prelude
  imports Main "HOL-Library.Word" "HOL-Library.Monad_Syntax" "HOL-Library.Multiset"
begin

text \<open>
  Shared by every component: the machine types of the C and C++ sources, checked array
  accesses, the libc byte comparison and the list lemmas that several components use.

  A C function that may read or write outside an array, follow a null or dangling pointer,
  fail an assertion or loop for ever is modelled in the option monad: \<open>None\<close> is "no normal
  return", so a theorem that such a function equals \<open>Some\<close> of a value also says that it is
  memory safe and terminates.
\<close>

section \<open>Machine types\<close>

type_synonym u8 = "8 word"
type_synonym u32 = "32 word"
type_synonym u64 = "64 word"

text \<open>Bytes of a C buffer, and pointers of the 64-bit target; the null pointer is 0.\<close>

type_synonym byte = "8 word"
type_synonym ptr = "64 word"

text \<open>Facts about checked accesses and bounds that the component proofs rewrite with.\<close>

named_theorems access_simps

section \<open>Checked array accesses\<close>

definition rd :: "'a list \<Rightarrow> nat \<Rightarrow> 'a option" where
  "rd xs i = (if i < length xs then Some (xs ! i) else None)"

definition wr :: "'a list \<Rightarrow> nat \<Rightarrow> 'a \<Rightarrow> 'a list option" where
  "wr xs i x = (if i < length xs then Some (xs[i := x]) else None)"

lemma rd_in [access_simps]: "i < length xs \<Longrightarrow> rd xs i = Some (xs ! i)"
  by (simp add: rd_def)

lemma rd_out [access_simps]: "length xs \<le> i \<Longrightarrow> rd xs i = None"
  by (simp add: rd_def)

lemma wr_in [access_simps]: "i < length xs \<Longrightarrow> wr xs i x = Some (xs[i := x])"
  by (simp add: wr_def)

lemma wr_out [access_simps]: "length xs \<le> i \<Longrightarrow> wr xs i x = None"
  by (simp add: wr_def)

section \<open>memcmp\<close>

text \<open>
  \<open>memcmp\<close> of two byte arrays of the same length: the sign of the first difference, bytes
  read as unsigned characters. The code only tests the sign of the result.
\<close>

fun memcmp :: "byte list \<Rightarrow> byte list \<Rightarrow> int" where
  "memcmp (x # xs) (y # ys) = (if x < y then - 1 else if y < x then 1 else memcmp xs ys)"
| "memcmp _ _ = 0"

lemma memcmp_refl [simp]: "memcmp xs xs = 0"
  by (induction xs) auto

lemma memcmp_eq_0: "length xs = length ys \<Longrightarrow> memcmp xs ys = 0 \<longleftrightarrow> xs = ys"
  by (induction xs ys rule: memcmp.induct) auto

lemma memcmp_flip: "memcmp ys xs = - memcmp xs ys"
  by (induction xs ys rule: memcmp.induct) (auto dest: less_not_sym)

lemma memcmp_le_trans:
  "length xs = length ys \<Longrightarrow> length ys = length zs \<Longrightarrow>
   memcmp xs ys \<le> 0 \<Longrightarrow> memcmp ys zs \<le> 0 \<Longrightarrow> memcmp xs zs \<le> 0"
proof (induction xs ys arbitrary: zs rule: memcmp.induct)
  case (1 x xs y ys)
  then obtain z zs' where "zs = z # zs'" by (cases zs) auto
  with 1 show ?case by (auto split: if_splits)
qed auto

section \<open>Sorted lists of keyed entries\<close>

text \<open>Insertion behind every entry whose key is not greater: the abstract effect of an insert.\<close>

definition ins_after :: "('k::linorder) \<Rightarrow> 'v \<Rightarrow> ('k \<times> 'v) list \<Rightarrow> ('k \<times> 'v) list" where
  "ins_after k v xs = takeWhile (\<lambda>e. fst e \<le> k) xs @ (k, v) # dropWhile (\<lambda>e. fst e \<le> k) xs"

abbreviation sorted_keys :: "(('k::linorder) \<times> 'v) list \<Rightarrow> bool" where
  "sorted_keys xs \<equiv> sorted (map fst xs)"

lemma set_ins_after [simp]: "set (ins_after k v xs) = insert (k, v) (set xs)"
proof -
  have "set xs = set (takeWhile (\<lambda>e. fst e \<le> k) xs) \<union> set (dropWhile (\<lambda>e. fst e \<le> k) xs)"
    by (metis set_append takeWhile_dropWhile_id)
  then show ?thesis by (auto simp: ins_after_def)
qed

lemma length_ins_after [simp]: "length (ins_after k v xs) = Suc (length xs)"
proof -
  have "length (takeWhile (\<lambda>e. fst e \<le> k) xs) + length (dropWhile (\<lambda>e. fst e \<le> k) xs) = length xs"
    by (metis length_append takeWhile_dropWhile_id)
  then show ?thesis by (simp add: ins_after_def)
qed

lemma ins_after_neq_Nil [simp]: "ins_after k v xs \<noteq> []"
  by (simp add: ins_after_def)

lemma ins_after_Nil [simp]: "ins_after k v [] = [(k, v)]"
  by (simp add: ins_after_def)

lemma ins_after_Cons:
  "ins_after k v (e # xs) = (if fst e \<le> k then e # ins_after k v xs else (k, v) # e # xs)"
  by (simp add: ins_after_def)

lemma ins_after_split:
  assumes "\<forall>e \<in> set xs. fst e \<le> k" and "\<forall>e \<in> set ys. k < fst e"
  shows "ins_after k v (xs @ ys) = xs @ (k, v) # ys"
proof -
  have "takeWhile (\<lambda>e. fst e \<le> k) ys = [] \<and> dropWhile (\<lambda>e. fst e \<le> k) ys = ys"
    using assms(2) by (cases ys) auto
  with assms(1) show ?thesis by (simp add: ins_after_def)
qed

lemma ins_after_snoc: "k < fst e \<Longrightarrow> ins_after k v (xs @ [e]) = ins_after k v xs @ [e]"
  by (induction xs) (auto simp: ins_after_Cons)

lemma ins_after_front: "\<forall>e \<in> set xs. k < fst e \<Longrightarrow> ins_after k v xs = (k, v) # xs"
  using ins_after_split [of "[]" k xs v] by simp

lemma sorted_keys_ins_after: "sorted_keys xs \<Longrightarrow> sorted_keys (ins_after k v xs)"
  by (induction xs) (auto simp: ins_after_Cons)

lemma distinct_snd_ins_after:
  "distinct (map snd (ins_after k v xs)) \<longleftrightarrow> v \<notin> snd ` set xs \<and> distinct (map snd xs)"
  by (induction xs) (auto simp: ins_after_Cons)

lemma mset_ins_after: "mset (ins_after k v xs) = add_mset (k, v) (mset xs)"
  by (induction xs) (auto simp: ins_after_Cons)

section \<open>Ranges of keyed entries\<close>

text \<open>The values of the entries strictly between two keys, in order.\<close>

definition between :: "('k::linorder) \<Rightarrow> 'k \<Rightarrow> ('k \<times> 'v) list \<Rightarrow> 'v list" where
  "between lo hi xs = map snd (filter (\<lambda>e. lo < fst e \<and> fst e < hi) xs)"

lemma between_Nil [simp]: "between lo hi [] = []"
  by (simp add: between_def)

lemma between_append [simp]: "between lo hi (xs @ ys) = between lo hi xs @ between lo hi ys"
  by (simp add: between_def)

lemma between_Cons:
  "between lo hi (e # xs) = (if lo < fst e \<and> fst e < hi then snd e # between lo hi xs else between lo hi xs)"
  by (simp add: between_def)

lemma between_beyond: "\<forall>e \<in> set xs. hi \<le> fst e \<Longrightarrow> between lo hi xs = []"
  by (auto simp: between_def filter_empty_conv)

section \<open>Running an operation on each record of a list\<close>

fun run_puts :: "('k \<Rightarrow> 'v \<Rightarrow> 's \<Rightarrow> 's option) \<Rightarrow> ('k \<times> 'v) list \<Rightarrow> 's \<Rightarrow> 's option" where
  "run_puts put [] s = Some s"
| "run_puts put ((k, v) # xs) s = do { s' \<leftarrow> put k v s; run_puts put xs s' }"

text \<open>Inserting one by one is a stable sort.\<close>

definition ins_all :: "(('k::linorder) \<times> 'v) list \<Rightarrow> ('k \<times> 'v) list \<Rightarrow> ('k \<times> 'v) list" where
  "ins_all xs ys = fold (\<lambda>(k, v). ins_after k v) xs ys"

lemma ins_all_simps [simp]: "ins_all [] ys = ys" "ins_all ((k, v) # xs) ys = ins_all xs (ins_after k v ys)"
  by (simp_all add: ins_all_def)

lemma sorted_ins_all: "sorted_keys ys \<Longrightarrow> sorted_keys (ins_all xs ys)"
  by (induction xs arbitrary: ys) (auto simp: sorted_keys_ins_after)

lemma set_ins_all: "set (ins_all xs ys) = set xs \<union> set ys"
  by (induction xs arbitrary: ys) auto

lemma filter_key_beyond: "\<not> a \<le> (k::'k::linorder) \<Longrightarrow> \<forall>x \<in> set ys. a \<le> fst x \<Longrightarrow> filter (\<lambda>e. fst e = k) ys = []"
  by (auto simp: filter_empty_conv)

lemma filter_key_ins_after:
  "sorted_keys ys \<Longrightarrow> filter (\<lambda>e. fst e = k) (ins_after k' v ys)
     = filter (\<lambda>e. fst e = k) ys @ (if k' = k then [(k', v)] else [])"
  by (induction ys) (auto simp: ins_after_Cons filter_key_beyond)

lemma filter_key_ins_all:
  "sorted_keys ys \<Longrightarrow> filter (\<lambda>e. fst e = k) (ins_all xs ys)
     = filter (\<lambda>e. fst e = k) ys @ filter (\<lambda>e. fst e = k) xs"
  by (induction xs arbitrary: ys) (auto simp: filter_key_ins_after sorted_keys_ins_after)

lemma ins_all_sort: "ins_all xs [] = sort_key fst xs"
proof (rule sym, rule properties_for_sort_key)
  have "mset (ins_all xs ys) = mset xs + mset ys" for ys
  proof (induction xs arbitrary: ys)
    case (Cons x xs)
    then show ?case by (cases x) (simp add: mset_ins_after)
  qed simp
  then show "mset (ins_all xs []) = mset xs" by simp
  show "filter (\<lambda>x. fst k = fst x) (ins_all xs []) = filter (\<lambda>x. fst k = fst x) xs" for k
    using filter_key_ins_all [of "[]" "fst k" xs] by (simp add: eq_commute)
  show "sorted (map fst (ins_all xs []))" by (rule sorted_ins_all) simp
qed

end
