(* ===== verification/KV_Random.thy ===== *)
theory KV_Random
  imports KV_Prelude
begin

unbundle bit_operations_syntax

text \<open>
  The pseudo random generator of the benchmarks, class \<open>Random\<close> of
  \<open>bufferevent_single/Hikv/lib/random.h\<close>: a 31-bit Lehmer generator whose product is reduced
  modulo \<open>2^31 - 1\<close> by adding its high and low parts.
\<close>

section \<open>The generator\<close>

record random =
  seed :: u32

text \<open>The constructor masks the sign bit and replaces the two seeds the recurrence cannot leave.\<close>

definition Random :: "u32 \<Rightarrow> random" where
  "Random s =
     (let s0 = s AND 0x7fffffff
      in \<lparr>seed = (if s0 = 0 \<or> s0 = 2147483647 then 1 else s0)\<rparr>)"

definition Next :: "random \<Rightarrow> u32 \<times> random" where
  "Next r =
     (let M = 2147483647 :: u32;
          A = 16807 :: u64;
          product = ucast (seed r) * A;
          s1 = (ucast (drop_bit 31 product + (product AND ucast M)) :: u32);
          s2 = (if M < s1 then s1 - M else s1)
      in (s2, r\<lparr>seed := s2\<rparr>))"

text \<open>\<open>Next() % n\<close> with an \<open>int\<close> divisor, which C converts to \<open>uint32_t\<close>; a zero divisor traps.\<close>

definition Uniform :: "u32 \<Rightarrow> random \<Rightarrow> (u32 \<times> random) option" where
  "Uniform n r = (let (x, r') = Next r in if n = 0 then None else Some (x mod n, r'))"

definition OneIn :: "u32 \<Rightarrow> random \<Rightarrow> (bool \<times> random) option" where
  "OneIn n r = (let (x, r') = Next r in if n = 0 then None else Some (x mod n = 0, r'))"

definition Skewed :: "u32 \<Rightarrow> random \<Rightarrow> (u32 \<times> random) option" where
  "Skewed max_log r =
     do { (b, r') \<leftarrow> Uniform (max_log + 1) r;
          if unat b < 32 then Uniform (push_bit (unat b) 1) r' else None }"

section \<open>Correctness\<close>

text \<open>The seeds the constructor and the recurrence keep: neither 0 nor the modulus.\<close>

definition seed_ok :: "random \<Rightarrow> bool" where
  "seed_ok r \<longleftrightarrow> 0 < unat (seed r) \<and> unat (seed r) < 2147483647"

lemma unat_mask31: "unat (s AND 0x7fffffff :: u32) < 2 ^ 31"
proof -
  have "s AND 0x7fffffff = take_bit 31 s"
    by (simp add: take_bit_eq_mask mask_eq_exp_minus_1)
  then show ?thesis by (metis take_bit_nat_less_exp unsigned_take_bit_eq)
qed

lemma Random_seed_ok: "seed_ok (Random s)"
proof (cases "s AND 0x7fffffff = 0 \<or> s AND 0x7fffffff = 2147483647")
  case True
  then show ?thesis by (simp add: Random_def seed_ok_def Let_def)
next
  case False
  define m where "m = s AND 0x7fffffff"
  have "m \<noteq> 0" "m \<noteq> 2147483647" using False by (simp_all add: m_def)
  moreover have "unat m < 2 ^ 31" unfolding m_def by (rule unat_mask31)
  ultimately have "0 < unat m \<and> unat m < 2147483647"
    using word_unat_eq_iff [of m 0] word_unat_eq_iff [of m 2147483647] by simp
  then show ?thesis using False by (simp only: Random_def seed_ok_def Let_def m_def) simp
qed

text \<open>The reduction by adding high and low parts, on naturals.\<close>

lemma lehmer_reduce:
  fixes s :: nat
  assumes "0 < s" "s < 2147483647"
  defines "p \<equiv> s * 16807"
  defines "t \<equiv> p div 2 ^ 31 + p mod 2 ^ 31"
  shows "t < 2 ^ 32" and "(if 2147483647 < t then t - 2147483647 else t) = p mod 2147483647"
    and "0 < p mod 2147483647"
proof -
  have h: "p div 2 ^ 31 < 16807" using assms(1,2) by (simp add: p_def)
  have l: "p mod 2 ^ 31 < 2147483648" by simp
  show "t < 2 ^ 32" using h l by (simp add: t_def)
  have "p = p div 2 ^ 31 * 2147483647 + t"
    unfolding t_def using div_mult_mod_eq [of p "2 ^ 31"] by simp
  then have m: "p mod 2147483647 = t mod 2147483647"
    by (metis mod_mult_self3)
  show pos: "0 < p mod 2147483647"
  proof (rule ccontr)
    assume "\<not> 0 < p mod 2147483647"
    then have "2147483647 dvd s * 16807" by (simp add: p_def mod_eq_0_iff_dvd)
    moreover have "coprime (2147483647::nat) 16807"
      by (simp add: coprime_iff_gcd_eq_1 gcd_non_0_nat)
    ultimately have "2147483647 dvd s" by (simp add: coprime_dvd_mult_left_iff)
    with assms(1,2) show False by (auto dest: dvd_imp_le)
  qed
  have ne: "t \<noteq> 2147483647" using m pos by auto
  show "(if 2147483647 < t then t - 2147483647 else t) = p mod 2147483647"
  proof (cases "2147483647 < t")
    case True
    then have "t mod 2147483647 = (t - 2147483647) mod 2147483647"
      by (simp add: le_mod_geq)
    also have "\<dots> = t - 2147483647"
      using h l by (simp add: t_def)
    finally show ?thesis using True m by simp
  next
    case False
    with ne m show ?thesis by simp
  qed
qed

lemma unat_product:
  "unat (ucast (seed r) * 16807 :: u64) = unat (seed r) * 16807"
proof -
  have u: "unat (ucast (seed r) :: u64) = unat (seed r)"
    by (simp add: unsigned_ucast_eq take_bit_nat_eq_self_iff less_trans [OF unsigned_less])
  have "unat (seed r) < 2 ^ 32" using unsigned_less [of "seed r"] by simp
  then have "unat (seed r) * 16807 < 2 ^ 64" by simp
  then show ?thesis by (simp add: unat_word_ariths u)
qed

lemma Next_unat:
  assumes "seed_ok r"
  shows "unat (fst (Next r)) = (unat (seed r) * 16807) mod 2147483647"
    and "seed (snd (Next r)) = fst (Next r)"
proof -
  define p where "p = unat (seed r) * 16807"
  define t where "t = p div 2 ^ 31 + p mod 2 ^ 31"
  define product where "product = (ucast (seed r) * 16807 :: u64)"
  define s1 where "s1 = (ucast (drop_bit 31 product + (product AND 2147483647)) :: u32)"
  have b: "0 < unat (seed r)" "unat (seed r) < 2147483647" using assms by (auto simp: seed_ok_def)
  note red = lehmer_reduce [OF b, folded p_def, folded t_def]
  have up: "unat product = p" by (simp add: product_def p_def unat_product)
  have hi: "unat (drop_bit 31 product) = p div 2 ^ 31"
    by (subst unat_drop_bit_eq) (simp add: up drop_bit_eq_div)
  have "product AND 2147483647 = take_bit 31 product"
    by (simp add: take_bit_eq_mask mask_eq_exp_minus_1)
  then have lo: "unat (product AND 2147483647) = p mod 2 ^ 31"
    by (simp add: take_bit_eq_mod unat_mod up)
  have "unat (drop_bit 31 product + (product AND 2147483647)) = t"
    using red(1) by (simp add: unat_word_ariths hi lo t_def)
  then have s1: "unat s1 = t"
    using red(1) by (simp add: s1_def unsigned_ucast_eq take_bit_nat_eq_self)
  have "unat (if 2147483647 < s1 then s1 - 2147483647 else s1)
      = (if 2147483647 < t then t - 2147483647 else t)"
    by (auto simp: word_less_nat_alt s1 unat_sub word_le_nat_alt)
  also have "\<dots> = p mod 2147483647" by (rule red(2))
  finally have "unat (if 2147483647 < s1 then s1 - 2147483647 else s1) = p mod 2147483647" .
  moreover have "fst (Next r) = (if 2147483647 < s1 then s1 - 2147483647 else s1)"
    by (simp add: Next_def Let_def s1_def product_def)
  ultimately show "unat (fst (Next r)) = (unat (seed r) * 16807) mod 2147483647"
    by (simp add: p_def)
  show "seed (snd (Next r)) = fst (Next r)" by (simp add: Next_def Let_def)
qed

lemma Next_seed_ok: "seed_ok r \<Longrightarrow> seed_ok (snd (Next r))"
  using Next_unat [of r] lehmer_reduce(3) [of "unat (seed r)"] by (auto simp: seed_ok_def)

text \<open>Multiplication by 16807 is invertible modulo \<open>2^31 - 1\<close>, so \<open>Next\<close> never merges two seeds.\<close>

lemma Next_unat_inj:
  assumes "seed_ok r" "seed_ok r'" and eq: "fst (Next r) = fst (Next r')"
  shows "unat (seed r) = unat (seed r')"
proof -
  have inv: "(x * 16807 mod 2147483647) * 1407677000 mod 2147483647 = x" if "x < 2147483647" for x :: nat
  proof -
    have "(x * 16807 mod 2147483647) * 1407677000 mod 2147483647
        = x * (16807 * 1407677000) mod 2147483647"
      by (simp add: mod_mult_left_eq mult.assoc)
    also have "\<dots> = x * (16807 * 1407677000 mod 2147483647) mod 2147483647"
      by (rule mod_mult_right_eq [symmetric])
    also have "\<dots> = x" using that by simp
    finally show ?thesis .
  qed
  have "unat (seed r) * 16807 mod 2147483647 = unat (seed r') * 16807 mod 2147483647"
    using Next_unat(1) [OF assms(1)] Next_unat(1) [OF assms(2)] eq by simp
  then show ?thesis using inv assms(1,2) by (metis seed_ok_def)
qed

section \<open>Properties\<close>

text \<open>
  C25: On every seed the constructor or an earlier call can leave, \<open>Next\<close> returns exactly
  \<open>seed * 16807 mod (2^31 - 1)\<close>: the shift-and-add reduction on 64-bit words with one
  conditional subtraction computes the remainder, nothing overflows, and the new seed is again
  neither 0 nor the modulus.
\<close>

theorem random_next_is_lehmer:
  assumes "seed_ok r"
  shows "unat (fst (Next r)) = unat (seed r) * 16807 mod (2 ^ 31 - 1)
       \<and> seed (snd (Next r)) = fst (Next r) \<and> seed_ok (snd (Next r))"
  using Next_unat [OF assms] Next_seed_ok [OF assms] by simp

theorem random_next_is_lehmer_witness:
  "seed_ok (Random 1234)
   \<and> unat (fst (Next (Random 1234))) = unat (seed (Random 1234)) * 16807 mod (2 ^ 31 - 1)"
  using random_next_is_lehmer [OF Random_seed_ok [of 1234]] Random_seed_ok [of 1234] by blast

text \<open>
  Distinct seeds stay distinct: \<open>Next\<close> is injective on the valid seeds, so two
  generators of the benchmarks never fall into step from different states.
\<close>

theorem random_next_injective:
  assumes "seed_ok r" and "seed_ok r'" and "fst (Next r) = fst (Next r')"
  shows "seed r = seed r'"
  using Next_unat_inj [OF assms] by (simp add: word_unat_eq_iff)

theorem random_next_injective_witness: "seed (Random 5) = seed (Random 0x80000005)"
proof -
  have "fst (Next (Random 5)) = fst (Next (Random 0x80000005))"
    by (simp add: Random_def Let_def)
  then show ?thesis
    by (rule random_next_injective [OF Random_seed_ok Random_seed_ok])
qed

end
