(* ===== verification/KV_Page.thy ===== *)
theory KV_Page
  imports KV_Prelude
begin

text \<open>
  One page of the FAST-FAIR B+-tree: classes \<open>header\<close>, \<open>entry\<close> and \<open>page\<close> of
  \<open>bufferevent_single/Hikv/obj/btree.h\<close>. A page is its header and the array of
  \<open>cardinality\<close> records, each a key and a pointer; the live records are those before the first
  null pointer. The key type is any linear order with a zero (the key of zeroed memory); the
  store instantiates it with \<open>entry_key_t\<close>.

  The code re-reads the switch counter to detect a concurrent writer and then repeats its scan.
  The model runs the operations of one thread at a time, so every such loop body runs once and a
  second read of a record gives the first value. \<open>PERSIST_BTREE\<close> is not defined in the
  committed configuration, so the calls to \<open>persist_data\<close> are compiled out.
\<close>

section \<open>Layout\<close>

record header =
  leftmost_ptr :: ptr
  sibling_ptr :: ptr
  level :: u32
  switch_counter :: u8
  is_deleted :: bool
  last_index :: int

record 'k page =
  hdr :: header
  records :: "('k \<times> ptr) list"

definition IS_FORWARD :: "u8 \<Rightarrow> bool" where
  "IS_FORWARD c \<longleftrightarrow> c mod 2 = 0"

text \<open>
  \<open>sizeof(header)\<close> is two pointers, the level, three bytes-and-shorts packed into four bytes and
  the mutex pointer; an entry is a 64-byte key and a pointer.
\<close>

definition PAGESIZE :: nat where "PAGESIZE = 512"
definition sizeof_header :: nat where "sizeof_header = 8 + 8 + 4 + 1 + 1 + 2 + 8"
definition sizeof_entry :: nat where "sizeof_entry = 64 + 8"

definition cardinality :: nat where
  "cardinality = (PAGESIZE - sizeof_header) div sizeof_entry"

lemma cardinality_6 [simp]: "cardinality = 6"
  by (simp add: cardinality_def PAGESIZE_def sizeof_header_def sizeof_entry_def)

text \<open>Writing one field of a record.\<close>

definition wr_key :: "('k \<times> ptr) list \<Rightarrow> nat \<Rightarrow> 'k \<Rightarrow> ('k \<times> ptr) list option" where
  "wr_key rs i k = do { e \<leftarrow> rd rs i; wr rs i (k, snd e) }"

definition wr_ptr :: "('k \<times> ptr) list \<Rightarrow> nat \<Rightarrow> ptr \<Rightarrow> ('k \<times> ptr) list option" where
  "wr_ptr rs i v = do { e \<leftarrow> rd rs i; wr rs i (fst e, v) }"

lemma wr_key_in [access_simps]: "i < length rs \<Longrightarrow> wr_key rs i k = Some (rs[i := (k, snd (rs ! i))])"
  by (simp add: wr_key_def access_simps)

lemma wr_ptr_in [access_simps]: "i < length rs \<Longrightarrow> wr_ptr rs i v = Some (rs[i := (fst (rs ! i), v)])"
  by (simp add: wr_ptr_def access_simps)

section \<open>Counting the live records\<close>

text \<open>The scan of \<open>count()\<close> from an index, upwards or downwards by the switch counter's parity.\<close>

function scan_count :: "bool \<Rightarrow> ('k \<times> ptr) list \<Rightarrow> int \<Rightarrow> int option" where
  "scan_count fwd rs c =
     (if c < 0 then Some c
      else (case rd rs (nat c) of
              None \<Rightarrow> None
            | Some e \<Rightarrow> if snd e \<noteq> 0 then scan_count fwd rs (if fwd then c + 1 else c - 1) else Some c))"
  by pat_completeness auto
termination
  by (relation "measure (\<lambda>(fwd, rs, c). if fwd then nat (int (length rs) - c) else nat (c + 1))")
     (auto simp: rd_def split: if_splits)

declare scan_count.simps [simp del]

definition count_page :: "'k page \<Rightarrow> nat option" where
  "count_page pg =
     do { c \<leftarrow> scan_count (IS_FORWARD (switch_counter (hdr pg))) (records pg) (last_index (hdr pg) + 1);
          c' \<leftarrow> (if c < 0 then scan_count True (records pg) 0 else Some c);
          Some (nat c') }"

section \<open>Inserting and removing a key in a page\<close>

text \<open>
  The shift loop of \<open>insert_key\<close>, run for the indices below its argument from the top down:
  it moves each greater record one place up, pointer before key, and writes the new record
  behind the first record that is not greater. The flag is the local \<open>inserted\<close>.
\<close>

fun shift_loop :: "('k::linorder) \<Rightarrow> ptr \<Rightarrow> nat \<Rightarrow> ('k \<times> ptr) list \<Rightarrow> (bool \<times> ('k \<times> ptr) list) option" where
  "shift_loop key v 0 rs = Some (False, rs)"
| "shift_loop key v (Suc i) rs =
     do { e \<leftarrow> rd rs i;
          if key < fst e
          then do { rs1 \<leftarrow> wr_ptr rs (i + 1) (snd e);
                    rs2 \<leftarrow> wr_key rs1 (i + 1) (fst e);
                    shift_loop key v i rs2 }
          else do { rs1 \<leftarrow> wr_ptr rs (i + 1) (snd e);
                    rs2 \<leftarrow> wr_key rs1 (i + 1) key;
                    rs3 \<leftarrow> wr_ptr rs2 (i + 1) v;
                    Some (True, rs3) } }"

definition insert_key ::
  "('k::linorder) \<Rightarrow> ptr \<Rightarrow> nat \<Rightarrow> bool \<Rightarrow> 'k page \<Rightarrow> ('k page \<times> nat) option" where
  "insert_key key v num_entries update_last_index pg =
     (let h0 = hdr pg;
          h1 = (if \<not> IS_FORWARD (switch_counter h0)
                then h0\<lparr>switch_counter := switch_counter h0 + 1\<rparr> else h0);
          h2 = (if update_last_index then h1\<lparr>last_index := int num_entries\<rparr> else h1)
      in do {
        rs \<leftarrow> (if num_entries = 0
               then do { rs1 \<leftarrow> wr (records pg) 0 (key, v);
                         wr_ptr rs1 1 0 }
               else do { e \<leftarrow> rd (records pg) num_entries;
                         rs1 \<leftarrow> wr_ptr (records pg) (num_entries + 1) (snd e);
                         r \<leftarrow> shift_loop key v num_entries rs1;
                         (case r of (inserted, rs2) \<Rightarrow>
                            if inserted then Some rs2
                            else do { rs3 \<leftarrow> wr_ptr rs2 0 (leftmost_ptr h1);
                                      rs4 \<leftarrow> wr_key rs3 0 key;
                                      wr_ptr rs4 0 v }) });
        Some (pg\<lparr>hdr := h2, records := rs\<rparr>, num_entries + 1) })"

text \<open>
  The loop of \<open>remove_key\<close>: at the first record with the key it overwrites its pointer with the
  one before it, and from there on copies each following record one place down.
\<close>

function remove_loop ::
  "ptr \<Rightarrow> 'k \<Rightarrow> nat \<Rightarrow> bool \<Rightarrow> ('k \<times> ptr) list \<Rightarrow> (bool \<times> ('k \<times> ptr) list) option" where
  "remove_loop lm key i shift rs =
     (case rd rs i of
        None \<Rightarrow> None
      | Some e \<Rightarrow>
          if snd e = 0 then Some (shift, rs)
          else (let hit = (\<not> shift \<and> fst e = key);
                    rs1 = (if hit then rs[i := (fst e, if i = 0 then lm else snd (rs ! (i - 1)))] else rs)
                in if shift \<or> hit
                   then (case rd rs1 (i + 1) of
                           None \<Rightarrow> None
                         | Some n \<Rightarrow> remove_loop lm key (i + 1) True (rs1[i := n]))
                   else remove_loop lm key (i + 1) False rs1))"
  by pat_completeness auto
termination
  by (relation "measure (\<lambda>(lm, key, i, shift, rs). length rs - i)")
     (auto simp: rd_def split: if_splits)

declare remove_loop.simps [simp del]

definition remove_key :: "'k \<Rightarrow> 'k page \<Rightarrow> (bool \<times> 'k page) option" where
  "remove_key key pg =
     (let h0 = hdr pg;
          h1 = (if IS_FORWARD (switch_counter h0)
                then h0\<lparr>switch_counter := switch_counter h0 + 1\<rparr> else h0)
      in do { r \<leftarrow> remove_loop (leftmost_ptr h1) key 0 False (records pg);
              (case r of (shift, rs) \<Rightarrow>
                 Some (shift, pg\<lparr>hdr := (if shift then h1\<lparr>last_index := last_index h1 - 1\<rparr> else h1),
                                 records := rs\<rparr>)) })"

section \<open>The live records and the page invariant\<close>

definition entries :: "'k page \<Rightarrow> ('k \<times> ptr) list" where
  "entries pg = takeWhile (\<lambda>e. snd e \<noteq> 0) (records pg)"

definition page_ok :: "('k::linorder) page \<Rightarrow> bool" where
  "page_ok pg \<longleftrightarrow>
     length (records pg) = cardinality \<and> length (entries pg) < cardinality \<and>
     last_index (hdr pg) = int (length (entries pg)) - 1 \<and>
     IS_FORWARD (switch_counter (hdr pg)) \<and> sorted_keys (entries pg) \<and>
     (entries pg = [] \<longrightarrow> snd (records pg ! 1) = 0)"

lemma entries_nth: "i < length (entries pg) \<Longrightarrow> entries pg ! i = records pg ! i"
  by (simp add: entries_def takeWhile_nth)

lemma entries_nonnull: "e \<in> set (entries pg) \<Longrightarrow> snd e \<noteq> 0"
  by (auto simp: entries_def dest: set_takeWhileD)

lemma entries_sentinel:
  "length (entries pg) < length (records pg) \<Longrightarrow> snd (records pg ! length (entries pg)) = 0"
  unfolding entries_def using nth_length_takeWhile by fastforce

lemma take_entries: "take (length (entries pg)) (records pg) = entries pg"
  unfolding entries_def by (metis takeWhile_eq_take)

text \<open>A record array whose prefix is a list of non-null records followed by a null one.\<close>

lemma entries_eqI:
  assumes "\<forall>e \<in> set xs. snd e \<noteq> 0" and "records pg = xs @ z # zs" and "snd z = 0"
  shows "entries pg = xs"
  using assms by (simp add: entries_def takeWhile_append)

text \<open>
  The shift loop on \<open>xs @ gap # rest\<close>, started above \<open>xs\<close>: either it stops with the new record
  written, or it has moved everything up and left the first slot free.
\<close>

lemma shift_loop_spec:
  assumes "sorted_keys xs"
  shows "(if (\<exists>e \<in> set xs. fst e \<le> key)
          then shift_loop key v (length xs) (xs @ gap # rest) = Some (True, ins_after key v xs @ rest)
          else \<exists>g. shift_loop key v (length xs) (xs @ gap # rest) = Some (False, g # xs @ rest))"
  using assms
proof (induction xs arbitrary: gap rest rule: rev_induct)
  case Nil
  then show ?case by simp
next
  case (snoc e xs)
  have srt: "sorted_keys xs" and le: "\<forall>x \<in> set xs. fst x \<le> fst e"
    using snoc.prems by (auto simp: sorted_append)
  let ?rs = "(xs @ [e]) @ gap # rest"
  have rd: "rd ?rs (length xs) = Some e" by (simp add: rd_def nth_append)
  show ?case
  proof (cases "key < fst e")
    case True
    have step: "shift_loop key v (length (xs @ [e])) ?rs = shift_loop key v (length xs) (xs @ e # (e # rest))"
      using True by (simp add: rd access_simps nth_append list_update_append split: prod.splits)
    have ex: "(\<exists>x \<in> set (xs @ [e]). fst x \<le> key) \<longleftrightarrow> (\<exists>x \<in> set xs. fst x \<le> key)"
      using True by auto
    have ia: "ins_after key v (xs @ [e]) = ins_after key v xs @ [e]" 
      using True by (simp add: ins_after_snoc)
    show ?thesis
      using snoc.IH [OF srt, of e "e # rest"] unfolding step ex ia by (auto split: if_splits)
  next
    case False
    have "ins_after key v (xs @ [e]) = (xs @ [e]) @ [(key, v)]"
      using ins_after_split [of "xs @ [e]" key "[]" v] False le by fastforce
    moreover have "shift_loop key v (length (xs @ [e])) ?rs = Some (True, (xs @ [e]) @ (key, v) # rest)"
      using False by (simp add: rd access_simps nth_append list_update_append)
    ultimately show ?thesis using False by auto
  qed
qed

lemma IS_FORWARD_inc: "\<not> IS_FORWARD c \<Longrightarrow> IS_FORWARD (c + 1)"
  unfolding IS_FORWARD_def by (simp flip: even_iff_mod_2_eq_zero)

text \<open>
  \<open>insert_key\<close> with the page's own entry count inserts behind the records that are not
  greater, sets the last index, leaves the page scanning forward and stays inside the array.
\<close>

lemma insert_key_ok:
  assumes ok: "page_ok pg" and room: "length (entries pg) + 1 < cardinality" and v: "v \<noteq> 0"
  obtains pg' where "insert_key key v (length (entries pg)) True pg = Some (pg', length (entries pg) + 1)"
    and "entries pg' = ins_after key v (entries pg)" and "page_ok pg'"
    and "hdr pg' = (hdr pg)\<lparr>last_index := int (length (entries pg))\<rparr>"
proof -
  define xs where "xs = entries pg"
  define n where "n = length xs"
  have len: "length (records pg) = 6" and n: "n + 1 < 6" and srt: "sorted_keys xs"
    and fwd: "IS_FORWARD (switch_counter (hdr pg))"
    using ok room by (auto simp: page_ok_def xs_def n_def)
  obtain z zs where rs: "records pg = xs @ z # zs" "snd z = 0" "zs \<noteq> []"
  proof -
    have "records pg = xs @ drop n (records pg)"
      using take_entries [of pg] by (metis append_take_drop_id n_def xs_def)
    moreover have "drop n (records pg) = records pg ! n # drop (Suc n) (records pg)"
      using len n by (simp add: Cons_nth_drop_Suc)
    moreover have "snd (records pg ! n) = 0" using entries_sentinel [of pg] len n by (simp add: xs_def n_def)
    moreover have "drop (Suc n) (records pg) \<noteq> []" using len n by simp
    ultimately show ?thesis using that by metis
  qed
  obtain y ys where zs: "zs = y # ys" using rs(3) by (cases zs) auto
  let ?h = "(hdr pg)\<lparr>last_index := int n\<rparr>"
  let ?rs = "ins_after key v xs @ (fst y, 0) # ys"
  have ins: "insert_key key v n True pg = Some (pg\<lparr>hdr := ?h, records := ?rs\<rparr>, n + 1)"
  proof (cases "n = 0")
    case True
    then show ?thesis
      using rs zs fwd by (simp add: insert_key_def n_def access_simps Let_def)
  next
    case False
    let ?rs1 = "xs @ z # (fst y, 0) # ys"
    have e: "rd (records pg) n = Some z" using rs by (simp add: rd_def n_def nth_append)
    have w: "wr_ptr (records pg) (n + 1) (snd z) = Some ?rs1"
      using rs zs by (simp add: access_simps n_def nth_append list_update_append)
    show ?thesis
    proof (cases "\<exists>e \<in> set xs. fst e \<le> key")
      case True
      then have "shift_loop key v n ?rs1 = Some (True, ?rs)"
        using shift_loop_spec [OF srt, of key v z "(fst y, 0) # ys"] by (simp add: n_def)
      then show ?thesis using False fwd e w by (simp add: insert_key_def Let_def)
    next
      case gt: False
      then obtain g where "shift_loop key v n ?rs1 = Some (False, g # xs @ (fst y, 0) # ys)"
        using shift_loop_spec [OF srt, of key v z "(fst y, 0) # ys"] by (auto simp: n_def)
      moreover have "ins_after key v xs = (key, v) # xs"
        using gt by (intro ins_after_front) auto
      ultimately show ?thesis using False fwd e w by (simp add: insert_key_def Let_def access_simps)
    qed
  qed
  let ?pg = "pg\<lparr>hdr := ?h, records := ?rs\<rparr>"
  have ent: "entries ?pg = ins_after key v xs"
    by (rule entries_eqI [where z = "(fst y, 0)" and zs = ys])
       (use v entries_nonnull [of _ pg] in \<open>auto simp: xs_def\<close>)
  have "length ?rs = 6" using len rs zs by simp
  then have "page_ok ?pg"
    unfolding page_ok_def ent using n fwd srt by (simp add: sorted_keys_ins_after n_def)
  with ins ent show ?thesis using that [of ?pg] by (simp add: xs_def n_def)
qed

lemma count_page_ok:
  assumes "page_ok pg"
  shows "count_page pg = Some (length (entries pg))"
proof -
  have l: "length (entries pg) < length (records pg)" and li: "last_index (hdr pg) + 1 = int (length (entries pg))"
    using assms by (auto simp: page_ok_def)
  have "scan_count f (records pg) (int (length (entries pg))) = Some (int (length (entries pg)))" for f
    using entries_sentinel [OF l] l by (subst scan_count.simps) (simp add: access_simps)
  then show ?thesis by (simp add: count_page_def li)
qed

section \<open>A new page\<close>

text \<open>\<open>getNewPage\<close> zeroes the page and sets its header; the two overloads differ in the first record.\<close>

definition new_page :: "u32 \<Rightarrow> ('k::zero) page" where
  "new_page lv =
     \<lparr>hdr = \<lparr>leftmost_ptr = 0, sibling_ptr = 0, level = lv, switch_counter = 0,
             is_deleted = False, last_index = - 1\<rparr>,
      records = replicate cardinality (0, 0)\<rparr>"

definition new_root_page :: "ptr \<Rightarrow> 'k \<Rightarrow> ptr \<Rightarrow> u32 \<Rightarrow> ('k::zero) page" where
  "new_root_page left key right lv =
     \<lparr>hdr = \<lparr>leftmost_ptr = left, sibling_ptr = 0, level = lv, switch_counter = 0,
             is_deleted = False, last_index = 0\<rparr>,
      records = (replicate cardinality (0, 0))[0 := (key, right), 1 := (0, 0)]\<rparr>"

lemma new_page_simps [simp]:
  "entries (new_page lv) = []" "hdr (new_page lv) =
     \<lparr>leftmost_ptr = 0, sibling_ptr = 0, level = lv, switch_counter = 0, is_deleted = False, last_index = - 1\<rparr>"
  by (simp_all add: new_page_def entries_def numeral_eq_Suc)

lemma new_page_ok: "page_ok (new_page lv :: ('k::{linorder,zero}) page)"
  by (simp add: page_ok_def IS_FORWARD_def) (simp add: new_page_def numeral_eq_Suc)

lemma new_root_page_simps [simp]:
  "r \<noteq> 0 \<Longrightarrow> entries (new_root_page l k r lv) = [(k, r)]"
  "hdr (new_root_page l k r lv) =
     \<lparr>leftmost_ptr = l, sibling_ptr = 0, level = lv, switch_counter = 0, is_deleted = False, last_index = 0\<rparr>"
  by (simp_all add: new_root_page_def entries_def numeral_eq_Suc)

lemma new_root_page_ok:
  "r \<noteq> 0 \<Longrightarrow> page_ok (new_root_page l k r lv :: ('k::{linorder,zero}) page)"
  by (simp add: page_ok_def IS_FORWARD_def) (simp add: new_root_page_def numeral_eq_Suc)

end
