(* ===== verification/KV_Search.thy ===== *)
theory KV_Search
  imports KV_Page
begin

text \<open>
  The searches of one page, \<open>page::linear_search\<close> and \<open>page::linear_search_range\<close> of
  \<open>bufferevent_single/Hikv/obj/btree.h\<close>. They read the page and, through the sibling pointers,
  other pages, so they take the page heap: a map from addresses to pages, undefined where the
  code would follow a dangling pointer. A pointer result of 0 is the code's \<open>NULL\<close>.
\<close>

section \<open>Leaf search\<close>

text \<open>Left to right: the record is taken if its pointer differs from the one before it.\<close>

function leaf_loop_fwd :: "'k \<Rightarrow> ('k \<times> ptr) list \<Rightarrow> nat \<Rightarrow> ptr option" where
  "leaf_loop_fwd key rs i =
     (case rd rs i of
        None \<Rightarrow> None
      | Some (k, t) \<Rightarrow>
          if t = 0 then Some 0
          else if k = key \<and> snd (rs ! (i - 1)) \<noteq> t then Some t
          else leaf_loop_fwd key rs (i + 1))"
  by pat_completeness auto
termination
  by (relation "measure (\<lambda>(key, rs, i). length rs - i)") (auto simp: rd_def split: if_splits)

declare leaf_loop_fwd.simps [simp del]

definition leaf_search_fwd :: "'k \<Rightarrow> ('k \<times> ptr) list \<Rightarrow> ptr option" where
  "leaf_search_fwd key rs =
     do { e \<leftarrow> rd rs 0;
          if fst e = key \<and> snd e \<noteq> 0 then Some (snd e) else leaf_loop_fwd key rs 1 }"

text \<open>Right to left from the last live record, then the first record.\<close>

fun leaf_loop_bwd :: "'k \<Rightarrow> ('k \<times> ptr) list \<Rightarrow> nat \<Rightarrow> ptr option" where
  "leaf_loop_bwd key rs 0 = Some 0"
| "leaf_loop_bwd key rs (Suc i) =
     do { e \<leftarrow> rd rs (Suc i);
          p \<leftarrow> rd rs i;
          if fst e = key \<and> snd p \<noteq> snd e \<and> snd e \<noteq> 0 then Some (snd e) else leaf_loop_bwd key rs i }"

definition leaf_search_bwd :: "'k \<Rightarrow> nat \<Rightarrow> ('k \<times> ptr) list \<Rightarrow> ptr option" where
  "leaf_search_bwd key n rs =
     do { ret \<leftarrow> leaf_loop_bwd key rs (n - 1);
          e \<leftarrow> rd rs 0;
          Some (if ret = 0 \<and> fst e = key \<and> snd e \<noteq> 0 then snd e else ret) }"

section \<open>Search in an internal page\<close>

text \<open>The first record whose key is greater ends the scan; the child is the pointer before it.\<close>

function int_loop_fwd :: "('k::linorder) \<Rightarrow> ('k \<times> ptr) list \<Rightarrow> nat \<Rightarrow> ptr option" where
  "int_loop_fwd key rs i =
     (case rd rs i of
        None \<Rightarrow> None
      | Some (k, t) \<Rightarrow>
          if t = 0 then Some (snd (rs ! (i - 1)))
          else if key < k \<and> snd (rs ! (i - 1)) \<noteq> t then Some (snd (rs ! (i - 1)))
          else int_loop_fwd key rs (i + 1))"
  by pat_completeness auto
termination
  by (relation "measure (\<lambda>(key, rs, i). length rs - i)") (auto simp: rd_def split: if_splits)

declare int_loop_fwd.simps [simp del]

definition int_search_fwd :: "ptr \<Rightarrow> ('k::linorder) \<Rightarrow> ('k \<times> ptr) list \<Rightarrow> ptr option" where
  "int_search_fwd lm key rs =
     do { e \<leftarrow> rd rs 0;
          if key < fst e \<and> lm \<noteq> snd e then Some lm else int_loop_fwd key rs 1 }"

fun int_loop_bwd :: "ptr \<Rightarrow> ('k::linorder) \<Rightarrow> ('k \<times> ptr) list \<Rightarrow> nat \<Rightarrow> ptr option" where
  "int_loop_bwd lm key rs 0 = Some 0"
| "int_loop_bwd lm key rs (Suc i) =
     do { e \<leftarrow> rd rs i;
          p \<leftarrow> (if i = 0 then Some lm else map_option snd (rd rs (i - 1)));
          if fst e \<le> key \<and> p \<noteq> snd e then Some (snd e) else int_loop_bwd lm key rs i }"

section \<open>linear_search\<close>

definition linear_search ::
  "(ptr \<Rightarrow> 'k page option) \<Rightarrow> ('k::linorder) page \<Rightarrow> 'k \<Rightarrow> ptr option" where
  "linear_search H pg key =
     (let h = hdr pg; rs = records pg; sib = sibling_ptr h in
      if leftmost_ptr h = 0
      then do {
        ret \<leftarrow> (if IS_FORWARD (switch_counter h) then leaf_search_fwd key rs
               else do { n \<leftarrow> count_page pg; leaf_search_bwd key n rs });
        if ret \<noteq> 0 then Some ret
        else if sib \<noteq> 0
        then do { s \<leftarrow> H sib; e \<leftarrow> rd (records s) 0;
                  Some (if fst e \<le> key then sib else 0) }
        else Some 0 }
      else do {
        ret \<leftarrow> (if IS_FORWARD (switch_counter h) then int_search_fwd (leftmost_ptr h) key rs
               else do { n \<leftarrow> count_page pg; int_loop_bwd (leftmost_ptr h) key rs n });
        beyond \<leftarrow> (if sib \<noteq> 0
                 then do { s \<leftarrow> H sib; e \<leftarrow> rd (records s) 0; Some (fst e \<le> key) }
                 else Some False);
        Some (if beyond then sib else if ret \<noteq> 0 then ret else leftmost_ptr h) })"

section \<open>linear_search_range\<close>

text \<open>
  One page, left to right. The result is the pointers appended to the buffer and whether the
  function returned inside this page.
\<close>

function range_loop_fwd ::
  "('k::linorder) \<Rightarrow> 'k \<Rightarrow> ('k \<times> ptr) list \<Rightarrow> nat \<Rightarrow> ptr list \<Rightarrow> (ptr list \<times> bool) option" where
  "range_loop_fwd lo hi rs i acc =
     (case rd rs i of
        None \<Rightarrow> None
      | Some (k, t) \<Rightarrow>
          if t = 0 then Some (acc, False)
          else if lo < k
          then (if k < hi
                then range_loop_fwd lo hi rs (i + 1) (if t \<noteq> snd (rs ! (i - 1)) then acc @ [t] else acc)
                else Some (acc, True))
          else range_loop_fwd lo hi rs (i + 1) acc)"
  by pat_completeness auto
termination
  by (relation "measure (\<lambda>(lo, hi, rs, i, acc). length rs - i)") (auto simp: rd_def split: if_splits)

declare range_loop_fwd.simps [simp del]

definition range_page_fwd ::
  "('k::linorder) \<Rightarrow> 'k \<Rightarrow> ('k \<times> ptr) list \<Rightarrow> (ptr list \<times> bool) option" where
  "range_page_fwd lo hi rs =
     do { e \<leftarrow> rd rs 0;
          if lo < fst e
          then (if fst e < hi
                then range_loop_fwd lo hi rs 1 (if snd e \<noteq> 0 then [snd e] else [])
                else Some ([], True))
          else range_loop_fwd lo hi rs 1 [] }"

text \<open>
  One page, right to left. The code starts at \<open>count()\<close> of the page the method was called on,
  not of the page being read, so the start index is an argument.
\<close>

fun range_loop_bwd ::
  "('k::linorder) \<Rightarrow> 'k \<Rightarrow> ('k \<times> ptr) list \<Rightarrow> nat \<Rightarrow> ptr list \<Rightarrow> (ptr list \<times> bool) option" where
  "range_loop_bwd lo hi rs 0 acc = Some (acc, False)"
| "range_loop_bwd lo hi rs (Suc i) acc =
     do { e \<leftarrow> rd rs (Suc i);
          p \<leftarrow> rd rs i;
          if lo < fst e
          then (if fst e < hi
                then range_loop_bwd lo hi rs i
                       (if snd e \<noteq> snd p \<and> snd e \<noteq> 0 then acc @ [snd e] else acc)
                else Some (acc, True))
          else range_loop_bwd lo hi rs i acc }"

definition range_page_bwd ::
  "('k::linorder) \<Rightarrow> 'k \<Rightarrow> nat \<Rightarrow> ('k \<times> ptr) list \<Rightarrow> (ptr list \<times> bool) option" where
  "range_page_bwd lo hi n rs =
     do { r \<leftarrow> range_loop_bwd lo hi rs (n - 1) [];
          (case r of (acc, stop) \<Rightarrow>
             if stop then Some (acc, True)
             else do { e \<leftarrow> rd rs 0;
                       if lo < fst e
                       then (if fst e < hi
                             then Some (if snd e \<noteq> 0 then acc @ [snd e] else acc, False)
                             else Some (acc, True))
                       else Some (acc, False) }) }"

text \<open>The walk along the sibling chain; it is undefined where the chain is cyclic or dangling.\<close>

partial_function (option) range_chain ::
  "(ptr \<Rightarrow> 'k page option) \<Rightarrow> ('k::linorder) page \<Rightarrow> 'k \<Rightarrow> 'k \<Rightarrow> ptr \<Rightarrow> ptr list \<Rightarrow> ptr list option" where
  "range_chain H this lo hi current buf =
     (if current = 0 then Some buf
      else do {
        pg \<leftarrow> H current;
        r \<leftarrow> (if IS_FORWARD (switch_counter (hdr pg)) then range_page_fwd lo hi (records pg)
             else do { n \<leftarrow> count_page this; range_page_bwd lo hi n (records pg) });
        (case r of (vs, stop) \<Rightarrow>
           if stop then Some (buf @ vs)
           else range_chain H this lo hi (sibling_ptr (hdr pg)) (buf @ vs)) })"

definition linear_search_range ::
  "(ptr \<Rightarrow> 'k page option) \<Rightarrow> ptr \<Rightarrow> ('k::linorder) \<Rightarrow> 'k \<Rightarrow> ptr list option" where
  "linear_search_range H p lo hi =
     do { this \<leftarrow> H p; range_chain H this lo hi p [] }"

section \<open>What the searches of a well-formed page return\<close>

definition first_ptr :: "('k \<times> ptr) list \<Rightarrow> 'k \<Rightarrow> ptr" where
  "first_ptr xs key = (case map_of xs key of None \<Rightarrow> 0 | Some v \<Rightarrow> v)"

lemma page_split:
  assumes "page_ok pg"
  obtains z zs where "records pg = entries pg @ z # zs" "snd z = 0"
proof -
  have l: "length (entries pg) < length (records pg)" using assms by (auto simp: page_ok_def)
  have "records pg = entries pg @ drop (length (entries pg)) (records pg)"
    using take_entries [of pg] by (metis append_take_drop_id)
  moreover have "drop (length (entries pg)) (records pg)
      = records pg ! length (entries pg) # drop (Suc (length (entries pg))) (records pg)"
    using l by (simp add: Cons_nth_drop_Suc)
  ultimately show ?thesis using that entries_sentinel [OF l] by metis
qed

lemma leaf_loop_fwd_spec:
  assumes "\<forall>e \<in> set ys. snd e \<noteq> 0" "snd z = 0" "distinct (snd x # map snd ys)"
  shows "leaf_loop_fwd key (xs @ x # ys @ z # zs) (Suc (length xs)) = Some (first_ptr ys key)"
  using assms
proof (induction ys arbitrary: xs x)
  case Nil
  then show ?case
    by (subst leaf_loop_fwd.simps) (auto simp: rd_def nth_append first_ptr_def split: prod.splits)
next
  case (Cons y ys)
  have "leaf_loop_fwd key ((xs @ [x]) @ y # ys @ z # zs) (Suc (length (xs @ [x]))) = Some (first_ptr ys key)"
    using Cons.prems by (intro Cons.IH) auto
  then show ?case using Cons.prems
    by (subst leaf_loop_fwd.simps) (auto simp: rd_def nth_append first_ptr_def split: prod.splits)
qed


lemma leaf_search_fwd_ok:
  assumes ok: "page_ok pg" and d: "distinct (map snd (entries pg))"
  shows "leaf_search_fwd key (records pg) = Some (first_ptr (entries pg) key)"
proof -
  obtain z zs where rs: "records pg = entries pg @ z # zs" "snd z = 0"
    using page_split [OF ok] by blast
  have len: "length (records pg) = 6" using ok by (simp add: page_ok_def)
  show ?thesis
  proof (cases "entries pg")
    case Nil
    then have "snd (records pg ! 1) = 0" using ok by (simp add: page_ok_def)
    then have "leaf_loop_fwd key (records pg) 1 = Some 0"
      using len by (subst leaf_loop_fwd.simps) (auto simp: rd_def split: prod.splits)
    then show ?thesis using Nil rs len by (simp add: leaf_search_fwd_def access_simps first_ptr_def)
  next
    case (Cons x ys)
    have "leaf_loop_fwd key (x # ys @ z # zs) (Suc 0) = Some (first_ptr ys key)"
      using leaf_loop_fwd_spec [of ys z x key "[]" zs] Cons d rs(2) entries_nonnull [of _ pg] by simp
    then show ?thesis
      using Cons rs entries_nonnull [of x pg]
      by (cases x) (auto simp: leaf_search_fwd_def access_simps first_ptr_def)
  qed
qed

definition child_for :: "ptr \<Rightarrow> ('k::linorder \<times> ptr) list \<Rightarrow> 'k \<Rightarrow> ptr" where
  "child_for lm xs key = last (lm # map snd (takeWhile (\<lambda>e. fst e \<le> key) xs))"

lemma int_loop_fwd_spec:
  assumes "\<forall>e \<in> set ys. snd e \<noteq> 0" "snd z = 0" "distinct (snd x # map snd ys)"
  shows "int_loop_fwd key (xs @ x # ys @ z # zs) (Suc (length xs)) = Some (child_for (snd x) ys key)"
  using assms
proof (induction ys arbitrary: xs x)
  case Nil
  then show ?case
    by (subst int_loop_fwd.simps) (auto simp: rd_def nth_append child_for_def split: prod.splits)
next
  case (Cons y ys)
  have "int_loop_fwd key ((xs @ [x]) @ y # ys @ z # zs) (Suc (length (xs @ [x]))) = Some (child_for (snd y) ys key)"
    using Cons.prems by (intro Cons.IH) auto
  then show ?case using Cons.prems
    by (subst int_loop_fwd.simps) (auto simp: rd_def nth_append child_for_def not_le split: prod.splits)
qed

lemma int_search_fwd_ok:
  assumes ok: "page_ok pg" and d: "distinct (lm # map snd (entries pg))" and ne: "entries pg \<noteq> []"
  shows "int_search_fwd lm key (records pg) = Some (child_for lm (entries pg) key)"
proof -
  obtain z zs where rs: "records pg = entries pg @ z # zs" "snd z = 0"
    using page_split [OF ok] by blast
  obtain x ys where x: "entries pg = x # ys" using ne by (cases "entries pg") auto
  have "int_loop_fwd key (x # ys @ z # zs) (Suc 0) = Some (child_for (snd x) ys key)"
    using int_loop_fwd_spec [of ys z x key "[]" zs] x d rs(2) entries_nonnull [of _ pg] by simp
  then show ?thesis
    using x rs d by (auto simp: int_search_fwd_def access_simps child_for_def)
qed

lemma range_loop_fwd_spec:
  assumes "\<forall>e \<in> set ys. snd e \<noteq> 0" "snd z = 0" "distinct (snd x # map snd ys)" "sorted_keys ys"
  shows "range_loop_fwd lo hi (xs @ x # ys @ z # zs) (Suc (length xs)) acc
       = Some (acc @ between lo hi ys, \<exists>e \<in> set ys. lo < fst e \<and> hi \<le> fst e)"
  using assms
proof (induction ys arbitrary: xs x acc)
  case Nil
  then show ?case
    by (subst range_loop_fwd.simps) (auto simp: rd_def nth_append split: prod.splits)
next
  case (Cons y ys)
  have IH: "range_loop_fwd lo hi ((xs @ [x]) @ y # ys @ z # zs) (Suc (length (xs @ [x]))) acc'
     = Some (acc' @ between lo hi ys, \<exists>e \<in> set ys. lo < fst e \<and> hi \<le> fst e)" for acc'
    using Cons.prems by (intro Cons.IH) auto
  have rest: "between lo hi ys = []" if "hi \<le> fst y"
    using that Cons.prems(4) by (intro between_beyond) (auto intro: order_trans)
  show ?case using Cons.prems IH rest
    by (subst range_loop_fwd.simps)
       (auto simp: rd_def nth_append between_Cons not_less split: prod.splits)
qed

lemma range_page_fwd_ok:
  assumes ok: "page_ok pg" and d: "distinct (map snd (entries pg))"
  shows "\<exists>stop. range_page_fwd lo hi (records pg) = Some (between lo hi (entries pg), stop) \<and>
           (entries pg \<noteq> [] \<longrightarrow> stop = (\<exists>e \<in> set (entries pg). lo < fst e \<and> hi \<le> fst e))"
proof -
  obtain z zs where rs: "records pg = entries pg @ z # zs" "snd z = 0"
    using page_split [OF ok] by blast
  have len: "length (records pg) = 6" using ok by (simp add: page_ok_def)
  show ?thesis
  proof (cases "entries pg")
    case Nil
    then have "snd (records pg ! 1) = 0" using ok by (simp add: page_ok_def)
    then have "range_loop_fwd lo hi (records pg) 1 acc = Some (acc, False)" for acc
      using len by (subst range_loop_fwd.simps) (auto simp: rd_def split: prod.splits)
    then show ?thesis using Nil rs len
      by (auto simp: range_page_fwd_def access_simps intro: exI [of _ True] exI [of _ False])
  next
    case (Cons x ys)
    have srt: "sorted_keys (x # ys)" using ok Cons by (simp add: page_ok_def)
    have loop: "range_loop_fwd lo hi (x # ys @ z # zs) (Suc 0) acc
       = Some (acc @ between lo hi ys, \<exists>e \<in> set ys. lo < fst e \<and> hi \<le> fst e)" for acc
      using range_loop_fwd_spec [of ys z x lo hi "[]" zs acc] Cons d rs srt entries_nonnull [of _ pg] by simp
    have rest: "between lo hi ys = []" if "hi \<le> fst x"
      using that srt by (intro between_beyond) (auto intro: order_trans)
    show ?thesis
      using Cons rs entries_nonnull [of x pg] rest
      by (auto simp: range_page_fwd_def access_simps loop between_Cons not_less not_le)
  qed
qed

end
