(* ===== verification/KV_Btree.thy ===== *)
theory KV_Btree
  imports KV_Search
begin

text \<open>
  The B+-tree over the page heap: class \<open>btree\<close> of \<open>bufferevent_single/Hikv/obj/btree.cc\<close> and
  the methods \<open>page::store\<close> and \<open>page::remove\<close> of \<open>btree.h\<close> that reach it. The state is the
  object's fields together with the heap of pages it has allocated. Page memory comes from
  \<open>malloc\<close> (or from the pool allocator when one is given): the model takes the sequence of
  addresses the allocation calls return as its parameter \<open>mal\<close>, and counts the calls.

  Operations run one at a time here, so the page locks are always free when they are taken.
\<close>

section \<open>State and page allocation\<close>

record 'k btree =
  height :: int
  root :: ptr
  heap :: "ptr \<Rightarrow> 'k page option"
  allocs :: nat
  page_count :: "u64 list"
  num_kv :: "u64 list"

definition bump :: "u64 list \<Rightarrow> nat \<Rightarrow> u64 list option" where
  "bump xs tid = do { c \<leftarrow> rd xs tid; wr xs tid (c + 1) }"

text \<open>Both overloads of \<open>getNewPage\<close>; clearing a page at the null address is a crash.\<close>

definition add_page ::
  "(nat \<Rightarrow> ptr) \<Rightarrow> nat \<Rightarrow> 'k page \<Rightarrow> 'k btree \<Rightarrow> (ptr \<times> 'k btree) option" where
  "add_page mal tid pg b =
     (let a = mal (allocs b)
      in if a = 0 then None
         else do { pc \<leftarrow> bump (page_count b) tid;
                   Some (a, b\<lparr>heap := (heap b)(a \<mapsto> pg), allocs := allocs b + 1, page_count := pc\<rparr>) })"

definition getNewPage ::
  "(nat \<Rightarrow> ptr) \<Rightarrow> nat \<Rightarrow> u32 \<Rightarrow> ('k::zero) btree \<Rightarrow> (ptr \<times> 'k btree) option" where
  "getNewPage mal tid lv b = add_page mal tid (new_page lv) b"

definition getNewPage_root ::
  "(nat \<Rightarrow> ptr) \<Rightarrow> nat \<Rightarrow> ptr \<Rightarrow> 'k \<Rightarrow> ptr \<Rightarrow> u32 \<Rightarrow> ('k::zero) btree \<Rightarrow> (ptr \<times> 'k btree) option" where
  "getNewPage_root mal tid left key right lv b = add_page mal tid (new_root_page left key right lv) b"

definition setNewRoot :: "ptr \<Rightarrow> 'k btree \<Rightarrow> 'k btree" where
  "setNewRoot r b = b\<lparr>root := r, height := height b + 1\<rparr>"

text \<open>
  The constructor. \<open>page_count\<close> is cleared only after the root page has been counted, and
  \<open>num_kv\<close> is never cleared: both start from whatever the memory held.
\<close>

definition btree_new ::
  "(nat \<Rightarrow> ptr) \<Rightarrow> u64 list \<Rightarrow> u64 list \<Rightarrow> ('k::zero) btree option" where
  "btree_new mal pc_mem nkv_mem =
     do { (r, b) \<leftarrow> getNewPage mal 0 0
            \<lparr>height = 0, root = 0, heap = (\<lambda>_. None), allocs = 0, page_count = pc_mem, num_kv = nkv_mem\<rparr>;
          Some (b\<lparr>root := r, height := 1, page_count := replicate 32 0\<rparr>) }"

section \<open>Descending the tree\<close>

partial_function (option) descend_leaf ::
  "(ptr \<Rightarrow> 'k page option) \<Rightarrow> ('k::linorder) \<Rightarrow> ptr \<Rightarrow> ptr option" where
  "descend_leaf H key p =
     do { pg \<leftarrow> H p;
          if leftmost_ptr (hdr pg) \<noteq> 0
          then do { q \<leftarrow> linear_search H pg key; descend_leaf H key q }
          else Some p }"

partial_function (option) descend_level ::
  "(ptr \<Rightarrow> 'k page option) \<Rightarrow> ('k::linorder) \<Rightarrow> u32 \<Rightarrow> ptr \<Rightarrow> ptr option" where
  "descend_level H key lv p =
     do { pg \<leftarrow> H p;
          if lv < level (hdr pg)
          then do { q \<leftarrow> linear_search H pg key; descend_level H key lv q }
          else Some p }"

text \<open>The second loop of \<open>btree_search\<close>: while the search names the right sibling, move there.\<close>

partial_function (option) search_leaf ::
  "(ptr \<Rightarrow> 'k page option) \<Rightarrow> ('k::linorder) \<Rightarrow> ptr \<Rightarrow> ptr option" where
  "search_leaf H key p =
     do { pg \<leftarrow> H p;
          t \<leftarrow> linear_search H pg key;
          if t = sibling_ptr (hdr pg)
          then (if t = 0 then Some 0 else search_leaf H key t)
          else Some t }"

definition btree_search :: "('k::linorder) \<Rightarrow> 'k btree \<Rightarrow> ptr option" where
  "btree_search key b =
     do { p \<leftarrow> descend_leaf (heap b) key (root b); search_leaf (heap b) key p }"

partial_function (option) range_descend ::
  "(ptr \<Rightarrow> 'k page option) \<Rightarrow> ('k::linorder) \<Rightarrow> 'k \<Rightarrow> ptr \<Rightarrow> ptr list option" where
  "range_descend H lo hi p =
     (if p = 0 then Some []
      else do { pg \<leftarrow> H p;
                if leftmost_ptr (hdr pg) \<noteq> 0
                then do { q \<leftarrow> linear_search H pg lo; range_descend H lo hi q }
                else linear_search_range H p lo hi })"

definition btree_search_range :: "('k::linorder) \<Rightarrow> 'k \<Rightarrow> 'k btree \<Rightarrow> ptr list option" where
  "btree_search_range lo hi b = range_descend (heap b) lo hi (root b)"

section \<open>Storing a record in a page\<close>

text \<open>The migration loop of a split: the records with the given indices go to the new sibling.\<close>

fun migrate ::
  "('k::linorder \<times> ptr) list \<Rightarrow> nat list \<Rightarrow> 'k page \<times> nat \<Rightarrow> ('k page \<times> nat) option" where
  "migrate rs [] sc = Some sc"
| "migrate rs (i # is) (sib, cnt) =
     do { e \<leftarrow> rd rs i;
          sc \<leftarrow> insert_key (fst e) (snd e) cnt True sib;
          migrate rs is sc }"

text \<open>
  The part of \<open>store\<close> that works on this page: insert in place, or split. The result carries the
  page the record went to and, after a split of a page that is not the root, the separator, the
  new page and the level that \<open>btree_insert_internal\<close> is then called with.
\<close>

definition store_page ::
  "(nat \<Rightarrow> ptr) \<Rightarrow> nat \<Rightarrow> ptr \<Rightarrow> ('k::{linorder,zero}) \<Rightarrow> ptr \<Rightarrow> 'k btree
     \<Rightarrow> ((ptr \<times> ('k \<times> ptr \<times> u32) option) \<times> 'k btree) option" where
  "store_page mal tid this key right b =
     do { pg \<leftarrow> heap b this;
          n \<leftarrow> count_page pg;
          if n < cardinality - 1
          then do { (pg', _) \<leftarrow> insert_key key right n True pg;
                    Some ((this, None), b\<lparr>heap := (heap b)(this \<mapsto> pg')\<rparr>) }
          else do {
            (sp, b1) \<leftarrow> getNewPage mal tid (level (hdr pg)) b;
            sib0 \<leftarrow> heap b1 sp;
            let m = n div 2;
            e \<leftarrow> rd (records pg) m;
            let split_key = fst e;
            (sib1, cnt) \<leftarrow>
              (if leftmost_ptr (hdr pg) = 0
               then migrate (records pg) [m..<n] (sib0, 0)
               else do { (s, c) \<leftarrow> migrate (records pg) [m + 1..<n] (sib0, 0);
                         Some (s\<lparr>hdr := (hdr s)\<lparr>leftmost_ptr := snd e\<rparr>\<rparr>, c) });
            let sib2 = sib1\<lparr>hdr := (hdr sib1)\<lparr>sibling_ptr := sibling_ptr (hdr pg)\<rparr>\<rparr>;
            let sc = switch_counter (hdr pg);
            rs \<leftarrow> wr_ptr (records pg) m 0;
            let pg1 = pg\<lparr>hdr := (hdr pg)\<lparr>sibling_ptr := sp,
                                         switch_counter := (if IS_FORWARD sc then sc + 2 else sc + 1),
                                         last_index := int m - 1\<rparr>,
                         records := rs\<rparr>;
            (pg2, sib3, ret) \<leftarrow>
              (if key < split_key
               then do { (p, _) \<leftarrow> insert_key key right m True pg1; Some (p, sib2, this) }
               else do { (s, _) \<leftarrow> insert_key key right cnt True sib2; Some (pg1, s, sp) });
            let b2 = b1\<lparr>heap := (heap b1)(this \<mapsto> pg2, sp \<mapsto> sib3)\<rparr>;
            let lv = level (hdr pg) + 1;
            if root b2 = this
            then do { (nr, b3) \<leftarrow> getNewPage_root mal tid this split_key sp lv b2;
                      Some ((ret, None), setNewRoot nr b3) }
            else Some ((ret, Some (split_key, sp, lv)), b2) } }"

section \<open>store and the inserts\<close>

text \<open>
  \<open>page::store\<close> and \<open>btree::btree_insert_internal\<close> call each other, once per level; the first
  argument after \<open>mal\<close> bounds the depth of those calls. A returned page of 0 is the code's
  \<open>NULL\<close>, on which the callers start again from the root.
\<close>

fun store ::
  "(nat \<Rightarrow> ptr) \<Rightarrow> nat \<Rightarrow> nat \<Rightarrow> ptr \<Rightarrow> ('k::{linorder,zero}) \<Rightarrow> ptr \<Rightarrow> ptr \<Rightarrow> 'k btree
     \<Rightarrow> (ptr \<times> 'k btree) option"
and btree_insert_internal ::
  "(nat \<Rightarrow> ptr) \<Rightarrow> nat \<Rightarrow> nat \<Rightarrow> ('k::{linorder,zero}) \<Rightarrow> ptr \<Rightarrow> u32 \<Rightarrow> 'k btree \<Rightarrow> 'k btree option"
where
  "store mal 0 tid this key right invalid_sibling b = None"
| "store mal (Suc f) tid this key right invalid_sibling b =
     do { pg \<leftarrow> heap b this;
          if is_deleted (hdr pg) then Some (0, b)
          else do {
            let sib = sibling_ptr (hdr pg);
            beyond \<leftarrow> (if sib \<noteq> 0 \<and> sib \<noteq> invalid_sibling
                     then do { s \<leftarrow> heap b sib; e \<leftarrow> rd (records s) 0; Some (fst e < key) }
                     else Some False);
            if beyond then store mal f tid sib key right invalid_sibling b
            else do {
              ((ret, up), b1) \<leftarrow> store_page mal tid this key right b;
              (case up of
                 None \<Rightarrow> Some (ret, b1)
               | Some (k, s, lv) \<Rightarrow>
                   do { b2 \<leftarrow> btree_insert_internal mal f tid k s lv b1; Some (ret, b2) }) } } }"
| "btree_insert_internal mal 0 tid key right lv b = None"
| "btree_insert_internal mal (Suc f) tid key right lv b =
     do { r \<leftarrow> heap b (root b);
          if level (hdr r) < lv then Some b
          else do {
            p \<leftarrow> descend_level (heap b) key lv (root b);
            (ret, b1) \<leftarrow> store mal f tid p key right 0 b;
            if ret = 0 then btree_insert_internal mal f tid key right lv b1 else Some b1 } }"

fun btree_insert ::
  "(nat \<Rightarrow> ptr) \<Rightarrow> nat \<Rightarrow> nat \<Rightarrow> ('k::{linorder,zero}) \<Rightarrow> ptr \<Rightarrow> 'k btree \<Rightarrow> 'k btree option" where
  "btree_insert mal 0 tid key right b = None"
| "btree_insert mal (Suc f) tid key right b =
     do { p \<leftarrow> descend_leaf (heap b) key (root b);
          (ret, b1) \<leftarrow> store mal f tid p key right 0 b;
          if ret = 0 then btree_insert mal f tid key right b1
          else do { nk \<leftarrow> bump (num_kv b1) tid; Some (b1\<lparr>num_kv := nk\<rparr>) } }"

section \<open>Deletion\<close>

text \<open>
  \<open>btree_delete\<close>: the search loop remembers the page it stopped at; if the page does not hold
  the key the whole function is called again. The argument bounds the number of those calls.
  Deleting from the null page prints a message and changes nothing.
\<close>

partial_function (option) delete_leaf ::
  "(ptr \<Rightarrow> 'k page option) \<Rightarrow> ('k::linorder) \<Rightarrow> ptr \<Rightarrow> ptr option" where
  "delete_leaf H key p =
     do { pg \<leftarrow> H p;
          t \<leftarrow> linear_search H pg key;
          if t = sibling_ptr (hdr pg)
          then (if t = 0 then Some 0 else delete_leaf H key t)
          else Some p }"

fun btree_delete :: "nat \<Rightarrow> ('k::linorder) \<Rightarrow> 'k btree \<Rightarrow> 'k btree option" where
  "btree_delete 0 key b = None"
| "btree_delete (Suc f) key b =
     do { p0 \<leftarrow> descend_leaf (heap b) key (root b);
          p \<leftarrow> delete_leaf (heap b) key p0;
          if p = 0 then Some b
          else do { pg \<leftarrow> heap b p;
                    (found, pg') \<leftarrow> remove_key key pg;
                    let b1 = b\<lparr>heap := (heap b)(p \<mapsto> pg')\<rparr>;
                    if found then Some b1 else btree_delete f key b1 } }"

end
