(* ===== verification/KV_Levels.thy ===== *)
theory KV_Levels
  imports KV_Btree "HOL-Library.Option_ord"
begin

text \<open>
  The abstraction of the page heap. A level of the tree is the list of its pages from left to
  right, each with the lower bound of its key range (\<open>None\<close> for the leftmost page). Reading the
  children of a level's pages in order gives the level below, so the whole tree is the list
  \<open>[(None, root)]\<close> read \<open>height\<close> times; its records are those of the last list. The invariant
  says what each level keeps: the pages are linked by their sibling pointers in this order, the
  bounds and keys read from left to right are sorted, and no page is shared.
\<close>

section \<open>Levels as lists\<close>

definition page_entries :: "(ptr \<Rightarrow> 'k page option) \<Rightarrow> ptr \<Rightarrow> ('k \<times> ptr) list" where
  "page_entries H p = (case H p of None \<Rightarrow> [] | Some pg \<Rightarrow> entries pg)"

definition children_of :: "'k option \<Rightarrow> 'k page \<Rightarrow> ('k option \<times> ptr) list" where
  "children_of lo pg = (lo, leftmost_ptr (hdr pg)) # map (\<lambda>e. (Some (fst e), snd e)) (entries pg)"

definition children :: "(ptr \<Rightarrow> 'k page option) \<Rightarrow> 'k option \<times> ptr \<Rightarrow> ('k option \<times> ptr) list" where
  "children H e = (case H (snd e) of None \<Rightarrow> [] | Some pg \<Rightarrow> children_of (fst e) pg)"

definition flat :: "(ptr \<Rightarrow> 'k page option) \<Rightarrow> ('k option \<times> ptr) list \<Rightarrow> ('k option \<times> ptr) list" where
  "flat H L = concat (map (children H) L)"

definition contents :: "(ptr \<Rightarrow> 'k page option) \<Rightarrow> ('k option \<times> ptr) list \<Rightarrow> ('k \<times> ptr) list" where
  "contents H L = concat (map (\<lambda>e. page_entries H (snd e)) L)"

lemma flat_append [simp]: "flat H (xs @ ys) = flat H xs @ flat H ys"
  by (simp add: flat_def)

lemma flat_Cons [simp]: "flat H (e # ys) = children H e @ flat H ys"
  by (simp add: flat_def)

lemma flat_Nil [simp]: "flat H [] = []"
  by (simp add: flat_def)

lemma contents_append [simp]: "contents H (xs @ ys) = contents H xs @ contents H ys"
  by (simp add: contents_def)

lemma contents_Cons [simp]: "contents H (e # ys) = page_entries H (snd e) @ contents H ys"
  by (simp add: contents_def)

lemma contents_Nil [simp]: "contents H [] = []"
  by (simp add: contents_def)

lemma children_Some: "H p = Some pg \<Longrightarrow> children H (lo, p) = children_of lo pg"
  by (simp add: children_def)

section \<open>The invariant of a level\<close>

text \<open>
  A page that has a right neighbour is linked to it and not empty, and at most two of its records carry the lower
  bound of that page: equal keys can straddle a split, but never reach the middle of a full page.
\<close>

definition link_ok :: "(ptr \<Rightarrow> 'k page option) \<Rightarrow> ptr \<Rightarrow> ('k option \<times> ptr) option \<Rightarrow> bool" where
  "link_ok H p nxt \<longleftrightarrow>
     (\<exists>pg. H p = Some pg \<and>
        (case nxt of
           None \<Rightarrow> sibling_ptr (hdr pg) = 0
         | Some f \<Rightarrow> sibling_ptr (hdr pg) = snd f \<and> entries pg \<noteq> [] \<and>
             length (filter (\<lambda>r. Some (fst r) = fst f) (entries pg)) \<le> 2))"

definition first :: "'a list \<Rightarrow> 'a option \<Rightarrow> 'a option" where
  "first xs d = (case xs of [] \<Rightarrow> d | x # _ \<Rightarrow> Some x)"

lemma first_simps [simp]: "first [] d = d" "first (x # xs) d = Some x" "first (xs @ ys) d = first xs (first ys d)"
  by (auto simp: first_def split: list.splits)

fun linked :: "(ptr \<Rightarrow> 'k page option) \<Rightarrow> ('k option \<times> ptr) list \<Rightarrow> ('k option \<times> ptr) option \<Rightarrow> bool" where
  "linked H [] nxt = True"
| "linked H (e # L) nxt = (link_ok H (snd e) (first L nxt) \<and> linked H L nxt)"

lemma linked_append [simp]: "linked H (A @ B) nxt \<longleftrightarrow> linked H A (first B nxt) \<and> linked H B nxt"
  by (induction A) auto

definition page_at :: "nat \<Rightarrow> 'k option \<Rightarrow> ('k::linorder) page \<Rightarrow> bool" where
  "page_at n lo pg \<longleftrightarrow>
     page_ok pg \<and> unat (level (hdr pg)) = n \<and> \<not> is_deleted (hdr pg) \<and>
     (leftmost_ptr (hdr pg) = 0 \<longleftrightarrow> n = 0) \<and> distinct (map snd (entries pg)) \<and>
     (0 < n \<longrightarrow> entries pg \<noteq> []) \<and>
     (n = 0 \<longrightarrow> (\<forall>l. lo = Some l \<longrightarrow> entries pg \<noteq> [] \<and> fst (hd (entries pg)) = l))"

definition pages_at :: "(ptr \<Rightarrow> 'k page option) \<Rightarrow> nat \<Rightarrow> (('k::linorder) option \<times> ptr) list \<Rightarrow> bool" where
  "pages_at H n L \<longleftrightarrow> (\<forall>e \<in> set L. snd e \<noteq> 0 \<and> (\<exists>pg. H (snd e) = Some pg \<and> page_at n (fst e) pg))"

lemma pages_at_simps [simp]:
  "pages_at H n []"
  "pages_at H n (e # L) \<longleftrightarrow> snd e \<noteq> 0 \<and> (\<exists>pg. H (snd e) = Some pg \<and> page_at n (fst e) pg) \<and> pages_at H n L"
  "pages_at H n (A @ B) \<longleftrightarrow> pages_at H n A \<and> pages_at H n B"
  by (auto simp: pages_at_def)

definition wf_level :: "(ptr \<Rightarrow> 'k page option) \<Rightarrow> nat \<Rightarrow> (('k::linorder) option \<times> ptr) list \<Rightarrow> bool" where
  "wf_level H n L \<longleftrightarrow>
     L \<noteq> [] \<and> fst (hd L) = None \<and> distinct (map snd L) \<and> linked H L None \<and>
     sorted (map fst (flat H L)) \<and> (0 < n \<longrightarrow> distinct (map snd (flat H L))) \<and> pages_at H n L"

text \<open>All of this looks only at the pages of the level.\<close>

lemma flat_cong: "(\<And>p. p \<in> snd ` set L \<Longrightarrow> H' p = H p) \<Longrightarrow> flat H' L = flat H L"
  unfolding flat_def children_def by (intro arg_cong [where f = concat] map_cong) auto

lemma contents_cong: "(\<And>p. p \<in> snd ` set L \<Longrightarrow> H' p = H p) \<Longrightarrow> contents H' L = contents H L"
  unfolding contents_def page_entries_def by (intro arg_cong [where f = concat] map_cong) auto

lemma linked_cong: "(\<And>p. p \<in> snd ` set L \<Longrightarrow> H' p = H p) \<Longrightarrow> linked H' L nxt = linked H L nxt"
  by (induction L) (auto simp: link_ok_def)

lemma pages_at_cong: "(\<And>p. p \<in> snd ` set L \<Longrightarrow> H' p = H p) \<Longrightarrow> pages_at H' n L = pages_at H n L"
  by (auto simp: pages_at_def)

lemmas level_cong = flat_cong contents_cong linked_cong pages_at_cong

lemma wf_level_cong:
  assumes "\<And>p. p \<in> snd ` set L \<Longrightarrow> H' p = H p"
  shows "wf_level H' n L = wf_level H n L"
  unfolding wf_level_def using level_cong [of L H' H, OF assms] by simp

text \<open>The levels from a list at height \<open>n + d\<close> down to height \<open>n\<close>.\<close>

fun chain :: "(ptr \<Rightarrow> 'k page option) \<Rightarrow> nat \<Rightarrow> nat \<Rightarrow> (('k::linorder) option \<times> ptr) list \<Rightarrow> bool" where
  "chain H n 0 L = wf_level H n L"
| "chain H n (Suc d) L = (wf_level H (n + Suc d) L \<and> chain H n d (flat H L))"

abbreviation down :: "(ptr \<Rightarrow> 'k page option) \<Rightarrow> nat \<Rightarrow> ('k option \<times> ptr) list \<Rightarrow> ('k option \<times> ptr) list" where
  "down H d \<equiv> (flat H ^^ d)"

lemma down_Suc: "down H (Suc d) L = down H d (flat H L)"
  by (simp add: funpow_swap1)

lemma chain_top: "chain H n d L \<Longrightarrow> wf_level H (n + d) L"
  by (cases d) auto

lemma chain_bottom: "chain H n d L \<Longrightarrow> wf_level H n (down H d L)"
  by (induction d arbitrary: L) (auto simp: down_Suc simp del: funpow.simps)

lemma chain_split: "chain H m (n + d) L \<longleftrightarrow> chain H (m + n) d L \<and> chain H m n (down H d L)"
proof (induction d arbitrary: L)
  case 0
  then show ?case using chain_top [of H m n L] by auto
next
  case (Suc d)
  then show ?case by (auto simp: down_Suc add.assoc simp del: funpow.simps)
qed

section \<open>The page of a key\<close>

text \<open>\<open>L = A @ (lo, p) # B\<close> where \<open>p\<close> is the last page whose bound is not above the key.\<close>

definition located :: "('k::linorder) \<Rightarrow> 'k option \<Rightarrow> ('k option \<times> ptr) list \<Rightarrow> bool" where
  "located key lo B \<longleftrightarrow> lo \<le> Some key \<and> (\<forall>e \<in> set B. Some key < fst e)"

lemma wf_level_page:
  assumes "wf_level H n (A @ (lo, p) # B)"
  obtains pg where "H p = Some pg" "page_at n lo pg" "p \<noteq> 0"
    "link_ok H p (first B None)" "pages_at H n B"
    "p \<notin> snd ` set A" "p \<notin> snd ` set B" "flat H (A @ (lo, p) # B) = flat H A @ children_of lo pg @ flat H B"
    "sorted (map fst (flat H A @ children_of lo pg @ flat H B))"
    "0 < n \<longrightarrow> distinct (map snd (flat H A @ children_of lo pg @ flat H B))"
proof -
  obtain pg where "H p = Some pg" "page_at n lo pg"
    using assms unfolding wf_level_def by auto
  with assms show ?thesis
    by (intro that [of pg]) (simp_all add: wf_level_def children_Some)
qed

lemma bound_in_flat:
  assumes "pages_at H n L" "e \<in> set L"
  shows "fst e \<in> fst ` set (flat H L)"
proof -
  obtain pg where "H (snd e) = Some pg" using assms by (auto simp: pages_at_def)
  moreover obtain A B where "L = A @ e # B" using assms(2) by (auto dest: split_list)
  ultimately show ?thesis by (simp add: children_def children_of_def)
qed

text \<open>The first key of the page to the right is above every key that belongs left of it.\<close>

lemma first_key_beyond:
  assumes at: "page_at n (Some l) pg" and srt: "sorted (map fst (children_of (Some l) pg))"
  shows "l \<le> fst (records pg ! 0)"
proof -
  have ne: "entries pg \<noteq> []" using at by (cases "n = 0") (auto simp: page_at_def)
  then have "records pg ! 0 = hd (entries pg)"
    using entries_nth [of 0 pg] by (simp add: hd_conv_nth)
  then show ?thesis using srt ne by (cases "entries pg") (auto simp: children_of_def)
qed

end
