(* ===== verification/KV_Split.thy ===== *)
theory KV_Split
  imports KV_Levels
begin

text \<open>
  Splitting a full page: the migration loop copies the upper records to the new sibling, the
  null written at the middle cuts them off the old page, and the new record then goes to one of
  the two. In an internal page the middle record's pointer becomes the sibling's leftmost child.
\<close>

section \<open>The two halves\<close>

lemma ins_after_last: "\<forall>e \<in> set xs. fst e \<le> k \<Longrightarrow> ins_after k v xs = xs @ [(k, v)]"
  using ins_after_split [of xs k "[]" v] by simp

lemma migrate_ok:
  assumes "page_ok sib" and "\<forall>i \<in> set is. i < length rs \<and> snd (rs ! i) \<noteq> 0"
    and "sorted_keys (entries sib @ map ((!) rs) is)" and "length (entries sib) + length is < cardinality"
  obtains sib' where "migrate rs is (sib, length (entries sib)) = Some (sib', length (entries sib) + length is)"
    "entries sib' = entries sib @ map ((!) rs) is" "page_ok sib'"
    "hdr sib' = (hdr sib)\<lparr>last_index := int (length (entries sib) + length is) - 1\<rparr>"
  using assms
proof (induction "is" arbitrary: sib thesis)
  case Nil
  show ?case by (rule Nil.prems(1) [of sib]) (use Nil.prems(2-) in \<open>auto simp: page_ok_def\<close>)
next
  case (Cons i "is")
  let ?e = "rs ! i"
  obtain s1 where s1: "insert_key (fst ?e) (snd ?e) (length (entries sib)) True sib
        = Some (s1, length (entries sib) + 1)"
      "entries s1 = ins_after (fst ?e) (snd ?e) (entries sib)" "page_ok s1"
      "hdr s1 = (hdr sib)\<lparr>last_index := int (length (entries sib))\<rparr>"
    by (rule insert_key_ok [of sib "snd ?e" "fst ?e"]) (use Cons.prems(2-) in auto)
  have e1: "entries s1 = entries sib @ [?e]"
    unfolding s1(2) using ins_after_last [of "entries sib" "fst ?e" "snd ?e"] Cons.prems(4)
    by (auto simp: sorted_append)
  obtain s2 where s2: "migrate rs is (s1, length (entries s1)) = Some (s2, length (entries s1) + length is)"
      "entries s2 = entries s1 @ map ((!) rs) is" "page_ok s2"
      "hdr s2 = (hdr s1)\<lparr>last_index := int (length (entries s1) + length is) - 1\<rparr>"
    by (rule Cons.IH [of s1]) (use Cons.prems(2-) e1 s1(3) in auto)
  show ?case
    by (rule Cons.prems(1) [of s2]) (use s1 s2 e1 Cons.prems(2-) in \<open>auto simp: access_simps\<close>)
qed

lemma map_nth_drop: "k \<le> length xs \<Longrightarrow> map ((!) xs) [k..<length xs] = drop k xs"
  by (intro nth_equalityI) auto

text \<open>The upper half, as both branches of the split compute it.\<close>

lemma upper_half:
  assumes ok: "page_ok pg" and k: "k \<le> length (entries pg)"
  obtains s where "migrate (records pg) [k..<length (entries pg)] (new_page lv, 0)
        = Some (s, length (entries pg) - k)"
    "entries s = drop k (entries pg)" "page_ok s"
    "hdr s = (hdr (new_page lv))\<lparr>last_index := int (length (entries pg) - k) - 1\<rparr>"
proof -
  let ?is = "[k..<length (entries pg)]"
  have "map ((!) (records pg)) ?is = map ((!) (entries pg)) ?is"
    using entries_nth [of _ pg] by simp
  then have m: "map ((!) (records pg)) ?is = drop k (entries pg)"
    using map_nth_drop [OF k] by simp
  have l: "length (entries pg) < 6" "length (records pg) = 6" "sorted_keys (entries pg)"
    using ok by (auto simp: page_ok_def)
  have nn: "snd (records pg ! i) \<noteq> 0" if "i < length (entries pg)" for i
    using that entries_nth [of i pg] entries_nonnull [of "entries pg ! i" pg] nth_mem [OF that] by simp
  have srt: "sorted_keys (drop k (entries pg))" using l(3) by (simp add: drop_map [symmetric] sorted_wrt_drop)
  obtain s where "migrate (records pg) ?is (new_page lv, length (entries (new_page lv :: 'a page)))
        = Some (s, length (entries (new_page lv :: 'a page)) + length ?is)"
    "entries s = entries (new_page lv) @ map ((!) (records pg)) ?is" "page_ok s"
    "hdr s = (hdr (new_page lv))\<lparr>last_index := int (length (entries (new_page lv :: 'a page)) + length ?is) - 1\<rparr>"
    by (rule migrate_ok [of "new_page lv" ?is "records pg"])
       (use l nn srt in \<open>simp_all add: new_page_ok m\<close>)
  then show ?thesis by (intro that [of s]) (simp_all add: m)
qed

lemma IS_FORWARD_add2: "IS_FORWARD c \<Longrightarrow> IS_FORWARD (c + 2)"
  unfolding IS_FORWARD_def by (simp flip: even_iff_mod_2_eq_zero)

text \<open>The lower half keeps the page's address and header.\<close>

definition lower_half :: "ptr \<Rightarrow> nat \<Rightarrow> 'k page \<Rightarrow> 'k page" where
  "lower_half sp m pg =
     pg\<lparr>hdr := (hdr pg)\<lparr>sibling_ptr := sp, switch_counter := switch_counter (hdr pg) + 2, last_index := int m - 1\<rparr>,
        records := (records pg)[m := (fst (records pg ! m), 0)]\<rparr>"

lemma lower_half_ok:
  assumes ok: "page_ok pg" and m: "0 < m" "m < length (entries pg)"
  shows "entries (lower_half sp m pg) = take m (entries pg)" "page_ok (lower_half sp m pg)"
proof -
  have l: "length (entries pg) < 6" "length (records pg) = 6" "sorted_keys (entries pg)"
    using ok by (auto simp: page_ok_def)
  have "records (lower_half sp m pg) = take m (records pg) @ (fst (records pg ! m), 0) # drop (Suc m) (records pg)"
    using m l by (simp add: lower_half_def upd_conv_take_nth_drop)
  moreover have "take m (records pg) = take m (entries pg)"
    using take_entries [of pg] m by (metis min.strict_order_iff take_take)
  ultimately show ent: "entries (lower_half sp m pg) = take m (entries pg)"
    using entries_nonnull [of _ pg] by (intro entries_eqI) (auto dest: in_set_takeD)
  have "IS_FORWARD (switch_counter (hdr pg) + 2)"
    using ok by (intro IS_FORWARD_add2) (simp add: page_ok_def)
  then show "page_ok (lower_half sp m pg)"
    unfolding page_ok_def ent using m l
    by (auto simp: lower_half_def take_map [symmetric] sorted_wrt_take)
qed

section \<open>store on one page\<close>

lemma store_page_room:
  assumes pg: "heap b this = Some pg" "page_ok pg" and room: "length (entries pg) < 5" and r: "right \<noteq> 0"
  obtains pg' where "store_page mal tid this key right b = Some ((this, None), b\<lparr>heap := (heap b)(this \<mapsto> pg')\<rparr>)"
    "entries pg' = ins_after key right (entries pg)" "page_ok pg'"
    "hdr pg' = (hdr pg)\<lparr>last_index := int (length (entries pg))\<rparr>"
proof -
  obtain pg' where "insert_key key right (length (entries pg)) True pg = Some (pg', length (entries pg) + 1)"
    "entries pg' = ins_after key right (entries pg)" "page_ok pg'"
    "hdr pg' = (hdr pg)\<lparr>last_index := int (length (entries pg))\<rparr>"
    using insert_key_ok [OF pg(2), of right key] room r by auto
  then show ?thesis
    using that pg room by (simp add: store_page_def count_page_ok)
qed

definition next_count :: "nat \<Rightarrow> 'k btree \<Rightarrow> 'k btree" where
  "next_count tid b = b\<lparr>allocs := allocs b + 1, page_count := (page_count b)[tid := page_count b ! tid + 1]\<rparr>"

lemma add_page_ok:
  assumes "mal (allocs b) \<noteq> 0" "tid < length (page_count b)"
  shows "add_page mal tid pg b
       = Some (mal (allocs b), (next_count tid b)\<lparr>heap := (heap b)(mal (allocs b) \<mapsto> pg)\<rparr>)"
  using assms by (simp add: add_page_def Let_def bump_def access_simps next_count_def)

lemma next_count_simps [simp]:
  "heap (next_count tid b) = heap b" "root (next_count tid b) = root b"
  "height (next_count tid b) = height b" "allocs (next_count tid b) = allocs b + 1"
  "length (page_count (next_count tid b)) = length (page_count b)" "num_kv (next_count tid b) = num_kv b"
  by (simp_all add: next_count_def)

text \<open>
  The full page: the two halves, and the new record inserted in the one it belongs to. The
  statement names the page the record goes to, so the insertion is described by the same facts
  as an insertion without a split.
\<close>

lemma store_page_full:
  assumes pg: "heap b this = Some pg" "page_ok pg" and full: "length (entries pg) = 5" and r: "right \<noteq> 0"
    and sp: "mal (allocs b) = sp" "sp \<noteq> 0" "sp \<noteq> this" and tid: "tid < length (page_count b)"
    and sk: "split_key = fst (entries pg ! 2)"
    and t: "t = (if key < split_key then this else sp)"
  obtains pr tp tp' where
    "page_ok pr" "entries pr = drop (if leftmost_ptr (hdr pg) = 0 then 2 else 3) (entries pg)"
    "leftmost_ptr (hdr pr) = (if leftmost_ptr (hdr pg) = 0 then 0 else snd (entries pg ! 2))"
    "sibling_ptr (hdr pr) = sibling_ptr (hdr pg)" "level (hdr pr) = level (hdr pg)" "\<not> is_deleted (hdr pr)"
    "tp = (if key < split_key then lower_half sp 2 pg else pr)"
    "entries tp' = ins_after key right (entries tp)" "page_ok tp'"
    "hdr tp' = (hdr tp)\<lparr>last_index := int (length (entries tp))\<rparr>"
    "store_page mal tid this key right b =
       (let b2 = (next_count tid b)\<lparr>heap := (heap b)(this \<mapsto> lower_half sp 2 pg, sp \<mapsto> pr, t \<mapsto> tp')\<rparr>
        in if root b = this
           then do { (nr, b3) \<leftarrow> getNewPage_root mal tid this split_key sp (level (hdr pg) + 1) b2;
                     Some ((t, None), setNewRoot nr b3) }
           else Some ((t, Some (split_key, sp, level (hdr pg) + 1)), b2))"
proof -
  define k where "k = (if leftmost_ptr (hdr pg) = 0 then 2 else 3 :: nat)"
  let ?h = "hdr pg"
  let ?lm = "(if leftmost_ptr ?h = 0 then 0 else snd (entries pg ! 2))"
  obtain s where s: "migrate (records pg) [k..<length (entries pg)] (new_page (level ?h), 0)
        = Some (s, length (entries pg) - k)"
    "entries s = drop k (entries pg)" "page_ok s"
    "hdr s = (hdr (new_page (level ?h)))\<lparr>last_index := int (length (entries pg) - k) - 1\<rparr>"
    by (rule upper_half [OF pg(2), of k "level ?h"]) (use full in \<open>simp_all add: k_def\<close>)
  define pr where "pr = s\<lparr>hdr := (hdr s)\<lparr>leftmost_ptr := ?lm, sibling_ptr := sibling_ptr ?h\<rparr>\<rparr>"
  have pr: "page_ok pr" "entries pr = drop k (entries pg)"
    using s by (auto simp: pr_def page_ok_def entries_def)
  have e2: "records pg ! 2 = entries pg ! 2" using entries_nth [of 2 pg] full by simp
  have l: "length (records pg) = 6" "IS_FORWARD (switch_counter ?h)" using pg(2) by (auto simp: page_ok_def)
  have mig: "(if leftmost_ptr ?h = 0
              then migrate (records pg) [2..<5] (new_page (level ?h), 0)
              else do { (s, c) \<leftarrow> migrate (records pg) [2 + 1..<5] (new_page (level ?h), 0);
                        Some (s\<lparr>hdr := (hdr s)\<lparr>leftmost_ptr := snd (entries pg ! 2)\<rparr>\<rparr>, c) })
            = Some (if leftmost_ptr ?h = 0 then s else s\<lparr>hdr := (hdr s)\<lparr>leftmost_ptr := ?lm\<rparr>\<rparr>, 5 - k)"
    using s(1) full by (auto simp: k_def simp del: upt_rec_numeral migrate.simps)
  have pr': "(if leftmost_ptr ?h = 0 then s else s\<lparr>hdr := (hdr s)\<lparr>leftmost_ptr := ?lm\<rparr>\<rparr>)
      \<lparr>hdr := (hdr (if leftmost_ptr ?h = 0 then s else s\<lparr>hdr := (hdr s)\<lparr>leftmost_ptr := ?lm\<rparr>\<rparr>))
         \<lparr>sibling_ptr := sibling_ptr ?h\<rparr>\<rparr> = pr"
    using s(4) by (auto simp: pr_def)
  let ?pl = "lower_half sp 2 pg"
  have pl: "entries ?pl = take 2 (entries pg)" "page_ok ?pl"
    using lower_half_ok [OF pg(2), of 2 sp] full by auto
  define tp where "tp = (if key < split_key then ?pl else pr)"
  have len: "length (entries tp) = (if key < split_key then 2 else 5 - k)"
    using pl(1) pr(2) full by (simp add: tp_def)
  obtain tp' where tp': "insert_key key right (length (entries tp)) True tp = Some (tp', length (entries tp) + 1)"
    "entries tp' = ins_after key right (entries tp)" "page_ok tp'"
    "hdr tp' = (hdr tp)\<lparr>last_index := int (length (entries tp))\<rparr>"
    using insert_key_ok [of tp right key] pl(2) pr(1) r len by (auto simp: tp_def k_def split: if_splits)
  have up: "(heap b)(this \<mapsto> ?pl, sp \<mapsto> pr, t \<mapsto> tp')
      = (heap b)(this \<mapsto> (if key < split_key then tp' else ?pl), sp \<mapsto> (if key < split_key then pr else tp'))"
    using t sp(3) by auto
  have sto: "store_page mal tid this key right b =
       (let b2 = (next_count tid b)\<lparr>heap := (heap b)(this \<mapsto> ?pl, sp \<mapsto> pr, t \<mapsto> tp')\<rparr>
        in if root b = this
           then do { (nr, b3) \<leftarrow> getNewPage_root mal tid this split_key sp (level ?h + 1) b2;
                     Some ((t, None), setNewRoot nr b3) }
           else Some ((t, Some (split_key, sp, level ?h + 1)), b2))"
  proof (cases "key < split_key")
    case True
    then have "insert_key key right 2 True ?pl = Some (tp', 3)" using tp'(1) len by (simp add: tp_def)
    with True show ?thesis
      using pg full l e2 tid sp t unfolding up
      by (simp add: store_page_def count_page_ok getNewPage_def add_page_ok access_simps lower_half_def
          Let_def mig pr' flip: sk del: upt_rec_numeral migrate.simps)
  next
    case False
    then have "insert_key key right (5 - k) True pr = Some (tp', 5 - k + 1)"
      using tp'(1) len by (simp add: tp_def)
    with False show ?thesis
      using pg full l e2 tid sp t unfolding up
      by (simp add: store_page_def count_page_ok getNewPage_def add_page_ok access_simps lower_half_def
          Let_def mig pr' flip: sk del: upt_rec_numeral migrate.simps)
  qed
  show ?thesis
    by (rule that [OF _ _ _ _ _ _ tp_def tp'(2-4) sto])
       (use pr s in \<open>simp_all add: k_def pr_def\<close>)
qed

end
