(* ===== verification/KV_Levelins.thy ===== *)
theory KV_Levelins
  imports KV_Split
begin

text \<open>
  What an insertion does to one level: a record inserted in the page it belongs to is a record
  inserted in the level, and splitting a page changes the list of pages but not what they hold.
\<close>

section \<open>Insertion in the page a key belongs to\<close>

lemma ins_after_mid:
  assumes "\<forall>e \<in> set xs. fst e \<le> k" and "\<forall>e \<in> set zs. k < fst e"
  shows "ins_after k v (xs @ ys @ zs) = xs @ ins_after k v ys @ zs"
proof -
  have "ins_after k v (ys @ zs) = ins_after k v ys @ zs"
    using assms(2) by (induction ys) (auto simp: ins_after_Cons ins_after_front)
  moreover have "ins_after k v (xs @ ws) = xs @ ins_after k v ws" for ws
    using assms(1) by (induction xs) (auto simp: ins_after_Cons)
  ultimately show ?thesis by simp
qed

lemma ins_after_map_Some:
  "ins_after (Some k) v (map (\<lambda>e. (Some (fst e), snd e)) xs)
 = map (\<lambda>e. (Some (fst e), snd e)) (ins_after k v xs)"
  by (induction xs) (auto simp: ins_after_Cons)

lemma filter_ins_after: "\<not> P (k, v) \<Longrightarrow> filter P (ins_after k v xs) = filter P xs"
  by (induction xs) (auto simp: ins_after_Cons)

lemma contents_in_flat: "e \<in> set (contents H L) \<Longrightarrow> (Some (fst e), snd e) \<in> set (flat H L)"
  by (induction L) (auto simp: page_entries_def children_def children_of_def split: option.splits)

lemma flat_above:
  assumes "pages_at H n B" and "sorted (map fst (flat H B))" and "located key lo B"
  shows "\<forall>e \<in> set (flat H B). Some key < fst e"
proof (cases B)
  case (Cons b B')
  obtain s where s: "H (snd b) = Some s" using assms(1) Cons by auto
  obtain rest where rest: "flat H B = (fst b, leftmost_ptr (hdr s)) # rest"
    using Cons s by (simp add: children_def children_of_def)
  have "\<forall>e \<in> set (flat H B). fst b \<le> fst e" using assms(2) unfolding rest by auto
  moreover have "Some key < fst b" using assms(3) Cons by (auto simp: located_def)
  ultimately show ?thesis by (blast intro: less_le_trans)
qed simp

lemma level_insert:
  assumes wf: "wf_level H n (A @ (lo, p) # B)" and loc: "located key lo B" and p: "H p = Some pg"
    and new: "right \<notin> snd ` set (flat H (A @ (lo, p) # B))"
    and pg': "entries pg' = ins_after key right (entries pg)" "page_ok pg'"
      "hdr pg' = (hdr pg)\<lparr>last_index := li\<rparr>"
  shows "wf_level (H(p \<mapsto> pg')) n (A @ (lo, p) # B)"
    and "flat (H(p \<mapsto> pg')) (A @ (lo, p) # B) = ins_after (Some key) right (flat H (A @ (lo, p) # B))"
    and "contents (H(p \<mapsto> pg')) (A @ (lo, p) # B) = ins_after key right (contents H (A @ (lo, p) # B))"
proof -
  let ?L = "A @ (lo, p) # B" and ?H = "H(p \<mapsto> pg')"
  have w: "page_at n lo pg" "p \<noteq> 0" "link_ok H p (first B None)" "pages_at H n B"
      "p \<notin> snd ` set A" "p \<notin> snd ` set B" "flat H ?L = flat H A @ children_of lo pg @ flat H B"
      "sorted (map fst (flat H A @ children_of lo pg @ flat H B))"
      "0 < n \<longrightarrow> distinct (map snd (flat H A @ children_of lo pg @ flat H B))"
    by (rule wf_level_page [OF wf]; use p in simp)+
  have agree: "x \<in> snd ` set A \<Longrightarrow> ?H x = H x" "x \<in> snd ` set B \<Longrightarrow> ?H x = H x" for x
    using w(5,6) by auto
  note cA = level_cong [of A ?H H, OF agree(1)] and cB = level_cong [of B ?H H, OF agree(2)]
  have above: "\<forall>e \<in> set (flat H B). Some key < fst e"
    using flat_above [OF w(4) _ loc] w(8) by (simp add: sorted_append)
  have "\<forall>e \<in> set (flat H A). fst e \<le> lo"
    using w(8) by (auto simp: sorted_append children_of_def)
  then have below: "\<forall>e \<in> set (flat H A). fst e \<le> Some key"
    using loc by (auto simp: located_def intro: order_trans)
  have ch: "children_of lo pg' = ins_after (Some key) right (children_of lo pg)"
    using loc pg' by (simp add: children_of_def ins_after_Cons ins_after_map_Some located_def)
  show fl: "flat ?H ?L = ins_after (Some key) right (flat H ?L)"
    unfolding w(7) ins_after_mid [OF below above] using cA cB ch by (simp add: children_Some)
  have bel: "\<forall>e \<in> set (contents H A). fst e \<le> key" and abv: "\<forall>e \<in> set (contents H B). key < fst e"
    using below above by (auto dest!: contents_in_flat)
  have "contents H ?L = contents H A @ entries pg @ contents H B"
    using p by (simp add: page_entries_def)
  then show "contents ?H ?L = ins_after key right (contents H ?L)"
    using ins_after_mid [OF bel abv] cA cB pg'(1) by (simp add: page_entries_def)
  have new': "right \<notin> snd ` set (entries pg)"
    using new unfolding w(7) by (force simp: children_of_def)
  have at: "page_at n lo pg'"
    using w(1) pg' new' loc
    by (cases "entries pg") (auto simp: page_at_def distinct_snd_ins_after ins_after_Cons located_def)
  have "link_ok ?H p (first B None)"
  proof (cases B)
    case (Cons b B')
    then have "Some key \<noteq> fst b" using loc by (auto simp: located_def)
    then show ?thesis using w(3) p pg' Cons by (simp add: link_ok_def filter_ins_after)
  qed (use w(3) p pg' in \<open>simp add: link_ok_def\<close>)
  then have lk: "linked ?H ?L None"
    using wf cA cB by (simp add: wf_level_def)
  have "sorted (map fst (ins_after (Some key) right (flat H ?L)))"
    by (rule sorted_keys_ins_after) (use wf in \<open>simp add: wf_level_def\<close>)
  moreover have "0 < n \<longrightarrow> distinct (map snd (ins_after (Some key) right (flat H ?L)))"
    using wf new unfolding distinct_snd_ins_after wf_level_def by blast
  moreover have "pages_at ?H n ?L" using wf at w(2) cA cB by (simp add: wf_level_def)
  ultimately show "wf_level ?H n ?L"
    using wf lk unfolding wf_level_def fl by blast
qed

section \<open>Splitting a page\<close>

lemma sorted_le_count:
  assumes "sorted (map fst (xs :: ('k::linorder \<times> 'v) list))" and "\<forall>e \<in> set xs. fst e \<le> B"
    and "i < length xs" and "length (filter (\<lambda>e. fst e = B) xs) < length xs - i"
  shows "fst (xs ! i) < B"
proof (rule ccontr)
  assume "\<not> ?thesis"
  then have eq: "fst (xs ! i) = B" using assms(2,3) by (meson le_less nth_mem)
  have "\<forall>e \<in> set (drop i xs). fst e = B"
  proof
    fix e assume "e \<in> set (drop i xs)"
    then obtain j where "j < length (drop i xs)" "e = drop i xs ! j"
      unfolding in_set_conv_nth by blast
    then have j: "i + j < length xs" "e = xs ! (i + j)" by simp_all
    then have "fst (xs ! i) \<le> fst e"
      using sorted_nth_mono [OF assms(1), of i "i + j"] by simp
    moreover have "fst e \<le> B" using j assms(2) by simp
    ultimately show "fst e = B" using eq by simp
  qed
  then have "filter (\<lambda>e. fst e = B) (drop i xs) = drop i xs" by simp
  then have "length (filter (\<lambda>e. fst e = B) (take i xs @ drop i xs)) \<ge> length xs - i"
    unfolding filter_append by simp
  with assms(4) show False by simp
qed

lemma level_split:
  assumes wf: "wf_level H n (A @ (lo, p) # B)" and p: "H p = Some pg" and full: "length (entries pg) = 5"
    and sp: "sp \<noteq> 0" "sp \<notin> dom H" and sk: "sk = fst (entries pg ! 2)"
    and pr: "page_ok pr" "entries pr = drop (if leftmost_ptr (hdr pg) = 0 then 2 else 3) (entries pg)"
      "leftmost_ptr (hdr pr) = (if leftmost_ptr (hdr pg) = 0 then 0 else snd (entries pg ! 2))"
      "sibling_ptr (hdr pr) = sibling_ptr (hdr pg)" "level (hdr pr) = level (hdr pg)" "\<not> is_deleted (hdr pr)"
    and H1: "H1 = H(p \<mapsto> lower_half sp 2 pg, sp \<mapsto> pr)" and L1: "L1 = A @ (lo, p) # (Some sk, sp) # B"
  shows "wf_level H1 n L1" and "0 < n \<Longrightarrow> flat H1 L1 = flat H (A @ (lo, p) # B)"
    and "n = 0 \<Longrightarrow> contents H1 L1 = contents H (A @ (lo, p) # B)"
    and "snd ` set (flat H1 L1) \<subseteq> snd ` set (flat H (A @ (lo, p) # B))"
    and "located sk lo B"
proof -
  let ?L = "A @ (lo, p) # B" and ?pl = "lower_half sp 2 pg"
  have w: "page_at n lo pg" "p \<noteq> 0" "link_ok H p (first B None)" "pages_at H n B"
      "p \<notin> snd ` set A" "p \<notin> snd ` set B" "flat H ?L = flat H A @ children_of lo pg @ flat H B"
      "sorted (map fst (flat H A @ children_of lo pg @ flat H B))"
      "0 < n \<longrightarrow> distinct (map snd (flat H A @ children_of lo pg @ flat H B))"
    by (rule wf_level_page [OF wf]; use p in simp)+
  have in_dom: "x \<in> snd ` set ?L \<Longrightarrow> x \<in> dom H" for x
    using wf by (auto simp: wf_level_def pages_at_def)
  then have spL: "sp \<notin> snd ` set ?L" using sp(2) by blast
  have agree: "x \<in> snd ` set A \<Longrightarrow> H1 x = H x" "x \<in> snd ` set B \<Longrightarrow> H1 x = H x" for x
    using w(5,6) spL unfolding H1 by auto
  note cA = level_cong [of A H1 H, OF agree(1)] and cB = level_cong [of B H1 H, OF agree(2)]
  obtain e0 e1 e2 e3 e4 where es: "entries pg = [e0, e1, e2, e3, e4]"
    using full by (auto simp: length_Suc_conv numeral_eq_Suc)
  have ok: "page_ok pg" and lm: "leftmost_ptr (hdr pg) = 0 \<longleftrightarrow> n = 0" using w(1) by (auto simp: page_at_def)
  have pl: "entries ?pl = [e0, e1]" "page_ok ?pl" "leftmost_ptr (hdr ?pl) = leftmost_ptr (hdr pg)"
    "level (hdr ?pl) = level (hdr pg)" "is_deleted (hdr ?pl) = is_deleted (hdr pg)" "sibling_ptr (hdr ?pl) = sp"
    using lower_half_ok [OF ok, of 2 sp] full es by (auto simp: lower_half_def)
  have er: "entries pr = (if n = 0 then [e2, e3, e4] else [e3, e4])"
    "leftmost_ptr (hdr pr) = (if n = 0 then 0 else snd e2)"
    using pr(2,3) es lm by auto
  have sk2: "sk = fst e2" using sk es by simp
  have H1p: "H1 p = Some ?pl" "H1 sp = Some pr" using spL unfolding H1 by auto
  have fl: "flat H1 L1 = flat H A @ (children_of lo ?pl @ children_of (Some sk) pr) @ flat H B"
    unfolding L1 using cA cB H1p by (simp add: children_Some)
  have ch: "children_of lo pg = (lo, leftmost_ptr (hdr pg)) # map (\<lambda>e. (Some (fst e), snd e)) [e0, e1, e2, e3, e4]"
    by (simp add: children_of_def es)
  have ch': "children_of lo ?pl @ children_of (Some sk) pr =
      (if n = 0 then (lo, 0) # map (\<lambda>e. (Some (fst e), snd e)) [e0, e1] @ (Some (fst e2), 0) # map (\<lambda>e. (Some (fst e), snd e)) [e2, e3, e4]
       else children_of lo pg)"
    using es lm by (simp add: children_of_def pl er sk2)
  have srt: "sorted (map fst (flat H1 L1))"
    unfolding fl ch' using w(8) unfolding ch by (auto simp: sorted_append)
  have dst: "0 < n \<longrightarrow> distinct (map snd (flat H1 L1))" unfolding fl ch' using w(9) by simp
  show f: "flat H1 L1 = flat H ?L" if "0 < n" unfolding fl ch' w(7) using that by simp
  show "contents H1 L1 = contents H ?L" if "n = 0"
    unfolding L1 using that cA cB H1p p es er pl by (simp add: page_entries_def)
  show "snd ` set (flat H1 L1) \<subseteq> snd ` set (flat H ?L)"
    unfolding fl ch' w(7) using lm unfolding ch by auto
  show loc: "located sk lo B"
  proof (cases B)
    case Nil
    then show ?thesis using w(8) unfolding ch sk2 by (simp add: located_def sorted_append)
  next
    case (Cons b B')
    obtain s where s: "H (snd b) = Some s" using w(4) Cons by auto
    obtain rest where rest: "flat H B = (fst b, leftmost_ptr (hdr s)) # rest"
      using Cons s by (simp add: children_def children_of_def)
    let ?xs = "map (\<lambda>e. (Some (fst e), snd e)) [e0, e1, e2, e3, e4]"
    have le: "\<forall>e \<in> set ?xs. fst e \<le> fst b" "sorted (map fst ?xs)" "lo \<le> Some (fst e2)"
      using w(8) unfolding ch rest by (auto simp: sorted_append)
    have "length (filter (\<lambda>r. Some (fst r) = fst b) (entries pg)) \<le> 2"
      using w(3) p Cons by (simp add: link_ok_def)
    then have "length (filter (\<lambda>e. fst e = fst b) ?xs) \<le> 2"
      unfolding es filter_map length_map comp_def by simp
    then have "fst (?xs ! 2) < fst b"
      by (intro sorted_le_count [OF le(2,1)]) simp_all
    then have "Some sk < fst b" by (simp add: sk2)
    moreover have "fst b \<le> fst e" if "e \<in> set B" for e
    proof -
      have "fst e \<in> fst ` set (flat H B)" using bound_in_flat [OF w(4) that] .
      moreover have "\<forall>x \<in> fst ` set (flat H B). fst b \<le> x"
        using w(8) unfolding rest by (auto simp: sorted_append)
      ultimately show ?thesis by blast
    qed
    ultimately show ?thesis using le(3) unfolding located_def sk2 by (auto intro: less_le_trans)
  qed
  have atl: "page_at n lo ?pl"
    using w(1) es pl by (auto simp: page_at_def)
  have "snd e2 \<noteq> 0" using entries_nonnull [of e2 pg] es by simp
  then have atr: "page_at n (Some sk) pr"
    using w(1) es pr(1,5,6) er by (auto simp: page_at_def sk2)
  have "length (filter P (entries pr)) \<le> length (filter P (entries pg))" for P
    using er es by auto
  then have shorter: "length (filter P (entries pg)) \<le> 2 \<Longrightarrow> length (filter P (entries pr)) \<le> 2" for P
    using order_trans by blast
  have ne: "entries pr \<noteq> []" using er by simp
  have lkr: "link_ok H1 sp (first B None)"
    using w(3) p H1p pr(4) ne shorter unfolding link_ok_def by (cases "first B None") auto
  have lkl: "link_ok H1 p (Some (Some sk, sp))"
    using H1p(1) pl by (simp add: link_ok_def)
  have "linked H A (Some (lo, p))" "linked H B None" using wf by (simp_all add: wf_level_def)
  then have lk: "linked H1 L1 None" using cA cB lkl lkr by (simp add: L1)
  have "A \<noteq> [] \<Longrightarrow> hd L1 = hd ?L" "A = [] \<Longrightarrow> fst (hd L1) = lo" by (auto simp: L1)
  moreover have "A = [] \<Longrightarrow> lo = None" "A \<noteq> [] \<Longrightarrow> fst (hd ?L) = None" using wf by (auto simp: wf_level_def)
  ultimately have "fst (hd L1) = None" by (cases A) auto
  moreover have "distinct (map snd L1)" using wf spL by (auto simp: L1 wf_level_def)
  moreover have "pages_at H1 n L1"
    using wf cA cB atl atr H1p sp(1) w(2) by (auto simp: L1 wf_level_def)
  moreover have "L1 \<noteq> []" by (simp add: L1)
  ultimately show "wf_level H1 n L1"
    unfolding wf_level_def using lk srt dst by blast
qed

end
