(* ===== verification/KV_Descend.thy ===== *)
theory KV_Descend
  imports KV_Levels
begin

text \<open>
  The descents of the tree find the page of a key: by induction over the levels, each step of
  \<open>linear_search\<close> in an internal page returns the child that the key belongs to, and never the
  right sibling, whose first key is above the key.
\<close>

section \<open>The sibling test\<close>

lemma sibling_above:
  assumes lk: "link_ok H p (first B None)" and at: "pages_at H n B" and srt: "sorted (map fst (flat H B))"
    and loc: "located key lo B" and pg: "H p = Some pg" and sib: "sibling_ptr (hdr pg) \<noteq> 0"
  obtains s e where "H (sibling_ptr (hdr pg)) = Some s" "rd (records s) 0 = Some e" "key < fst e"
proof (cases B)
  case Nil
  with lk pg sib show ?thesis by (simp add: link_ok_def)
next
  case (Cons b B')
  obtain l where l: "fst b = Some l" "key < l"
    using loc Cons by (cases "fst b") (auto simp: located_def)
  obtain s where s: "H (snd b) = Some s" "page_at n (Some l) s"
    using at Cons l by auto
  have "sorted (map fst (children_of (Some l) s))"
    using srt Cons s l by (simp add: children_def sorted_append)
  then have "l \<le> fst (records s ! 0)" using s(2) by (intro first_key_beyond)
  moreover have "rd (records s) 0 = Some (records s ! 0)"
    using s(2) by (simp add: page_at_def page_ok_def access_simps)
  moreover have "sibling_ptr (hdr pg) = snd b" using lk pg Cons by (simp add: link_ok_def)
  ultimately show ?thesis using that s l by auto
qed

section \<open>One step down\<close>

lemma located_children:
  assumes srt: "sorted (map fst (children_of lo pg @ flat H B))" and loc: "located key lo B"
    and at: "pages_at H n B"
  obtains A' lo' B' where
    "children_of lo pg @ flat H B = A' @ (lo', child_for (leftmost_ptr (hdr pg)) (entries pg) key) # B'"
    "located key lo' B'"
proof -
  define c where "c = (\<lambda>e :: 'a \<times> ptr. (Some (fst e), snd e))"
  define xs where "xs = entries pg"
  define lm where "lm = leftmost_ptr (hdr pg)"
  define ys where "ys = takeWhile (\<lambda>e. fst e \<le> key) xs"
  define zs where "zs = dropWhile (\<lambda>e. fst e \<le> key) xs"
  have above: "\<forall>e \<in> set (flat H B). Some key < fst e"
  proof (cases B)
    case (Cons b B')
    obtain s where s: "H (snd b) = Some s" using at Cons by auto
    obtain rest where rest: "flat H B = (fst b, leftmost_ptr (hdr s)) # rest"
      using Cons s by (simp add: children_def children_of_def)
    have "sorted (map fst (flat H B))" using srt by (auto simp: sorted_append)
    then have "\<forall>e \<in> set (flat H B). fst b \<le> fst e" unfolding rest by auto
    moreover have "Some key < fst b" using loc Cons by (auto simp: located_def)
    ultimately show ?thesis by (blast intro: less_le_trans)
  qed simp
  have xy: "xs = ys @ zs" by (simp add: ys_def zs_def)
  have zs: "\<forall>e \<in> set zs. key < fst e"
  proof (cases zs)
    case (Cons z zs')
    have "key < fst z" using Cons unfolding zs_def by (metis hd_dropWhile leI list.distinct(1) list.sel(1))
    moreover have "sorted (map fst zs)" using srt xy
      by (auto simp: children_of_def sorted_append xs_def [symmetric] comp_def sorted_map sorted_wrt_map)
    ultimately show ?thesis using Cons by auto
  qed simp
  have ch: "children_of lo pg = (lo, lm) # map c ys @ map c zs"
    by (simp add: children_of_def c_def xy [symmetric] xs_def lm_def flip: map_append)
  show ?thesis
  proof (cases ys rule: rev_cases)
    case Nil
    have "located key lo (map c zs @ flat H B)"
      using loc zs above by (auto simp: located_def c_def)
    then show ?thesis
      using that [of "[]" lo "map c zs @ flat H B"] ch Nil
      by (simp add: child_for_def ys_def [symmetric] xs_def [symmetric] lm_def)
  next
    case (snoc ys' y)
    have "fst y \<le> key" using snoc unfolding ys_def by (metis in_set_conv_decomp set_takeWhileD)
    then have "located key (Some (fst y)) (map c zs @ flat H B)"
      using zs above by (auto simp: located_def c_def)
    then show ?thesis
      using that [of "(lo, lm) # map c ys'" "Some (fst y)" "map c zs @ flat H B"] ch snoc
      by (simp add: child_for_def ys_def [symmetric] xs_def [symmetric] lm_def c_def)
  qed
qed

lemma descend_step:
  assumes wf: "wf_level H (Suc n) (A @ (lo, p) # B)" and loc: "located key lo B"
  obtains pg q A' lo' B' where "H p = Some pg" "linear_search H pg key = Some q" "q \<noteq> 0"
    "unat (level (hdr pg)) = Suc n" "leftmost_ptr (hdr pg) \<noteq> 0"
    "flat H (A @ (lo, p) # B) = A' @ (lo', q) # B'" "located key lo' B'"
proof -
  obtain pg where pg: "H p = Some pg" "page_at (Suc n) lo pg" "link_ok H p (first B None)"
      "pages_at H (Suc n) B"
    and fl: "flat H (A @ (lo, p) # B) = flat H A @ children_of lo pg @ flat H B"
    and srt: "sorted (map fst (flat H A @ children_of lo pg @ flat H B))"
    and dst: "distinct (map snd (flat H A @ children_of lo pg @ flat H B))"
    by (rule wf_level_page [OF wf]) auto
  let ?lm = "leftmost_ptr (hdr pg)"
  let ?q = "child_for ?lm (entries pg) key"
  have srt2: "sorted (map fst (children_of lo pg @ flat H B))" "sorted (map fst (flat H B))"
    using srt by (auto simp: sorted_append)
  obtain A' lo' B' where q: "children_of lo pg @ flat H B = A' @ (lo', ?q) # B'" "located key lo' B'"
    using located_children [OF srt2(1) loc pg(4)] .
  have at: "page_ok pg" "?lm \<noteq> 0" "entries pg \<noteq> []" "unat (level (hdr pg)) = Suc n"
    using pg(2) by (auto simp: page_at_def)
  have "map snd (children_of lo pg) = ?lm # map snd (entries pg)" by (simp add: children_of_def)
  then have d: "distinct (?lm # map snd (entries pg))" using dst by auto
  have "last (?lm # map snd (takeWhile (\<lambda>e. fst e \<le> key) (entries pg)))
      \<in> set (?lm # map snd (takeWhile (\<lambda>e. fst e \<le> key) (entries pg)))"
    by (rule last_in_set) simp
  then have q0: "?q \<noteq> 0"
    using at(2) entries_nonnull [of _ pg] by (auto simp: child_for_def dest: set_takeWhileD split: if_splits)
  have nb: "sibling_ptr (hdr pg) \<noteq> 0 \<Longrightarrow>
      \<exists>s e. H (sibling_ptr (hdr pg)) = Some s \<and> rd (records s) 0 = Some e \<and> key < fst e"
    using sibling_above [OF pg(3,4) srt2(2) loc pg(1)] by blast
  have f: "IS_FORWARD (switch_counter (hdr pg))" using at(1) by (simp add: page_ok_def)
  have ls: "linear_search H pg key = Some ?q"
    using nb f at q0 int_search_fwd_ok [OF at(1) d at(3), of key]
    by (cases "sibling_ptr (hdr pg) = 0") (auto simp: linear_search_def Let_def)
  show ?thesis
    by (rule that [OF pg(1) ls q0 at(4,2) _ q(2), of "flat H A @ A'"]) (simp only: fl q append_assoc)
qed

section \<open>The descents\<close>

lemma descend_leaf_ok:
  assumes "chain H 0 d (A @ (lo, p) # B)" and "located key lo B"
  obtains q A' lo' B' where "descend_leaf H key p = Some q"
    "down H d (A @ (lo, p) # B) = A' @ (lo', q) # B'" "located key lo' B'"
  using assms
proof (induction d arbitrary: A lo p B thesis)
  case 0
  obtain pg where "H p = Some pg" "page_at 0 lo pg"
    by (rule wf_level_page [of H 0 A lo p B]) (use 0 in auto)
  then have "descend_leaf H key p = Some p"
    by (subst descend_leaf.simps) (simp add: page_at_def)
  with 0 show ?case by simp
next
  case (Suc d)
  have wf: "wf_level H (Suc d) (A @ (lo, p) # B)" and ch: "chain H 0 d (flat H (A @ (lo, p) # B))"
    using Suc.prems by auto
  obtain pg q A' lo' B' where s: "H p = Some pg" "linear_search H pg key = Some q"
      "leftmost_ptr (hdr pg) \<noteq> 0"
      "flat H (A @ (lo, p) # B) = A' @ (lo', q) # B'" "located key lo' B'"
    by (rule descend_step [OF wf Suc.prems(3)])
  obtain q' A'' lo'' B'' where r: "descend_leaf H key q = Some q'"
      "down H d (A' @ (lo', q) # B') = A'' @ (lo'', q') # B''" "located key lo'' B''"
    by (rule Suc.IH [where A = A' and lo = lo' and p = q and B = B']) (use ch s in auto)
  have "descend_leaf H key p = Some q'"
    using s r by (subst descend_leaf.simps) simp
  then show ?case using Suc.prems(1) r s(4) by (metis down_Suc)
qed

lemma descend_level_ok:
  assumes "chain H n d (A @ (lo, p) # B)" and "located key lo B" and "unat lv = n"
  obtains q A' lo' B' where "descend_level H key lv p = Some q"
    "down H d (A @ (lo, p) # B) = A' @ (lo', q) # B'" "located key lo' B'"
  using assms(1,2)
proof (induction d arbitrary: A lo p B thesis)
  case 0
  obtain pg where "H p = Some pg" "page_at n lo pg"
    by (rule wf_level_page [of H n A lo p B]) (use 0 in auto)
  then have "descend_level H key lv p = Some p"
    using assms(3) by (subst descend_level.simps) (simp add: page_at_def word_less_nat_alt)
  with 0 show ?case by simp
next
  case (Suc d)
  have wf: "wf_level H (Suc (n + d)) (A @ (lo, p) # B)" and ch: "chain H n d (flat H (A @ (lo, p) # B))"
    using Suc.prems by auto
  obtain pg q A' lo' B' where s: "H p = Some pg" "linear_search H pg key = Some q"
      "unat (level (hdr pg)) = Suc (n + d)"
      "flat H (A @ (lo, p) # B) = A' @ (lo', q) # B'" "located key lo' B'"
    by (rule descend_step [OF wf Suc.prems(3)])
  obtain q' A'' lo'' B'' where r: "descend_level H key lv q = Some q'"
      "down H d (A' @ (lo', q) # B') = A'' @ (lo'', q') # B''" "located key lo'' B''"
    by (rule Suc.IH [where A = A' and lo = lo' and p = q and B = B']) (use ch s in auto)
  have "descend_level H key lv p = Some q'"
    using s r assms(3) by (subst descend_level.simps) (simp add: word_less_nat_alt)
  then show ?case using Suc.prems(1) r s(4) by (metis down_Suc)
qed

end
