(* ===== verification/KV_Insert.thy ===== *)
theory KV_Insert
  imports KV_Levelins KV_Descend
begin

text \<open>
  The inserts of the tree keep its levels and add exactly one record: by induction on the number
  of levels above the one that is written, through the mutual calls of \<open>store\<close> and
  \<open>btree_insert_internal\<close>.
\<close>

section \<open>One page of a level\<close>

text \<open>The effect of an insert on what a level holds: records of leaves, children of the rest.\<close>

definition inserted :: "nat \<Rightarrow> ('k::linorder) \<Rightarrow> ptr \<Rightarrow> (ptr \<Rightarrow> 'k page option) \<Rightarrow> ('k option \<times> ptr) list
    \<Rightarrow> (ptr \<Rightarrow> 'k page option) \<Rightarrow> ('k option \<times> ptr) list \<Rightarrow> bool" where
  "inserted n key right H L H' L' \<longleftrightarrow>
     (if n = 0 then contents H' L' = ins_after key right (contents H L)
      else flat H' L' = ins_after (Some key) right (flat H L))"

lemma inserted_cong:
  assumes "\<And>p. p \<in> snd ` set L' \<Longrightarrow> H'' p = H' p"
  shows "inserted n key right H L H'' L' = inserted n key right H L H' L'"
  unfolding inserted_def using level_cong [of L' H'' H', OF assms] by simp

lemma store_page_level:
  assumes wf: "wf_level (heap b) n (A @ (lo, p) # B)" and loc: "located key lo B"
    and pg: "heap b p = Some pg" and r: "right \<noteq> 0" "right \<notin> snd ` set (flat (heap b) (A @ (lo, p) # B))"
    and sp: "mal (allocs b) = sp" "sp \<noteq> 0" "sp \<notin> dom (heap b)" and tid: "tid < length (page_count b)"
  obtains
    (room) H1 where "store_page mal tid p key right b = Some ((p, None), b\<lparr>heap := H1\<rparr>)"
      "wf_level H1 n (A @ (lo, p) # B)" "inserted n key right (heap b) (A @ (lo, p) # B) H1 (A @ (lo, p) # B)"
      "\<And>q. q \<noteq> p \<Longrightarrow> H1 q = heap b q" "dom H1 = dom (heap b)"
  | (split) H1 sk t where "t \<noteq> 0" "located sk lo B"
      "wf_level H1 n (A @ (lo, p) # (Some sk, sp) # B)"
      "inserted n key right (heap b) (A @ (lo, p) # B) H1 (A @ (lo, p) # (Some sk, sp) # B)"
      "\<And>q. q \<noteq> p \<Longrightarrow> q \<noteq> sp \<Longrightarrow> H1 q = heap b q" "dom H1 = insert sp (dom (heap b))"
      "store_page mal tid p key right b =
         (let b2 = (next_count tid b)\<lparr>heap := H1\<rparr>
          in if root b = p
             then do { (nr, b3) \<leftarrow> getNewPage_root mal tid p sk sp (level (hdr pg) + 1) b2;
                       Some ((t, None), setNewRoot nr b3) }
             else Some ((t, Some (sk, sp, level (hdr pg) + 1)), b2))"
proof -
  let ?L = "A @ (lo, p) # B" and ?H = "heap b"
  have w: "page_at n lo pg" "p \<noteq> 0" by (rule wf_level_page [OF wf]; use pg in simp)+
  have ok: "page_ok pg" and lm: "leftmost_ptr (hdr pg) = 0 \<longleftrightarrow> n = 0" using w(1) by (auto simp: page_at_def)
  have spp: "sp \<noteq> p" using sp(3) pg by auto
  show thesis
  proof (cases "length (entries pg) < 5")
    case True
    obtain pg' where st: "store_page mal tid p key right b = Some ((p, None), b\<lparr>heap := ?H(p \<mapsto> pg')\<rparr>)"
      and e: "entries pg' = ins_after key right (entries pg)" "page_ok pg'"
        "hdr pg' = (hdr pg)\<lparr>last_index := int (length (entries pg))\<rparr>"
      using store_page_room [of b, OF pg ok True r(1)] .
    note li = level_insert [OF wf loc pg r(2) e]
    show thesis
      by (rule room [OF st li(1)]) (use li pg in \<open>auto simp: inserted_def\<close>)
  next
    case False
    then have full: "length (entries pg) = 5" using ok by (simp add: page_ok_def)
    define sk where "sk = fst (entries pg ! 2)"
    define t where "t = (if key < sk then p else sp)"
    obtain pr tp tp' where pr:
        "page_ok pr" "entries pr = drop (if leftmost_ptr (hdr pg) = 0 then 2 else 3) (entries pg)"
        "leftmost_ptr (hdr pr) = (if leftmost_ptr (hdr pg) = 0 then 0 else snd (entries pg ! 2))"
        "sibling_ptr (hdr pr) = sibling_ptr (hdr pg)" "level (hdr pr) = level (hdr pg)" "\<not> is_deleted (hdr pr)"
      and tp: "tp = (if key < sk then lower_half sp 2 pg else pr)"
      and tp': "entries tp' = ins_after key right (entries tp)" "page_ok tp'"
        "hdr tp' = (hdr tp)\<lparr>last_index := int (length (entries tp))\<rparr>"
      and st: "store_page mal tid p key right b =
         (let b2 = (next_count tid b)\<lparr>heap := ?H(p \<mapsto> lower_half sp 2 pg, sp \<mapsto> pr, t \<mapsto> tp')\<rparr>
          in if root b = p
             then do { (nr, b3) \<leftarrow> getNewPage_root mal tid p sk sp (level (hdr pg) + 1) b2;
                       Some ((t, None), setNewRoot nr b3) }
             else Some ((t, Some (sk, sp, level (hdr pg) + 1)), b2))"
      using store_page_full [where b = b and mal = mal, OF pg ok full r(1) sp(1,2) spp tid sk_def t_def] .
    define H0 where "H0 = ?H(p \<mapsto> lower_half sp 2 pg, sp \<mapsto> pr)"
    define L1 where "L1 = A @ (lo, p) # (Some sk, sp) # B"
    note ls = level_split [OF wf pg full sp(2,3) sk_def pr H0_def L1_def]
    have new: "right \<notin> snd ` set (flat H0 L1)" using ls(4) r(2) by blast
    have "H0 t = Some tp" using spp by (simp add: H0_def t_def tp)
    have li: "wf_level (H0(t \<mapsto> tp')) n L1 \<and> flat (H0(t \<mapsto> tp')) L1 = ins_after (Some key) right (flat H0 L1) \<and>
        contents (H0(t \<mapsto> tp')) L1 = ins_after key right (contents H0 L1)"
    proof (cases "key < sk")
      case True
      then have eq: "L1 = A @ (lo, t) # (Some sk, sp) # B" "located key lo ((Some sk, sp) # B)"
        using loc by (auto simp: L1_def t_def located_def)
      show ?thesis
        using level_insert [where H = H0 and A = A, OF _ eq(2) \<open>H0 t = Some tp\<close> _ tp'] ls(1) new unfolding eq(1) by blast
    next
      case False
      then have eq: "L1 = (A @ [(lo, p)]) @ (Some sk, t) # B" "located key (Some sk) B"
        using loc by (auto simp: L1_def t_def located_def)
      show ?thesis
        using level_insert [where H = H0 and A = "A @ [(lo, p)]", OF _ eq(2) \<open>H0 t = Some tp\<close> _ tp'] ls(1) new
        unfolding eq(1) by blast
    qed
    show thesis
    proof (rule split [of t sk "H0(t \<mapsto> tp')"])
      show "t \<noteq> 0" using sp(2) w(2) by (simp add: t_def)
      show "inserted n key right ?H ?L (H0(t \<mapsto> tp')) (A @ (lo, p) # (Some sk, sp) # B)"
        using li ls(2,3) by (auto simp: inserted_def L1_def)
      show "(H0(t \<mapsto> tp')) q = heap b q" if "q \<noteq> p" "q \<noteq> sp" for q
        using that by (simp add: H0_def t_def)
      show "dom (H0(t \<mapsto> tp')) = insert sp (dom ?H)" using pg by (auto simp: H0_def t_def)
    qed (use li ls(5) st in \<open>simp_all add: L1_def H0_def\<close>)
  qed
qed

section \<open>Frames\<close>

lemma chain_levels:
  assumes "chain H n d L" and "e \<in> set L"
  shows "\<exists>pg. H (snd e) = Some pg \<and> unat (level (hdr pg)) = n + d"
  using chain_top [OF assms(1)] assms(2) by (auto simp: wf_level_def pages_at_def page_at_def)

lemma chain_frame:
  assumes "chain H n d L" and "\<And>q pg. H q = Some pg \<Longrightarrow> n \<le> unat (level (hdr pg)) \<Longrightarrow> H' q = Some pg"
  shows "chain H' n d L \<and> down H' d L = down H d L \<and> flat H' (down H d L) = flat H (down H d L)"
  using assms(1)
proof (induction d arbitrary: L)
  case 0
  then have "H' p = H p" if "p \<in> snd ` set L" for p
    using that chain_levels [OF 0] assms(2) by fastforce
  with 0 show ?case using wf_level_cong [of L H' H] flat_cong [of L H' H] by simp
next
  case (Suc d)
  then have eq: "H' p = H p" if "p \<in> snd ` set L" for p
    using that chain_levels [OF Suc.prems] assms(2) by fastforce
  have "chain H n d (flat H L)" using Suc.prems by simp
  from Suc.IH [OF this] have "chain H' n d (flat H L)" "down H' d (flat H L) = down H d (flat H L)"
    "flat H' (down H d (flat H L)) = flat H (down H d (flat H L))" by auto
  then show ?case
    using Suc.prems wf_level_cong [of L H' H, OF eq] flat_cong [of L H' H, OF eq]
    by (simp add: down_Suc del: funpow.simps)
qed

section \<open>The induction over the levels\<close>

text \<open>The next addresses of the supply are usable: not null, not in use, and different.\<close>

definition supply_ok :: "(nat \<Rightarrow> ptr) \<Rightarrow> nat \<Rightarrow> 'k btree \<Rightarrow> bool" where
  "supply_ok mal k b \<longleftrightarrow>
     (\<forall>i \<in> {allocs b..<allocs b + k}. mal i \<noteq> 0 \<and> mal i \<notin> dom (heap b)) \<and>
     inj_on mal {allocs b..<allocs b + k}"

lemma supply_next:
  assumes "supply_ok mal (Suc k) b" and "allocs b' = Suc (allocs b)" "dom (heap b') = insert (mal (allocs b)) (dom (heap b))"
  shows "mal (allocs b) \<noteq> 0" "mal (allocs b) \<notin> dom (heap b)" "supply_ok mal k b'"
proof -
  have r: "{allocs b..<allocs b + Suc k} = insert (allocs b) {allocs b'..<allocs b' + k}"
    using assms(2) by auto
  show "mal (allocs b) \<noteq> 0" "mal (allocs b) \<notin> dom (heap b)" "supply_ok mal k b'"
    using assms unfolding supply_ok_def r by (auto simp: image_iff)
qed

text \<open>One insertion at level \<open>n\<close> of a tree with \<open>d\<close> levels above it.\<close>

definition root_level :: "'k btree \<Rightarrow> ('k option \<times> ptr) list" where
  "root_level b = [(None, root b)]"

definition step_ok :: "(nat \<Rightarrow> ptr) \<Rightarrow> nat \<Rightarrow> nat \<Rightarrow> ('k::linorder) \<Rightarrow> ptr \<Rightarrow> 'k btree \<Rightarrow> 'k btree \<Rightarrow> nat \<Rightarrow> bool" where
  "step_ok mal n d key right b b' d' \<longleftrightarrow>
     (d' = d \<and> height b' = height b \<or> d' = Suc d \<and> height b' = height b + 1) \<and>
     chain (heap b') n d' (root_level b') \<and>
     inserted n key right (heap b) (down (heap b) d (root_level b)) (heap b') (down (heap b') d' (root_level b')) \<and>
     (\<forall>q pg. heap b q = Some pg \<and> unat (level (hdr pg)) < n \<longrightarrow> heap b' q = Some pg) \<and>
     num_kv b' = num_kv b \<and> length (page_count b') = length (page_count b) \<and>
     allocs b \<le> allocs b' \<and> allocs b' \<le> allocs b + (d + 2) \<and>
     dom (heap b') = dom (heap b) \<union> mal ` {allocs b..<allocs b'}"

lemma store_enter:
  assumes wf: "wf_level (heap b) n (A @ (lo, p) # B)" and loc: "located key lo B"
    and pg: "heap b p = Some pg"
  shows "store mal (Suc f) tid p key right 0 b =
     do { ((ret, up), b1) \<leftarrow> store_page mal tid p key right b;
          (case up of
             None \<Rightarrow> Some (ret, b1)
           | Some (k, s, lv) \<Rightarrow> do { b2 \<leftarrow> btree_insert_internal mal f tid k s lv b1; Some (ret, b2) }) }"
proof -
  have w: "page_at n lo pg" "link_ok (heap b) p (first B None)" "pages_at (heap b) n B"
    by (rule wf_level_page [OF wf]; use pg in simp)+
  have "sorted (map fst (flat (heap b) B))"
    by (rule wf_level_page [OF wf]) (simp add: sorted_append)
  then have nb: "sibling_ptr (hdr pg) \<noteq> 0 \<Longrightarrow>
      \<exists>s e. heap b (sibling_ptr (hdr pg)) = Some s \<and> rd (records s) 0 = Some e \<and> key < fst e"
    using sibling_above [OF w(2,3) _ loc pg] by blast
  have nd: "\<not> is_deleted (hdr pg)" using w(1) by (simp add: page_at_def)
  show ?thesis
    using nb pg nd by (cases "sibling_ptr (hdr pg) = 0") (auto simp: Let_def split: option.splits)
qed

text \<open>The last page of the root level is split: a new root above the two halves.\<close>

lemma new_root_level:
  assumes wf: "wf_level H n [(None, p), (Some sk, sp)]" and nr: "nr \<noteq> 0" "nr \<notin> dom H" and lv: "unat lv = Suc n"
  shows "chain (H(nr \<mapsto> new_root_page p sk sp lv)) n 1 [(None, nr)]"
    and "flat (H(nr \<mapsto> new_root_page p sk sp lv)) [(None, nr)] = [(None, p), (Some sk, sp)]"
proof -
  let ?H = "H(nr \<mapsto> new_root_page p sk sp lv)"
  have p: "p \<noteq> 0" "sp \<noteq> 0" "p \<noteq> sp" using wf by (auto simp: wf_level_def)
  have "p \<in> dom H" "sp \<in> dom H" using wf by (auto simp: wf_level_def)
  then have "?H x = H x" if "x \<in> snd ` set [(None, p), (Some sk, sp)]" for x
    using nr(2) that by (auto simp del: domIff)
  then have w: "wf_level ?H n [(None, p), (Some sk, sp)]" using wf wf_level_cong by blast
  show f: "flat ?H [(None, nr)] = [(None, p), (Some sk, sp)]"
    using p by (simp add: children_def children_of_def)
  have "page_at (Suc n) None (new_root_page p sk sp lv)"
    using p lv by (simp add: page_at_def new_root_page_ok)
  then have "wf_level ?H (Suc n) [(None, nr)]"
    unfolding wf_level_def f using nr(1) p by (simp add: link_ok_def)
  then show "chain ?H n 1 [(None, nr)]" using w f by simp
qed

end
