(* ===== verification/KV_InsertOk.thy ===== *)
theory KV_InsertOk
  imports KV_Insert
begin

text \<open>
  \<open>store\<close> and \<open>btree_insert_internal\<close> return, keep every level of the tree and add one record:
  the induction over the levels above the one that is written. A page that is not full ends it,
  a split of the root page ends it with a new root, and any other split goes one level up.
\<close>

lemma chain_extend:
  assumes "chain H (Suc n) e L" "flat H (down H e L) = Ln" "wf_level H n Ln"
  shows "chain H n (Suc e) L \<and> down H (Suc e) L = Ln"
  using assms chain_split [of H n 1 e L] chain_bottom [OF assms(1)] by simp

lemma chain_shrink:
  assumes "chain H n (Suc e) L"
  shows "chain H (Suc n) e L" "flat H (down H e L) = down H (Suc e) L"
  using assms chain_split [of H n 1 e L] by auto

text \<open>Rewriting pages of level \<open>n\<close> only: what is above stays as it is.\<close>

lemma chain_replace:
  assumes ch: "chain H n d L" and ag: "\<And>q pg. H q = Some pg \<Longrightarrow> n < unat (level (hdr pg)) \<Longrightarrow> H1 q = Some pg"
    and wf: "wf_level H1 n (down H d L)"
  shows "chain H1 n d L \<and> down H1 d L = down H d L"
proof (cases d)
  case (Suc e)
  have up: "chain H (Suc n) e L" "flat H (down H e L) = down H d L"
    using chain_shrink ch Suc by auto
  have "chain H1 (Suc n) e L" "flat H1 (down H1 e L) = down H d L"
    using chain_frame [OF up(1), of H1] ag up(2) by (auto simp: less_eq_Suc_le [symmetric])
  then show ?thesis using chain_extend wf Suc by blast
qed (use ch wf in simp)

definition step_pre :: "(nat \<Rightarrow> ptr) \<Rightarrow> nat \<Rightarrow> nat \<Rightarrow> nat \<Rightarrow> ptr \<Rightarrow> ('k::linorder) btree \<Rightarrow> bool" where
  "step_pre mal tid n d right b \<longleftrightarrow>
     chain (heap b) n d (root_level b) \<and> right \<noteq> 0 \<and>
     right \<notin> snd ` set (flat (heap b) (down (heap b) d (root_level b))) \<and>
     supply_ok mal (d + 2) b \<and> tid < length (page_count b) \<and> n + d + 2 \<le> 2 ^ 32"

lemma internal_ok:
  assumes store: "\<And>A lo p B. down (heap b) d (root_level b) = A @ (lo, p) # B \<Longrightarrow> located key lo B \<Longrightarrow>
      \<exists>ret b' d'. store mal f tid p key right 0 b = Some (ret, b') \<and> ret \<noteq> 0 \<and> step_ok mal n d key right b b' d'"
    and ch: "chain (heap b) n d (root_level b)" and lv: "unat lv = n"
  shows "\<exists>b' d'. btree_insert_internal mal (Suc f) tid key right lv b = Some b' \<and> step_ok mal n d key right b b' d'"
proof -
  obtain r where r: "heap b (root b) = Some r" "unat (level (hdr r)) = n + d"
    using chain_levels [OF ch, of "(None, root b)"] by (auto simp: root_level_def)
  have "located key None []" by (simp add: located_def)
  obtain q A lo B where q: "descend_level (heap b) key lv (root b) = Some q"
      "down (heap b) d (root_level b) = A @ (lo, q) # B" "located key lo B"
    by (rule descend_level_ok [of "heap b" n d "[]" None "root b" "[]" key lv])
       (use ch lv \<open>located key None []\<close> in \<open>auto simp: root_level_def\<close>)
  obtain ret b' d' where s: "store mal f tid q key right 0 b = Some (ret, b')" "ret \<noteq> 0"
      "step_ok mal n d key right b b' d'"
    using store [OF q(2,3)] by blast
  have "\<not> level (hdr r) < lv" using r(2) lv by (simp add: word_less_nat_alt)
  then have "btree_insert_internal mal (Suc f) tid key right lv b = Some b'"
    using r(1) q(1) s(1,2) by simp
  with s(3) show ?thesis by blast
qed

lemma step_room:
  assumes ch: "chain (heap b) n d (root_level b)" and dn: "down (heap b) d (root_level b) = A @ (lo, p) # B"
    and wf: "wf_level H1 n (A @ (lo, p) # B)"
    and ins: "inserted n key right (heap b) (A @ (lo, p) # B) H1 (A @ (lo, p) # B)"
    and fr: "\<And>q. q \<noteq> p \<Longrightarrow> H1 q = heap b q" and dm: "dom H1 = dom (heap b)"
    and p: "heap b p = Some pg" "unat (level (hdr pg)) = n"
  shows "step_ok mal n d key right b (b\<lparr>heap := H1\<rparr>) d"
proof -
  have ag: "H1 q = Some pg'" if "heap b q = Some pg'" "n \<noteq> unat (level (hdr pg'))" for q pg'
    using that fr [of q] p by (cases "q = p") auto
  have "chain H1 n d (root_level b) \<and> down H1 d (root_level b) = down (heap b) d (root_level b)"
    by (rule chain_replace [OF ch]) (use ag wf dn in auto)
  then show ?thesis
    using ins dn ag dm by (auto simp: step_ok_def root_level_def)
qed

lemma step_root:
  assumes top: "root_level b = [(None, p)]" and wf: "wf_level H1 n [(None, p), (Some sk, sp)]"
    and ins: "inserted n key right (heap b) [(None, p)] H1 [(None, p), (Some sk, sp)]"
    and fr: "\<And>q. q \<noteq> p \<Longrightarrow> q \<noteq> sp \<Longrightarrow> H1 q = heap b q" and dm: "dom H1 = insert sp (dom (heap b))"
    and p: "heap b p = Some pg" "unat (level (hdr pg)) = n" and lv: "unat lv = Suc n"
    and sp: "mal (allocs b) = sp" "sp \<notin> dom (heap b)" and tid: "tid < length (page_count b)"
    and sup: "supply_ok mal 1 ((next_count tid b)\<lparr>heap := H1\<rparr>)"
  shows "\<exists>b'. do { (nr, b3) \<leftarrow> getNewPage_root mal tid p sk sp lv ((next_count tid b)\<lparr>heap := H1\<rparr>);
               Some ((t, None), setNewRoot nr b3) } = Some ((t, None), b') \<and>
             step_ok mal n 0 key right b b' (Suc 0)"
proof -
  let ?b2 = "(next_count tid b)\<lparr>heap := H1\<rparr>"
  define nr where "nr = mal (Suc (allocs b))"
  have nr: "nr \<noteq> 0" "nr \<notin> dom H1" using sup by (auto simp: supply_ok_def nr_def)
  let ?H = "H1(nr \<mapsto> new_root_page p sk sp lv)"
  note nl = new_root_level [OF wf nr lv]
  have eq: "?H x = H1 x" if "x \<in> snd ` set [(None, p), (Some sk, sp)]" for x
    using that nr dm p by (auto simp del: domIff)
  have ins2: "inserted n key right (heap b) [(None, p)] ?H [(None, p), (Some sk, sp)]"
    using inserted_cong [of _ ?H H1, OF eq] ins by blast
  have fr2: "?H q = Some pg'" if "heap b q = Some pg'" "unat (level (hdr pg')) < n" for q pg'
    using that fr [of q] p sp nr dm by (cases "q = p"; cases "q = nr"; cases "q = sp") auto
  let ?b' = "setNewRoot nr ((next_count tid ?b2)\<lparr>heap := ?H\<rparr>)"
  have run: "getNewPage_root mal tid p sk sp lv ?b2 = Some (nr, (next_count tid ?b2)\<lparr>heap := ?H\<rparr>)"
    using add_page_ok [of mal ?b2 tid] nr(1) tid by (simp add: getNewPage_root_def nr_def)
  have "step_ok mal n 0 key right b ?b' (Suc 0)"
    using nl ins2 fr2 top dm sp
    by (auto simp: step_ok_def setNewRoot_def root_level_def nr_def atLeastLessThanSuc simp del: domIff)
  then show ?thesis using run by auto
qed

lemma level_sorted:
  assumes "chain H n (Suc e) L" and "down H (Suc e) L = A @ (lo, p) # B"
  shows "\<forall>a \<in> set A. fst a \<le> lo" "snd ` set (A @ (lo, p) # B) \<subseteq> dom H"
proof -
  have "wf_level H (Suc n) (down H e L)" "flat H (down H e L) = A @ (lo, p) # B"
    using chain_shrink [OF assms(1)] chain_bottom assms(2) by auto
  then have "sorted (map fst (A @ (lo, p) # B))" by (auto simp: wf_level_def)
  then show "\<forall>a \<in> set A. fst a \<le> lo" by (auto simp: sorted_append)
  have "wf_level H n (A @ (lo, p) # B)" using chain_bottom [OF assms(1)] assms(2) by simp
  then show "snd ` set (A @ (lo, p) # B) \<subseteq> dom H" by (auto simp: wf_level_def pages_at_def)
qed

lemma step_up:
  fixes b :: "('k::linorder) btree"
  assumes pre: "step_pre mal tid n (Suc e) right b"
    and dn: "down (heap b) (Suc e) (root_level b) = A @ (lo, p) # B" and loc: "located sk lo B"
    and L1: "L1 = A @ (lo, p) # (Some sk, sp) # B" and wf: "wf_level H1 n L1"
    and ins: "inserted n key right (heap b) (A @ (lo, p) # B) H1 L1"
    and fr: "\<And>q. q \<noteq> p \<Longrightarrow> q \<noteq> sp \<Longrightarrow> H1 q = heap b q" and dm: "dom H1 = insert sp (dom (heap b))"
    and p: "heap b p = Some pg" "unat (level (hdr pg)) = n" and sp: "mal (allocs b) = sp"
    and b1: "b1 = (next_count tid b)\<lparr>heap := H1\<rparr>"
    and internal: "step_pre mal tid (Suc n) e sp b1 \<Longrightarrow>
      \<exists>b2 d'. ins_run = Some b2 \<and> step_ok mal (Suc n) e sk sp b1 b2 d'"
  shows "\<exists>b2 d'. ins_run = Some b2 \<and> step_ok mal n (Suc e) key right b b2 d'"
proof -
  have ch: "chain (heap b) n (Suc e) (root_level b)" using pre by (simp add: step_pre_def)
  note up = chain_shrink [OF ch]
  have sup: "supply_ok mal (Suc (e + 2)) b" using pre by (simp add: step_pre_def)
  have spn: "sp \<noteq> 0" "sp \<notin> dom (heap b)" and sup1: "supply_ok mal (e + 2) b1"
    using supply_next [OF sup, of b1] dm sp unfolding b1 by simp_all
  have ag: "H1 q = Some pg'" if "heap b q = Some pg'" "n \<noteq> unat (level (hdr pg'))" for q pg'
    using that fr [of q] p spn by (cases "q = p"; cases "q = sp") auto
  have rl: "root_level b1 = root_level b" by (simp add: b1 root_level_def)
  have up1: "chain H1 (Suc n) e (root_level b1)" "flat H1 (down H1 e (root_level b1)) = A @ (lo, p) # B"
  proof -
    have "chain H1 (Suc n) e (root_level b) \<and> down H1 e (root_level b) = down (heap b) e (root_level b) \<and>
        flat H1 (down (heap b) e (root_level b)) = flat (heap b) (down (heap b) e (root_level b))"
      using chain_frame [OF up(1), of H1] ag by simp
    moreover have "flat (heap b) (down (heap b) e (root_level b)) = A @ (lo, p) # B"
      using up(2) dn by (rule trans)
    ultimately show "chain H1 (Suc n) e (root_level b1)" "flat H1 (down H1 e (root_level b1)) = A @ (lo, p) # B"
      unfolding rl by simp_all
  qed
  have "sp \<notin> snd ` set (A @ (lo, p) # B)" using level_sorted(2) [OF ch dn] spn(2) by blast
  then have "step_pre mal tid (Suc n) e sp b1"
    using pre up1 sup1 spn(1) unfolding step_pre_def b1 by simp
  then obtain b2 d' where b2: "ins_run = Some b2" "step_ok mal (Suc n) e sk sp b1 b2 d'"
    using internal by blast
  note st = b2(2) [unfolded step_ok_def]
  have "lo \<le> Some sk" using loc by (simp add: located_def)
  then have "\<forall>a \<in> set (A @ [(lo, p)]). fst a \<le> Some sk"
    using level_sorted(1) [OF ch dn] by (auto intro: order_trans)
  then have "ins_after (Some sk) sp ((A @ [(lo, p)]) @ B) = (A @ [(lo, p)]) @ (Some sk, sp) # B"
    using loc by (intro ins_after_split) (auto simp: located_def)
  moreover have h1: "heap b1 = H1" by (simp add: b1)
  ultimately have fl: "flat (heap b2) (down (heap b2) d' (root_level b2)) = L1"
    using st up1(2) by (simp add: inserted_def L1)
  have eq: "heap b2 x = H1 x" if xL: "x \<in> snd ` set L1" for x
  proof -
    obtain ex where "ex \<in> set L1" "x = snd ex" using xL by blast
    then obtain px where "H1 x = Some px" "unat (level (hdr px)) = n"
      using chain_levels [of H1 n 0 L1 ex] wf by auto
    then show ?thesis using st h1 by auto
  qed
  have "wf_level (heap b2) n L1" using wf_level_cong [of L1 "heap b2" H1, OF eq] wf by blast
  then have "chain (heap b2) n (Suc d') (root_level b2) \<and> down (heap b2) (Suc d') (root_level b2) = L1"
    using st fl by (intro chain_extend) auto
  moreover have "inserted n key right (heap b) (A @ (lo, p) # B) (heap b2) L1"
    using inserted_cong [of L1 "heap b2" H1, OF eq] ins by blast
  moreover have "heap b2 q = Some pg'" if "heap b q = Some pg'" "unat (level (hdr pg')) < n" for q pg'
    using ag [OF that(1)] that st h1 by auto
  moreover have "dom (heap b2) = dom (heap b) \<union> mal ` {allocs b..<allocs b2}" 
  proof -
    have "{allocs b..<allocs b2} = insert (allocs b) {allocs b1..<allocs b2}"
      using st by (auto simp: b1)
    then show ?thesis using st dm h1 sp by auto
  qed
  ultimately have "step_ok mal n (Suc e) key right b b2 (Suc d')"
    using st dn unfolding step_ok_def b1 by auto
  with b2(1) show ?thesis by blast
qed

theorem store_ok:
  fixes b :: "('k::{linorder,zero}) btree"
  assumes "step_pre mal tid n d right b" and "down (heap b) d (root_level b) = A @ (lo, p) # B"
    and "located key lo B" and "2 * d + 1 \<le> f"
  shows "\<exists>ret b' d'. store mal f tid p key right 0 b = Some (ret, b') \<and> ret \<noteq> 0 \<and>
           step_ok mal n d key right b b' d'"
  using assms
proof (induction d arbitrary: n A lo p B key right b f rule: less_induct)
  case (less d)
  note pre = less.prems(1) and dn = less.prems(2) and loc = less.prems(3)
  obtain g where f: "f = Suc g" using less.prems(4) by (cases f) auto
  have ch: "chain (heap b) n d (root_level b)" and r: "right \<noteq> 0"
    and new: "right \<notin> snd ` set (flat (heap b) (A @ (lo, p) # B))" and tid: "tid < length (page_count b)"
    and sup: "supply_ok mal (Suc (d + 1)) b" and bnd: "n + d + 2 \<le> 2 ^ 32"
    using pre dn by (simp_all add: step_pre_def)
  have wf: "wf_level (heap b) n (A @ (lo, p) # B)" using chain_bottom [OF ch] dn by simp
  obtain pg where pg: "heap b p = Some pg" "unat (level (hdr pg)) = n"
    using chain_levels [of "heap b" n 0 "A @ (lo, p) # B" "(lo, p)"] wf by auto
  define sp where "sp = mal (allocs b)"
  have sp: "mal (allocs b) = sp" "sp \<noteq> 0" "sp \<notin> dom (heap b)"
    using sup by (auto simp: supply_ok_def sp_def)
  have lv: "unat (level (hdr pg) + 1) = Suc n"
    using pg(2) bnd by (simp add: unat_word_ariths)
  have p0: "p \<noteq> 0" using wf by (auto simp: wf_level_def)
  note enter = store_enter [OF wf loc pg(1), of mal g tid right]
  from wf loc pg(1) r new sp tid show ?case
  proof (cases rule: store_page_level)
    case (room H1)
    have "step_ok mal n d key right b (b\<lparr>heap := H1\<rparr>) d"
      using step_room [OF ch dn room(2,3,4,5) pg] by blast
    then show ?thesis using enter room(1) p0 unfolding f by auto
  next
    case (split H1 sk t)
    let ?b1 = "(next_count tid b)\<lparr>heap := H1\<rparr>"
    have sup1: "supply_ok mal (d + 1) ?b1"
      using supply_next(3) [OF sup, of ?b1] split(6) sp(1) by simp
    show ?thesis
    proof (cases d)
      case 0
      have top: "A = []" "B = []" "lo = None" "root b = p"
        using dn 0 by (auto simp: root_level_def Cons_eq_append_conv)
      obtain b' where run: "do { (nr, b3) \<leftarrow> getNewPage_root mal tid p sk sp (level (hdr pg) + 1) ?b1;
               Some ((t, None :: ('k \<times> ptr \<times> u32) option), setNewRoot nr b3) } = Some ((t, None), b')"
        and ok: "step_ok mal n 0 key right b b' (Suc 0)"
        using step_root [of b p H1 n sk sp key right pg "level (hdr pg) + 1" mal tid t]
          split(3-6) top pg lv sp tid sup1 0 by (auto simp: root_level_def)
      have "store_page mal tid p key right b = Some ((t, None), b')"
        using split(7) top(4) run unfolding Let_def by simp
      then show ?thesis using enter split(1) ok unfolding f 0 by auto
    next
      case (Suc e)
      obtain g' where g: "g = Suc g'" "2 * e + 1 \<le> g'" using less.prems(4) f Suc by (cases g) auto
      have "root b \<noteq> p"
        using chain_levels [OF ch, of "(None, root b)"] pg Suc by (auto simp: root_level_def)
      then have run: "store_page mal tid p key right b = Some ((t, Some (sk, sp, level (hdr pg) + 1)), ?b1)"
        using split(7) by (simp add: Let_def)
      have "\<exists>b2 d'. btree_insert_internal mal g tid sk sp (level (hdr pg) + 1) ?b1 = Some b2 \<and>
            step_ok mal (Suc n) e sk sp ?b1 b2 d'"
        if p1: "step_pre mal tid (Suc n) e sp ?b1"
        unfolding g(1)
      proof (rule internal_ok [OF _ _ lv])
        show "chain (heap ?b1) (Suc n) e (root_level ?b1)" using p1 by (simp add: step_pre_def)
      qed (rule less.IH [OF _ p1], use Suc g in auto)
      then have "\<exists>b2 d'. btree_insert_internal mal g tid sk sp (level (hdr pg) + 1) ?b1 = Some b2 \<and>
            step_ok mal n (Suc e) key right b b2 d'"
        by (intro step_up [OF pre [unfolded Suc] dn [unfolded Suc] split(2) refl split(3,4,5,6) pg sp(1) refl])
      then show ?thesis using enter run split(1) unfolding f Suc by auto
    qed
  qed
qed

end
