(* ===== verification/KV_Index.thy ===== *)
theory KV_Index
  imports KV_Prelude
begin

text \<open>
  The contract of the ordered index that the store keeps its records in: what its user may rely
  on, whatever the index is built from. \<open>ok n s\<close> says that the state \<open>s\<close> is well formed and has
  room for \<open>n\<close> more records, \<open>addr\<close> which values may be stored.
\<close>

locale ordered_index =
  fixes ok :: "nat \<Rightarrow> 's \<Rightarrow> bool"
    and recs :: "'s \<Rightarrow> ('k::linorder \<times> ptr) list"
    and addr :: "ptr \<Rightarrow> bool"
    and put :: "'k \<Rightarrow> ptr \<Rightarrow> 's \<Rightarrow> 's option"
    and get :: "'k \<Rightarrow> 's \<Rightarrow> ptr option"
    and scan :: "'k \<Rightarrow> 'k \<Rightarrow> 's \<Rightarrow> ptr list option"
  assumes put_law: "ok (Suc n) s \<Longrightarrow> addr v \<Longrightarrow> v \<notin> snd ` set (recs s) \<Longrightarrow>
      \<exists>s'. put k v s = Some s' \<and> ok n s' \<and> recs s' = ins_after k v (recs s)"
    and get_law: "ok n s \<Longrightarrow> \<forall>v \<in> snd ` set (recs s). addr v \<Longrightarrow>
      \<exists>v. get k s = Some v \<and>
          (if k \<in> fst ` set (recs s) then (k, v) \<in> set (recs s) \<and> v \<noteq> 0 else v = 0)"
    and scan_law: "ok n s \<Longrightarrow> scan lo hi s = Some (between lo hi (recs s))"
    and sorted_law: "ok n s \<Longrightarrow> sorted_keys (recs s)"
begin

lemma run_puts_ok:
  assumes "ok (length xs + n) s" and "distinct (map snd (recs s @ xs))" and "\<forall>v \<in> snd ` set xs. addr v"
  shows "\<exists>s'. run_puts put xs s = Some s' \<and> ok n s' \<and> recs s' = ins_all xs (recs s)"
  using assms
proof (induction xs arbitrary: s)
  case (Cons x xs)
  obtain k v where x: "x = (k, v)" by (cases x) auto
  obtain s1 where s1: "put k v s = Some s1" "ok (length xs + n) s1" "recs s1 = ins_after k v (recs s)"
    using put_law [of "length xs + n" s v k] Cons.prems x by auto
  have "distinct (map snd (recs s1 @ xs))"
    using Cons.prems(2) unfolding s1(3) x by (auto simp: distinct_snd_ins_after)
  then show ?case using Cons.IH [OF s1(2)] Cons.prems(3) s1 x by auto
qed simp

text \<open>Filled from empty, the index holds the stable sort of what was put in.\<close>

lemma build_ok:
  assumes "ok (length xs + n) s" "recs s = []" "distinct (map snd xs)" "\<forall>v \<in> snd ` set xs. addr v"
  shows "\<exists>s'. run_puts put xs s = Some s' \<and> ok n s' \<and> recs s' = sort_key fst xs \<and>
           scan lo hi s' = Some (map snd (filter (\<lambda>e. lo < fst e \<and> fst e < hi) (sort_key fst xs)))"
  using run_puts_ok [OF assms(1)] assms(2-4) scan_law by (auto simp: ins_all_sort between_def)

text \<open>With different keys, a search then returns what was put in under the key.\<close>

lemma build_get:
  assumes "ok (length xs + n) s" "recs s = []" "distinct (map snd xs)" "\<forall>v \<in> snd ` set xs. addr v"
    and "distinct (map fst xs)"
  shows "\<exists>s'. run_puts put xs s = Some s' \<and> get k s' = Some (case map_of xs k of None \<Rightarrow> 0 | Some v \<Rightarrow> v)"
proof -
  obtain s' where s': "run_puts put xs s = Some s'" "ok n s'" "recs s' = sort_key fst xs"
    using build_ok [OF assms(1-4)] by blast
  have "\<forall>v \<in> snd ` set (recs s'). addr v" unfolding s'(3) using assms(4) by simp
  then obtain v where v: "get k s' = Some v"
    "if k \<in> fst ` set xs then (k, v) \<in> set xs \<and> v \<noteq> 0 else v = 0"
    using get_law [OF s'(2), of k] unfolding s'(3) set_sort by blast
  have "v = (case map_of xs k of None \<Rightarrow> 0 | Some v \<Rightarrow> v)"
  proof (cases "k \<in> fst ` set xs")
    case True
    then have "map_of xs k = Some v" using v(2) map_of_is_SomeI [OF assms(5)] by simp
    then show ?thesis by simp
  next
    case False
    then have "map_of xs k = None" by (simp add: map_of_eq_None_iff)
    then show ?thesis using v(2) False by simp
  qed
  then show ?thesis using s'(1) v(1) by blast
qed

end

end
