(* ===== verification/KV_Tree.thy ===== *)
theory KV_Tree
  imports KV_InsertOk KV_Index
begin

text \<open>
  What class \<open>btree\<close> promises: the invariant of the whole tree, its records from left to right,
  and the effect of the constructor, the insert, the search and the range search on them.
\<close>

section \<open>The invariant and the records of a tree\<close>

definition leaves :: "'k btree \<Rightarrow> ('k option \<times> ptr) list" where
  "leaves b = down (heap b) (nat (height b) - 1) (root_level b)"

definition records_of :: "'k btree \<Rightarrow> ('k \<times> ptr) list" where
  "records_of b = contents (heap b) (leaves b)"

definition tree_ok :: "('k::linorder) btree \<Rightarrow> bool" where
  "tree_ok b \<longleftrightarrow> 1 \<le> height b \<and> chain (heap b) 0 (nat (height b) - 1) (root_level b)"

lemma flat_values:
  assumes "wf_level H 0 L" and "v \<noteq> 0"
  shows "v \<in> snd ` set (flat H L) \<longleftrightarrow> v \<in> snd ` set (contents H L)"
proof -
  have "pages_at H 0 L" using assms(1) by (simp add: wf_level_def)
  then show ?thesis
  proof (induction L)
    case (Cons e L)
    obtain pg where pg: "H (snd e) = Some pg" "leftmost_ptr (hdr pg) = 0"
      using Cons.prems by (auto simp: page_at_def)
    have "snd ` set (children H e) = insert 0 (snd ` set (page_entries H (snd e)))"
      using pg by (auto simp: children_def children_of_def page_entries_def image_image)
    then show ?case using Cons assms(2) by (simp add: image_Un)
  qed simp
qed

lemma contents_sorted:
  assumes "wf_level H n L"
  shows "sorted_keys (contents H L)"
proof -
  have "sorted (map fst (flat H L))" using assms by (simp add: wf_level_def)
  then show ?thesis
  proof (induction L)
    case (Cons e L)
    have srt: "sorted (map fst (children H e))" "sorted (map fst (flat H L))"
      and le: "\<forall>x \<in> set (children H e). \<forall>y \<in> set (flat H L). fst x \<le> fst y"
      using Cons.prems by (auto simp: sorted_append)
    have "sorted_keys (page_entries H (snd e))"
      using srt(1) by (auto simp: children_def children_of_def page_entries_def sorted_map sorted_wrt_map
          split: option.splits)
    moreover have "fst x \<le> fst y" if "x \<in> set (page_entries H (snd e))" "y \<in> set (contents H L)" for x y
    proof -
      have "(Some (fst x), snd x) \<in> set (children H e)"
        using that(1) by (auto simp: children_def children_of_def page_entries_def split: option.splits)
      with le contents_in_flat [OF that(2)] show ?thesis by fastforce
    qed
    ultimately show ?case using Cons.IH srt(2) by (auto simp: sorted_append)
  qed simp
qed

lemma tree_level: "tree_ok b \<Longrightarrow> wf_level (heap b) 0 (leaves b)"
  unfolding tree_ok_def leaves_def by (blast dest: chain_bottom)

lemma records_sorted: "tree_ok b \<Longrightarrow> sorted_keys (records_of b)"
  unfolding records_of_def by (blast intro: contents_sorted tree_level)

lemma find_leaf:
  assumes "tree_ok b"
  obtains q A lo B pg where "descend_leaf (heap b) key (root b) = Some q"
    "leaves b = A @ (lo, q) # B" "located key lo B" "heap b q = Some pg" "page_at 0 lo pg"
    "wf_level (heap b) 0 (A @ (lo, q) # B)"
proof -
  have "chain (heap b) 0 (nat (height b) - 1) ([] @ (None, root b) # [])"
    using assms by (simp add: tree_ok_def root_level_def)
  moreover have "located key None []" by (simp add: located_def)
  ultimately obtain q A lo B where q: "descend_leaf (heap b) key (root b) = Some q"
      "leaves b = A @ (lo, q) # B" "located key lo B"
    by (rule descend_leaf_ok) (simp add: leaves_def root_level_def)
  have wf: "wf_level (heap b) 0 (A @ (lo, q) # B)" using tree_level [OF assms] q(2) by simp
  show ?thesis by (rule wf_level_page [OF wf]) (use that q wf in blast)
qed

section \<open>Construction and insertion\<close>

lemma btree_new_ok:
  assumes "mal 0 \<noteq> 0" and "0 < length pc_mem"
  obtains b where "btree_new mal pc_mem nkv_mem = Some b" "tree_ok (b :: ('k::{linorder,zero}) btree)"
    "records_of b = []" "height b = 1" "allocs b = 1" "dom (heap b) = {mal 0}"
    "length (page_count b) = 32" "num_kv b = nkv_mem"
proof -
  let ?pg = "new_page 0 :: 'k page"
  let ?b = "\<lparr>height = 1, root = mal 0, heap = [mal 0 \<mapsto> ?pg], allocs = 1,
              page_count = replicate 32 0, num_kv = nkv_mem\<rparr> :: 'k btree"
  have "btree_new mal pc_mem nkv_mem = Some ?b"
    using assms by (simp add: btree_new_def getNewPage_def add_page_def bump_def access_simps Let_def)
  moreover have "page_at 0 None ?pg" by (simp add: page_at_def new_page_ok)
  then have "wf_level (heap ?b) 0 [(None, mal 0)]"
    using assms by (simp add: wf_level_def link_ok_def children_def children_of_def)
  then have "tree_ok ?b" by (simp add: tree_ok_def root_level_def)
  ultimately show ?thesis
    by (rule that) (simp_all add: records_of_def leaves_def root_level_def page_entries_def)
qed

lemma btree_insert_ok:
  fixes b :: "('k::{linorder,zero}) btree"
  assumes ok: "tree_ok b" and v: "right \<noteq> 0" "right \<notin> snd ` set (records_of b)"
    and sup: "supply_ok mal (nat (height b) + 1) b" and bnd: "height b < 2 ^ 32"
    and tid: "tid < length (page_count b)" "tid < length (num_kv b)" and fuel: "2 * nat (height b) \<le> f"
  obtains b' where "btree_insert mal f tid key right b = Some b'" "tree_ok b'"
    "records_of b' = ins_after key right (records_of b)"
    "height b' = height b \<or> height b' = height b + 1"
    "num_kv b' = (num_kv b)[tid := num_kv b ! tid + 1]" "length (page_count b') = length (page_count b)"
    "allocs b \<le> allocs b'" "allocs b' \<le> allocs b + nat (height b) + 1"
    "dom (heap b') = dom (heap b) \<union> mal ` {allocs b..<allocs b'}"
proof -
  define d where "d = nat (height b) - 1"
  have h: "1 \<le> height b" "nat (height b) = Suc d" using ok by (auto simp: tree_ok_def d_def)
  obtain g where f: "f = Suc g" "2 * d + 1 \<le> g" using fuel h(2) by (cases f) auto
  obtain q A lo B pg where q: "descend_leaf (heap b) key (root b) = Some q"
    "leaves b = A @ (lo, q) # B" "located key lo B" using find_leaf [OF ok] by metis
  have dn: "down (heap b) d (root_level b) = A @ (lo, q) # B" using q(2) by (simp add: leaves_def d_def)
  have "right \<notin> snd ` set (flat (heap b) (leaves b))"
    using flat_values [OF tree_level [OF ok] v(1)] v(2) by (simp add: records_of_def)
  then have pre: "step_pre mal tid 0 d right b"
    using ok v sup bnd tid h by (simp add: step_pre_def tree_ok_def d_def [symmetric] dn q(2))
  obtain ret b1 d' where s: "store mal g tid q key right 0 b = Some (ret, b1)" "ret \<noteq> 0"
      "step_ok mal 0 d key right b b1 d'"
    using store_ok [OF pre dn q(3) f(2)] by blast
  note st = s(3) [unfolded step_ok_def inserted_def]
  define b' where "b' = b1\<lparr>num_kv := (num_kv b)[tid := num_kv b ! tid + 1]\<rparr>"
  have h': "nat (height b1) - 1 = d'" "1 \<le> height b1" using st h by auto
  have ok': "tree_ok b'" using st h' by (simp add: tree_ok_def b'_def root_level_def)
  have rec: "records_of b' = ins_after key right (records_of b)"
    using st h' by (simp add: records_of_def leaves_def b'_def root_level_def d_def)
  have "btree_insert mal f tid key right b = Some b'"
    using q(1) s(1,2) st tid(2) unfolding f by (simp add: bump_def access_simps b'_def)
  then show ?thesis using ok' rec by (rule that) (use st h in \<open>auto simp: b'_def\<close>)
qed

section \<open>Search\<close>

text \<open>Values are log addresses: not null, and never the address of a page.\<close>

definition values_ok :: "('k::linorder) btree \<Rightarrow> bool" where
  "values_ok b \<longleftrightarrow> (\<forall>v \<in> snd ` set (records_of b). v \<notin> dom (heap b))"

lemma leaf_sibling:
  assumes wf: "wf_level H 0 (A @ (lo, q) # B)" and loc: "located key lo B" and pg: "H q = Some pg"
  shows "linear_search H pg key = Some (first_ptr (entries pg) key)"
    and "sibling_ptr (hdr pg) \<noteq> 0 \<Longrightarrow> sibling_ptr (hdr pg) \<in> dom H"
proof -
  have w: "page_at 0 lo pg" "link_ok H q (first B None)" "pages_at H 0 B"
    by (rule wf_level_page [OF wf]; use pg in simp)+
  have "sorted (map fst (flat H B))" by (rule wf_level_page [OF wf]) (simp add: sorted_append)
  then have nb: "sibling_ptr (hdr pg) \<noteq> 0 \<Longrightarrow>
      \<exists>s e. H (sibling_ptr (hdr pg)) = Some s \<and> rd (records s) 0 = Some e \<and> key < fst e"
    using sibling_above [OF w(2,3) _ loc pg] by blast
  then show "sibling_ptr (hdr pg) \<noteq> 0 \<Longrightarrow> sibling_ptr (hdr pg) \<in> dom H" by auto
  have ok: "page_ok pg" "leftmost_ptr (hdr pg) = 0" "distinct (map snd (entries pg))"
    using w(1) by (auto simp: page_at_def)
  then have f: "IS_FORWARD (switch_counter (hdr pg))" by (simp add: page_ok_def)
  show "linear_search H pg key = Some (first_ptr (entries pg) key)"
    using nb f ok leaf_search_fwd_ok [OF ok(1,3), of key]
    by (cases "sibling_ptr (hdr pg) = 0") (auto simp: linear_search_def Let_def)
qed

lemma located_contents:
  assumes wf: "wf_level H 0 (A @ (lo, q) # B)" and loc: "located key lo B" and pg: "H q = Some pg"
  shows "key \<in> fst ` set (contents H (A @ (lo, q) # B)) \<longleftrightarrow> key \<in> fst ` set (entries pg)"
    and "\<forall>e \<in> set (contents H A). fst e \<le> key" and "\<forall>e \<in> set (contents H B). key < fst e"
proof -
  have w: "page_at 0 lo pg" "pages_at H 0 B"
      "sorted (map fst (flat H A @ children_of lo pg @ flat H B))"
    by (rule wf_level_page [OF wf]; use pg in simp)+
  have "\<forall>e \<in> set (flat H B). Some key < fst e"
    using flat_above [OF w(2) _ loc] w(3) by (simp add: sorted_append)
  then show above: "\<forall>e \<in> set (contents H B). key < fst e" by (auto dest!: contents_in_flat)
  have "\<forall>e \<in> set (flat H A). fst e \<le> lo" using w(3) by (auto simp: sorted_append children_of_def)
  then have lo: "\<forall>e \<in> set (contents H A). Some (fst e) \<le> lo" by (auto dest!: contents_in_flat)
  moreover have "lo \<le> Some key" using loc by (simp add: located_def)
  ultimately show below: "\<forall>e \<in> set (contents H A). fst e \<le> key" by (metis less_eq_option_Some order_trans)
  have "key \<in> fst ` set (entries pg)" if "key \<in> fst ` set (contents H A)"
  proof -
    have "Some key \<le> lo" using lo that by auto
    then have "lo = Some key" using \<open>lo \<le> Some key\<close> by simp
    then show ?thesis using w(1) by (cases "entries pg") (auto simp: page_at_def)
  qed
  moreover have "key \<notin> fst ` set (contents H B)" using above by auto
  ultimately show "key \<in> fst ` set (contents H (A @ (lo, q) # B)) \<longleftrightarrow> key \<in> fst ` set (entries pg)"
    using pg by (auto simp: page_entries_def image_Un)
qed

lemma btree_search_ok:
  assumes ok: "tree_ok b" and vals: "values_ok b"
  obtains v where "btree_search key b = Some v"
    "if key \<in> fst ` set (records_of b) then (key, v) \<in> set (records_of b) \<and> v \<noteq> 0 else v = 0"
proof -
  obtain q A lo B pg where q: "descend_leaf (heap b) key (root b) = Some q"
    "leaves b = A @ (lo, q) # B" "located key lo B" "heap b q = Some pg" "page_at 0 lo pg"
    "wf_level (heap b) 0 (A @ (lo, q) # B)" by (rule find_leaf [OF ok])
  let ?v = "first_ptr (entries pg) key"
  have rec: "records_of b = contents (heap b) (A @ (lo, q) # B)" by (simp add: records_of_def q(2))
  have sub: "set (entries pg) \<subseteq> set (records_of b)" unfolding rec using q(4) by (auto simp: page_entries_def)
  have v: "if key \<in> fst ` set (entries pg) then (key, ?v) \<in> set (entries pg) else ?v = 0"
  proof (cases "map_of (entries pg) key")
    case None
    then have "key \<notin> fst ` set (entries pg)" by (simp add: map_of_eq_None_iff)
    then show ?thesis using None by (simp add: first_ptr_def)
  next
    case (Some v)
    then have "(key, v) \<in> set (entries pg)" by (rule map_of_SomeD)
    then show ?thesis using Some by (force simp: first_ptr_def)
  qed
  have nz: "(key, ?v) \<in> set (entries pg) \<Longrightarrow> ?v \<noteq> 0 \<and> ?v \<notin> dom (heap b)"
    using entries_nonnull [of _ pg] vals sub by (fastforce simp: values_ok_def)
  note ls = leaf_sibling [OF q(6,3,4)]
  have "search_leaf (heap b) key q = Some ?v"
  proof (cases "key \<in> fst ` set (entries pg)")
    case True
    then have "?v \<noteq> sibling_ptr (hdr pg)" using v nz ls(2) by (auto simp del: domIff)
    then show ?thesis using q(4) ls(1) by (subst search_leaf.simps) simp
  next
    case False
    then show ?thesis using v q(4) ls(1) by (subst search_leaf.simps) simp
  qed
  then have "btree_search key b = Some ?v" by (simp add: btree_search_def q(1))
  moreover have iff: "key \<in> fst ` set (records_of b) \<longleftrightarrow> key \<in> fst ` set (entries pg)"
    unfolding rec by (rule located_contents(1) [OF q(6,3,4)])
  have "if key \<in> fst ` set (records_of b) then (key, ?v) \<in> set (records_of b) \<and> ?v \<noteq> 0 else ?v = 0"
    unfolding iff using v nz sub by (meson subsetD)
  ultimately show ?thesis by (intro that [of ?v])
qed

section \<open>Range search\<close>

lemma range_chain_ok:
  assumes "linked H L None" "pages_at H 0 L" "sorted_keys (contents H L)"
  shows "range_chain H this lo hi (case L of [] \<Rightarrow> 0 | e # _ \<Rightarrow> snd e) buf
       = Some (buf @ between lo hi (contents H L))"
  using assms
proof (induction L arbitrary: buf)
  case Nil
  show ?case by (subst range_chain.simps) simp
next
  case (Cons e L)
  obtain pg where pg: "H (snd e) = Some pg" "page_at 0 (fst e) pg" "snd e \<noteq> 0" using Cons.prems(2) by auto
  have f: "IS_FORWARD (switch_counter (hdr pg))" using pg(2) by (simp add: page_at_def page_ok_def)
  have sib: "sibling_ptr (hdr pg) = (case L of [] \<Rightarrow> 0 | e # _ \<Rightarrow> snd e)"
    and ne: "L \<noteq> [] \<Longrightarrow> entries pg \<noteq> []"
    using Cons.prems(1) pg by (cases L; auto simp: link_ok_def)+
  obtain stop where r: "range_page_fwd lo hi (records pg) = Some (between lo hi (entries pg), stop)"
    and stop: "entries pg \<noteq> [] \<Longrightarrow> stop = (\<exists>e \<in> set (entries pg). lo < fst e \<and> hi \<le> fst e)"
    using range_page_fwd_ok [of pg lo hi] pg(2) by (auto simp: page_at_def)
  have rest: "between lo hi (contents H L) = []" if st: "stop"
  proof (cases L)
    case (Cons e' L')
    then obtain x where x: "x \<in> set (entries pg)" "hi \<le> fst x" using st ne stop by auto
    have "\<forall>y \<in> set (contents H L). fst x \<le> fst y"
      using Cons.prems(3) x(1) pg(1) by (auto simp: page_entries_def sorted_append)
    then show ?thesis using x(2) by (intro between_beyond) (auto intro: order_trans)
  qed simp
  have "sorted_keys (contents H L)" using Cons.prems(3) by (auto simp: sorted_append)
  then have IH: "range_chain H this lo hi (sibling_ptr (hdr pg)) (buf @ between lo hi (entries pg))
     = Some ((buf @ between lo hi (entries pg)) @ between lo hi (contents H L))"
    unfolding sib using Cons.prems by (intro Cons.IH) auto
  show ?case
    using pg f r rest IH by (subst range_chain.simps) (auto simp: page_entries_def)
qed

lemma range_descend_ok:
  assumes "chain H 0 d (A @ (lo, p) # B)" and "located key lo B"
  obtains q A' lo' B' where "range_descend H key hi p = linear_search_range H q key hi"
    "down H d (A @ (lo, p) # B) = A' @ (lo', q) # B'" "located key lo' B'"
  using assms
proof (induction d arbitrary: A lo p B thesis)
  case 0
  obtain pg where "H p = Some pg" "page_at 0 lo pg" "p \<noteq> 0"
    by (rule wf_level_page [of H 0 A lo p B]) (use 0 in auto)
  then have "range_descend H key hi p = linear_search_range H p key hi"
    by (subst range_descend.simps) (simp add: page_at_def)
  with 0 show ?case by simp
next
  case (Suc d)
  have wf: "wf_level H (Suc d) (A @ (lo, p) # B)" and ch: "chain H 0 d (flat H (A @ (lo, p) # B))"
    using Suc.prems by auto
  have p0: "p \<noteq> 0" by (rule wf_level_page [OF wf])
  obtain pg q A' lo' B' where s: "H p = Some pg" "linear_search H pg key = Some q"
      "leftmost_ptr (hdr pg) \<noteq> 0"
      "flat H (A @ (lo, p) # B) = A' @ (lo', q) # B'" "located key lo' B'"
    by (rule descend_step [OF wf Suc.prems(3)])
  obtain q' A'' lo'' B'' where r: "range_descend H key hi q = linear_search_range H q' key hi"
      "down H d (A' @ (lo', q) # B') = A'' @ (lo'', q') # B''" "located key lo'' B''"
    by (rule Suc.IH [where A = A' and lo = lo' and p = q and B = B']) (use ch s in auto)
  have "range_descend H key hi p = linear_search_range H q' key hi"
    using s r p0 by (subst range_descend.simps) simp
  then show ?case using Suc.prems(1) r s(4) by (metis down_Suc)
qed

lemma btree_search_range_ok:
  assumes ok: "tree_ok b"
  shows "btree_search_range lo hi b = Some (between lo hi (records_of b))"
proof -
  have "chain (heap b) 0 (nat (height b) - 1) ([] @ (None, root b) # [])"
    using ok by (simp add: tree_ok_def root_level_def)
  moreover have "located lo None []" by (simp add: located_def)
  ultimately obtain q A l B where q: "range_descend (heap b) lo hi (root b) = linear_search_range (heap b) q lo hi"
      "leaves b = A @ (l, q) # B" "located lo l B"
    by (rule range_descend_ok [where hi = hi]) (simp add: leaves_def root_level_def)
  have wf: "wf_level (heap b) 0 (A @ (l, q) # B)" using tree_level [OF ok] q(2) by simp
  obtain pg where pg: "heap b q = Some pg" by (rule wf_level_page [OF wf])
  have "linked (heap b) ((l, q) # B) None" "pages_at (heap b) 0 ((l, q) # B)"
    using wf by (simp_all add: wf_level_def)
  moreover have "sorted_keys (contents (heap b) ((l, q) # B))"
    using contents_sorted [OF wf] by (simp add: sorted_append)
  ultimately have "range_chain (heap b) pg lo hi q [] = Some (between lo hi (contents (heap b) ((l, q) # B)))"
    using range_chain_ok [of "heap b" "(l, q) # B" pg lo hi "[]"] by simp
  moreover have "between lo hi (contents (heap b) A) = []"
    using located_contents(2) [OF wf q(3) pg] by (auto simp: between_def filter_empty_conv)
  then have "between lo hi (records_of b) = between lo hi (contents (heap b) ((l, q) # B))"
    by (simp add: records_of_def q(2))
  ultimately show ?thesis using q(1) pg by (simp add: btree_search_range_def linear_search_range_def)
qed

section \<open>The tree as an ordered index\<close>

text \<open>
  \<open>tree_usable mal cap tid n b\<close>: the first \<open>cap\<close> addresses of the supply are usable, the heap
  holds the pages allocated so far, and enough addresses are left for \<open>n\<close> more inserts (each
  takes at most one page per level and one for a new root).
\<close>

definition tree_usable :: "(nat \<Rightarrow> ptr) \<Rightarrow> nat \<Rightarrow> nat \<Rightarrow> nat \<Rightarrow> ('k::linorder) btree \<Rightarrow> bool" where
  "tree_usable mal cap tid n b \<longleftrightarrow>
     tree_ok b \<and> inj_on mal {..<cap} \<and> (\<forall>i<cap. mal i \<noteq> 0) \<and> dom (heap b) = mal ` {..<allocs b} \<and>
     tid < length (page_count b) \<and> tid < length (num_kv b) \<and>
     allocs b + n * (nat (height b) + n + 1) \<le> cap \<and> height b + int n < 2 ^ 32"

definition tree_put :: "(nat \<Rightarrow> ptr) \<Rightarrow> nat \<Rightarrow> ('k::{linorder,zero}) \<Rightarrow> ptr \<Rightarrow> 'k btree \<Rightarrow> 'k btree option" where
  "tree_put mal tid k v b = btree_insert mal (2 * nat (height b)) tid k v b"

lemma usable_supply:
  assumes "tree_usable mal cap tid (Suc n) b"
  shows "supply_ok mal (nat (height b) + 1) b"
proof -
  have room: "allocs b + (nat (height b) + 1) \<le> cap"
    using assms by (simp add: tree_usable_def)
  have "mal i \<noteq> 0 \<and> mal i \<notin> mal ` {..<allocs b}" if "i \<in> {allocs b..<allocs b + (nat (height b) + 1)}" for i
    using that room assms inj_on_image_mem_iff [of mal "{..<cap}" i "{..<allocs b}"]
    by (auto simp: tree_usable_def)
  moreover have "inj_on mal {allocs b..<allocs b + (nat (height b) + 1)}"
    using assms room by (auto simp: tree_usable_def intro: inj_on_subset)
  ultimately show ?thesis using assms by (simp add: supply_ok_def tree_usable_def)
qed

lemma usable_put:
  assumes u: "tree_usable mal cap tid (Suc n) b" and v: "v \<noteq> 0" "v \<notin> snd ` set (records_of b)"
  obtains b' where "tree_put mal tid k v b = Some b'" "tree_usable mal cap tid n b'"
    "records_of b' = ins_after k v (records_of b)" "length (page_count b') = length (page_count b)"
    "length (num_kv b') = length (num_kv b)"
proof -
  have ok: "tree_ok b" "height b < 2 ^ 32" "tid < length (page_count b)" "tid < length (num_kv b)"
    using u by (simp_all add: tree_usable_def)
  obtain b' where b': "btree_insert mal (2 * nat (height b)) tid k v b = Some b'" "tree_ok b'"
    "records_of b' = ins_after k v (records_of b)"
    "height b' = height b \<or> height b' = height b + 1"
    "num_kv b' = (num_kv b)[tid := num_kv b ! tid + 1]" "length (page_count b') = length (page_count b)"
    "allocs b \<le> allocs b'" "allocs b' \<le> allocs b + nat (height b) + 1"
    "dom (heap b') = dom (heap b) \<union> mal ` {allocs b..<allocs b'}"
    by (rule btree_insert_ok [OF ok(1) v usable_supply [OF u] ok(2-4) order_refl])
  have "nat (height b') \<le> nat (height b) + 1" using b'(4) by auto
  then have "n * (nat (height b') + n + 1) \<le> n * (nat (height b) + Suc n + 1)"
    by (intro mult_le_mono2) simp
  then have "allocs b' + n * (nat (height b') + n + 1) \<le> allocs b + Suc n * (nat (height b) + Suc n + 1)"
    using b'(8) by simp
  moreover have "{..<allocs b'} = {..<allocs b} \<union> {allocs b..<allocs b'}" using b'(7) by auto
  ultimately have "tree_usable mal cap tid n b'"
    using u b' by (auto simp: tree_usable_def image_Un)
  with b'(1,3,5,6) show ?thesis by (intro that [of b']) (simp_all add: tree_put_def)
qed

definition value_addr :: "(nat \<Rightarrow> ptr) \<Rightarrow> nat \<Rightarrow> ptr \<Rightarrow> bool" where
  "value_addr mal cap v \<longleftrightarrow> v \<noteq> 0 \<and> (\<forall>i<cap. v \<noteq> mal i)"

interpretation tree_index:
  ordered_index "tree_usable mal cap tid" "records_of :: ('k::{linorder,zero}) btree \<Rightarrow> _"
    "value_addr mal cap" "tree_put mal tid" btree_search btree_search_range
  for mal :: "nat \<Rightarrow> ptr" and cap :: nat and tid :: nat
proof unfold_locales
  fix n :: nat and s :: "'k btree" and v k
  assume u: "tree_usable mal cap tid (Suc n) s" and v: "value_addr mal cap v" "v \<notin> snd ` set (records_of s)"
  have "v \<noteq> 0" using v(1) by (simp add: value_addr_def)
  then show "\<exists>s'. tree_put mal tid k v s = Some s' \<and> tree_usable mal cap tid n s' \<and>
      records_of s' = ins_after k v (records_of s)"
    using usable_put [OF u _ v(2), of k] by blast
next
  fix n :: nat and s :: "'k btree" and k
  assume u: "tree_usable mal cap tid n s" and a: "\<forall>v \<in> snd ` set (records_of s). value_addr mal cap v"
  have d: "dom (heap s) = mal ` {..<allocs s}" "allocs s \<le> cap" using u by (simp_all add: tree_usable_def)
  have "v \<notin> dom (heap s)" if vr: "v \<in> snd ` set (records_of s)" for v
  proof -
    have "\<forall>i<cap. v \<noteq> mal i" using a vr unfolding value_addr_def by blast
    then show ?thesis unfolding d(1) using d(2) by (metis imageE lessThan_iff order.strict_trans2)
  qed
  then have "values_ok s" unfolding values_ok_def by blast
  then show "\<exists>v. btree_search k s = Some v \<and>
      (if k \<in> fst ` set (records_of s) then (k, v) \<in> set (records_of s) \<and> v \<noteq> 0 else v = 0)"
    using btree_search_ok [of s k] u unfolding tree_usable_def by metis
qed (auto simp: tree_usable_def btree_search_range_ok records_sorted)

end
