(* ===== verification/KV_Remove.thy ===== *)
theory KV_Remove
  imports KV_Search
begin

text \<open>
  Pages after a removal: \<open>remove_key\<close> leaves the switch counter odd, and from then on a page is
  read from right to left until the next insertion makes the counter even again. The page
  invariant without the counter's parity is kept by both, and the searches return the same
  records in both directions.
\<close>

definition page_shape :: "('k::linorder) page \<Rightarrow> bool" where
  "page_shape pg \<longleftrightarrow>
     length (records pg) = cardinality \<and> length (entries pg) < cardinality \<and>
     last_index (hdr pg) = int (length (entries pg)) - 1 \<and> sorted_keys (entries pg) \<and>
     (entries pg = [] \<longrightarrow> snd (records pg ! 1) = 0)"

lemma page_ok_shape: "page_ok pg \<longleftrightarrow> page_shape pg \<and> IS_FORWARD (switch_counter (hdr pg))"
  by (auto simp: page_ok_def page_shape_def)

lemma shape_split:
  assumes "page_shape pg"
  obtains z zs where "records pg = entries pg @ z # zs" "snd z = 0"
proof -
  have l: "length (entries pg) < length (records pg)" using assms by (auto simp: page_shape_def)
  have "records pg = entries pg @ drop (length (entries pg)) (records pg)"
    using take_entries [of pg] by (metis append_take_drop_id)
  moreover have "drop (length (entries pg)) (records pg)
      = records pg ! length (entries pg) # drop (Suc (length (entries pg))) (records pg)"
    using l by (simp add: Cons_nth_drop_Suc)
  ultimately show ?thesis using that entries_sentinel [OF l] by metis
qed

section \<open>remove_key\<close>

text \<open>The list without its first record for a key.\<close>

fun remove_first :: "'k \<Rightarrow> ('k \<times> 'v) list \<Rightarrow> ('k \<times> 'v) list" where
  "remove_first k [] = []"
| "remove_first k (e # xs) = (if fst e = k then xs else e # remove_first k xs)"

lemma set_remove_first: "set (remove_first k xs) \<subseteq> set xs"
  by (induction xs) auto

lemma length_remove_first: "k \<in> fst ` set xs \<Longrightarrow> length (remove_first k xs) = length xs - 1"
  by (induction xs) (auto simp: neq_Nil_conv dest!: split_list)

lemma remove_first_absent: "k \<notin> fst ` set xs \<Longrightarrow> remove_first k xs = xs"
  by (induction xs) auto

lemma sorted_remove_first: "sorted_keys xs \<Longrightarrow> sorted_keys (remove_first k xs)"
  by (induction xs) (auto dest: subsetD [OF set_remove_first])

lemma remove_loop_shifting:
  assumes "\<forall>e \<in> set ys. snd e \<noteq> 0" and "snd z = 0"
  shows "remove_loop lm key (length xs) True (xs @ ys @ z # zs)
       = Some (True, if ys = [] then xs @ z # zs else xs @ tl ys @ z # z # zs)"
  using assms(1)
proof (induction ys arbitrary: xs)
  case Nil
  show ?case using assms(2) by (subst remove_loop.simps) (simp add: rd_def nth_append)
next
  case (Cons y ys)
  define n where "n = (if ys = [] then z else hd ys)"
  have rd: "rd (xs @ (y # ys) @ z # zs) (length xs) = Some y"
    "rd (xs @ (y # ys) @ z # zs) (Suc (length xs)) = Some n"
    by (cases ys; simp add: rd_def nth_append n_def)+
  have up: "(xs @ (y # ys) @ z # zs)[length xs := n] = (xs @ [n]) @ ys @ z # zs" by simp
  have "remove_loop lm key (length xs) True (xs @ (y # ys) @ z # zs)
      = remove_loop lm key (length (xs @ [n])) True ((xs @ [n]) @ ys @ z # zs)"
    unfolding up [symmetric]
    by (subst remove_loop.simps) (use Cons.prems in \<open>simp add: rd del: append_Cons append_assoc\<close>)
  also have "\<dots> = Some (True, if ys = [] then (xs @ [n]) @ z # zs else (xs @ [n]) @ tl ys @ z # z # zs)"
    by (rule Cons.IH) (use Cons.prems in simp)
  finally show ?case by (cases ys) (simp_all add: n_def)
qed

lemma remove_loop_ok:
  assumes "\<forall>e \<in> set ys. snd e \<noteq> 0" and "snd z = 0"
  shows "remove_loop lm key (length xs) False (xs @ ys @ z # zs)
       = Some (if key \<in> fst ` set ys then (True, xs @ remove_first key ys @ z # z # zs)
               else (False, xs @ ys @ z # zs))"
  using assms(1)
proof (induction ys arbitrary: xs)
  case Nil
  show ?case using assms(2) by (subst remove_loop.simps) (simp add: rd_def nth_append)
next
  case (Cons y ys)
  define n where "n = (if ys = [] then z else hd ys)"
  have rd: "rd (xs @ (y # ys) @ z # zs) (length xs) = Some y"
    "rd ((xs @ (y # ys) @ z # zs)[length xs := e]) (Suc (length xs)) = Some n" for e
    by (cases ys; simp add: rd_def nth_append n_def)+
  have up: "(xs @ (y # ys) @ z # zs)[length xs := n] = (xs @ [n]) @ ys @ z # zs" by simp
  show ?case
  proof (cases "fst y = key")
    case True
    have "remove_loop lm key (length xs) False (xs @ (y # ys) @ z # zs)
        = remove_loop lm key (length (xs @ [n])) True ((xs @ [n]) @ ys @ z # zs)"
      by (subst remove_loop.simps)
         (use Cons.prems True in \<open>simp add: rd up Let_def del: append_Cons append_assoc split del: if_split\<close>)
    also have "\<dots> = Some (True, if ys = [] then (xs @ [n]) @ z # zs else (xs @ [n]) @ tl ys @ z # z # zs)"
      by (rule remove_loop_shifting [OF _ assms(2)]) (use Cons.prems in simp)
    finally show ?thesis using True by (cases ys) (simp_all add: n_def)
  next
    case False
    have "remove_loop lm key (length xs) False (xs @ (y # ys) @ z # zs)
        = remove_loop lm key (length (xs @ [y])) False ((xs @ [y]) @ ys @ z # zs)"
      by (subst remove_loop.simps) (use Cons.prems False rd(1) in simp)
    also have "\<dots> = Some (if key \<in> fst ` set ys then (True, (xs @ [y]) @ remove_first key ys @ z # z # zs)
               else (False, (xs @ [y]) @ ys @ z # zs))"
      by (rule Cons.IH) (use Cons.prems in simp)
    finally show ?thesis using False by auto
  qed
qed

lemma IS_FORWARD_odd: "IS_FORWARD c \<Longrightarrow> \<not> IS_FORWARD (c + 1)"
  unfolding IS_FORWARD_def by (simp flip: even_iff_mod_2_eq_zero)

lemma remove_key_ok:
  assumes shape: "page_shape pg"
  obtains pg' where "remove_key key pg = Some (key \<in> fst ` set (entries pg), pg')"
    "entries pg' = remove_first key (entries pg)" "page_shape pg'"
    "\<not> IS_FORWARD (switch_counter (hdr pg'))"
proof -
  obtain z zs where rs: "records pg = entries pg @ z # zs" "snd z = 0" using shape_split [OF shape] .
  let ?found = "key \<in> fst ` set (entries pg)"
  define h1 where "h1 = (if IS_FORWARD (switch_counter (hdr pg))
       then (hdr pg)\<lparr>switch_counter := switch_counter (hdr pg) + 1\<rparr> else hdr pg)"
  have h1: "\<not> IS_FORWARD (switch_counter h1)" "last_index h1 = int (length (entries pg)) - 1"
    using IS_FORWARD_odd shape by (auto simp: h1_def page_shape_def)
  let ?rs = "if ?found then remove_first key (entries pg) @ z # z # zs else records pg"
  define pg' where "pg' = pg\<lparr>hdr := (if ?found then h1\<lparr>last_index := last_index h1 - 1\<rparr> else h1), records := ?rs\<rparr>"
  have nn: "\<forall>e \<in> set (entries pg). snd e \<noteq> 0" using entries_nonnull [of _ pg] by blast
  have "remove_loop (leftmost_ptr h1) key 0 False (records pg) = Some (?found, ?rs)"
    using remove_loop_ok [OF nn rs(2), of "leftmost_ptr h1" key "[]" zs] rs(1) by auto
  then have run: "remove_key key pg = Some (?found, pg')"
    by (simp add: remove_key_def Let_def pg'_def flip: h1_def)
  have nf: "\<not> ?found \<Longrightarrow> remove_first key (entries pg) = entries pg"
    by (rule remove_first_absent)
  have ent: "entries pg' = remove_first key (entries pg)"
  proof (cases ?found)
    case True
    have "\<forall>e \<in> set (remove_first key (entries pg)). snd e \<noteq> 0"
      using nn set_remove_first [of key "entries pg"] by blast
    then show ?thesis
      by (rule entries_eqI [where z = z and zs = "z # zs"]) (simp_all add: pg'_def True rs(2))
  next
    case False
    then have "entries pg' = entries pg" by (simp add: pg'_def entries_def)
    then show ?thesis using nf False by simp
  qed
  have len: "?found \<Longrightarrow> Suc (length (remove_first key (entries pg))) = length (entries pg)"
    using length_remove_first [of key "entries pg"] by (cases "entries pg") auto
  have "page_shape pg'"
  proof (cases ?found)
    case True
    then have "entries pg \<noteq> []" by auto
    then show ?thesis
      using True shape len rs unfolding page_shape_def ent
      by (auto simp: pg'_def h1(2) sorted_remove_first nth_append nth_Cons' split: if_splits)
  next
    case False
    then show ?thesis using shape nf h1(2) unfolding page_shape_def ent by (simp add: pg'_def)
  qed
  moreover have "\<not> IS_FORWARD (switch_counter (hdr pg'))" using h1(1) by (simp add: pg'_def)
  ultimately show ?thesis using that run ent by blast
qed

section \<open>Searching right to left\<close>

text \<open>The last record for a key, which is the first one when keys are different.\<close>

lemma leaf_loop_bwd_ok:
  assumes "i < length rs" and "\<forall>j \<le> i. snd (rs ! j) \<noteq> 0" and "distinct (map snd (take (Suc i) rs))"
  shows "leaf_loop_bwd key rs i = Some (first_ptr (rev (tl (take (Suc i) rs))) key)"
  using assms
proof (induction i)
  case 0
  then show ?case by (cases rs) (simp_all add: first_ptr_def)
next
  case (Suc i)
  have tk: "take (Suc (Suc i)) rs = take (Suc i) rs @ [rs ! Suc i]"
    using Suc.prems(1) by (simp add: take_Suc_conv_app_nth)
  have "snd (rs ! i) \<noteq> snd (rs ! Suc i)"
  proof -
    have "take (Suc i) rs = take i rs @ [rs ! i]" using Suc.prems(1) by (simp add: take_Suc_conv_app_nth)
    then show ?thesis using Suc.prems(3) unfolding tk by simp
  qed
  moreover have "tl (take (Suc (Suc i)) rs) = tl (take (Suc i) rs) @ [rs ! Suc i]"
    unfolding tk using Suc.prems(1) by (cases rs) simp_all
  moreover have "leaf_loop_bwd key rs i = Some (first_ptr (rev (tl (take (Suc i) rs))) key)"
    using Suc.prems by (intro Suc.IH) (auto simp: tk)
  ultimately show ?case
    using Suc.prems by (cases "rs ! Suc i") (auto simp: access_simps first_ptr_def)
qed

lemma first_ptr_eq_0:
  assumes "\<forall>e \<in> set xs. snd e \<noteq> 0"
  shows "first_ptr xs key = 0 \<longleftrightarrow> key \<notin> fst ` set xs"
proof (cases "map_of xs key")
  case None
  then have "key \<notin> fst ` set xs" by (simp add: map_of_eq_None_iff)
  then show ?thesis using None by (simp add: first_ptr_def)
next
  case (Some v)
  then have "(key, v) \<in> set xs" by (rule map_of_SomeD)
  then show ?thesis using Some assms by (force simp: first_ptr_def)
qed

lemma leaf_search_bwd_ok:
  assumes shape: "page_shape pg" and d: "distinct (map snd (entries pg))"
  shows "leaf_search_bwd key (length (entries pg)) (records pg) = Some (first_ptr (rev (entries pg)) key)"
proof -
  obtain z zs where rs: "records pg = entries pg @ z # zs" "snd z = 0" using shape_split [OF shape] .
  have len: "length (records pg) = 6" using shape by (simp add: page_shape_def)
  show ?thesis
  proof (cases "entries pg")
    case Nil
    then show ?thesis using rs len by (simp add: leaf_search_bwd_def access_simps first_ptr_def)
  next
    case (Cons x ys)
    have nn: "\<forall>e \<in> set (x # ys). snd e \<noteq> 0" using entries_nonnull [of _ pg] Cons by simp
    have tk: "take (Suc (length ys)) (records pg) = x # ys" using rs(1) Cons by simp
    have at: "\<forall>j \<le> length ys. snd (records pg ! j) \<noteq> 0"
      using nn rs(1) Cons by (auto simp: nth_append nth_Cons' )
    have "leaf_loop_bwd key (records pg) (length ys) = Some (first_ptr (rev ys) key)"
      using leaf_loop_bwd_ok [of "length ys" "records pg" key] at tk d rs(1) Cons by simp
    moreover have "rd (records pg) 0 = Some x" using rs(1) Cons by (simp add: access_simps)
    moreover have "\<forall>e \<in> set (rev ys). snd e \<noteq> 0" using nn by simp
    note z = first_ptr_eq_0 [OF this, of key]
    have "first_ptr (rev (x # ys)) key
        = (if first_ptr (rev ys) key = 0 \<and> fst x = key then snd x else first_ptr (rev ys) key)"
      using z map_of_eq_None_iff [of "rev ys" key]
      by (cases x; cases "map_of (rev ys) key") (auto simp: first_ptr_def map_add_def)
    ultimately show ?thesis
      using Cons nn by (auto simp: leaf_search_bwd_def)
  qed
qed

lemma first_ptr_rev:
  assumes "distinct (map fst xs)"
  shows "first_ptr (rev xs) key = first_ptr xs key"
proof -
  have "map_of (rev xs) key = map_of xs key"
  proof (cases "map_of xs key")
    case None
    then have "map_of (rev xs) key = None" by (simp add: map_of_eq_None_iff)
    then show ?thesis using None by simp
  next
    case (Some v)
    then have "(key, v) \<in> set (rev xs)" by (auto dest: map_of_SomeD)
    moreover have "distinct (map fst (rev xs))" using assms by (simp flip: rev_map)
    ultimately show ?thesis using Some by simp
  qed
  then show ?thesis by (simp add: first_ptr_def)
qed

lemma int_loop_bwd_ok:
  assumes "sorted_keys xs" and "distinct (lm # map snd xs)" and "\<forall>e \<in> set xs. snd e \<noteq> 0"
  shows "int_loop_bwd lm key (xs @ ys) (length xs)
       = Some (if \<exists>e \<in> set xs. fst e \<le> key then child_for lm xs key else 0)"
  using assms
proof (induction xs arbitrary: ys rule: rev_induct)
  case (snoc x xs)
  have le: "\<forall>e \<in> set xs. fst e \<le> fst x" and srt: "sorted_keys xs" using snoc.prems(1) by (auto simp: sorted_append)
  define p where "p = (if length xs = 0 then lm else snd (last xs))"
  have rd: "rd ((xs @ [x]) @ ys) (length xs) = Some x" by (simp add: rd_def nth_append)
  have pr: "(if length xs = 0 then Some lm else map_option snd (rd ((xs @ [x]) @ ys) (length xs - 1))) = Some p"
    by (cases xs rule: rev_cases) (auto simp: p_def rd_def nth_append)
  have ne: "p \<noteq> snd x" using snoc.prems(2) by (cases xs rule: rev_cases) (auto simp: p_def)
  have step: "int_loop_bwd lm key ((xs @ [x]) @ ys) (length (xs @ [x]))
      = (if fst x \<le> key then Some (snd x) else int_loop_bwd lm key (xs @ [x] @ ys) (length xs))"
    unfolding length_append_singleton int_loop_bwd.simps pr using rd ne by simp
  show ?case
  proof (cases "fst x \<le> key")
    case True
    then have "\<forall>e \<in> set (xs @ [x]). fst e \<le> key" using le by (auto intro: order_trans)
    then have "takeWhile (\<lambda>e. fst e \<le> key) (xs @ [x]) = xs @ [x]" by (simp only: takeWhile_eq_all_conv)
    then show ?thesis unfolding step using True by (simp add: child_for_def)
  next
    case False
    then have "takeWhile (\<lambda>e. fst e \<le> key) (xs @ [x]) = takeWhile (\<lambda>e. fst e \<le> key) xs"
      by (simp add: takeWhile_tail)
    then have "child_for lm (xs @ [x]) key = child_for lm xs key" by (simp only: child_for_def)
    then show ?thesis
      unfolding step using False snoc.IH [OF srt, of "[x] @ ys"] snoc.prems(2,3) by auto
  qed
qed simp

lemma count_page_shape: "page_shape pg \<Longrightarrow> count_page pg = Some (length (entries pg))"
proof -
  assume shape: "page_shape pg"
  have l: "length (entries pg) < length (records pg)" and li: "last_index (hdr pg) + 1 = int (length (entries pg))"
    using shape by (auto simp: page_shape_def)
  have "scan_count f (records pg) (int (length (entries pg))) = Some (int (length (entries pg)))" for f
    using entries_sentinel [OF l] l by (subst scan_count.simps) (simp add: access_simps)
  then show ?thesis by (simp add: count_page_def li)
qed

lemma child_for_lm: "\<not> (\<exists>e \<in> set xs. fst e \<le> key) \<Longrightarrow> child_for lm xs key = lm"
  by (cases xs) (auto simp: child_for_def)

lemma child_for_nonnull: "lm \<noteq> 0 \<Longrightarrow> \<forall>e \<in> set xs. snd e \<noteq> 0 \<Longrightarrow> child_for lm xs key \<noteq> 0"
  using last_in_set [of "lm # map snd (takeWhile (\<lambda>e. fst e \<le> key) xs)"]
  by (fastforce simp: child_for_def dest: set_takeWhileD)

lemma linear_search_either_way:
  assumes ok: "page_ok pg" and odd: "\<not> IS_FORWARD c"
    and bw: "bw = pg\<lparr>hdr := (hdr pg)\<lparr>switch_counter := c\<rparr>\<rparr>"
    and d: "distinct (leftmost_ptr (hdr pg) # map snd (entries pg))" "distinct (map fst (entries pg))"
    and ne: "leftmost_ptr (hdr pg) \<noteq> 0 \<longrightarrow> entries pg \<noteq> []"
  shows "linear_search H bw key = linear_search H pg key"
proof -
  let ?lm = "leftmost_ptr (hdr pg)"
  have fwd: "IS_FORWARD (switch_counter (hdr pg))" and srt: "sorted_keys (entries pg)"
    using ok by (auto simp: page_ok_def)
  have eq: "entries bw = entries pg" "records bw = records pg" by (simp_all add: bw entries_def)
  have shape: "page_shape bw" using ok unfolding page_ok_shape page_shape_def eq by (simp add: bw)
  obtain z zs where rs: "records pg = entries pg @ z # zs" using shape_split [OF shape] eq by metis
  have nn: "\<forall>e \<in> set (entries pg). snd e \<noteq> 0" using entries_nonnull [of _ pg] by blast
  have cnt: "count_page bw = Some (length (entries pg))" using count_page_shape [OF shape] eq by simp
  have leaf: "leaf_search_bwd key (length (entries pg)) (records pg) = leaf_search_fwd key (records pg)"
    using leaf_search_bwd_ok [OF shape, of key] leaf_search_fwd_ok [OF ok, of key] d first_ptr_rev [OF d(2)] eq
    by simp
  have int: "int_loop_bwd ?lm key (records pg) (length (entries pg))
      = Some (if \<exists>e \<in> set (entries pg). fst e \<le> key then child_for ?lm (entries pg) key else 0)"
    using int_loop_bwd_ok [OF srt d(1) nn, of key "z # zs"] rs by simp
  show ?thesis
  proof (cases "?lm = 0")
    case True
    then show ?thesis using leaf cnt odd fwd eq by (simp add: linear_search_def Let_def bw cong: if_cong)
  next
    case False
    have "int_search_fwd ?lm key (records pg) = Some (child_for ?lm (entries pg) key)"
      using int_search_fwd_ok [OF ok d(1)] ne False by simp
    moreover have "child_for ?lm (entries pg) key \<noteq> 0" by (rule child_for_nonnull [OF False nn])
    moreover have "\<not> (\<exists>e \<in> set (entries pg). fst e \<le> key) \<Longrightarrow> child_for ?lm (entries pg) key = ?lm"
      by (rule child_for_lm)
    ultimately show ?thesis
      using int cnt odd fwd eq False by (simp add: linear_search_def Let_def bw cong: if_cong)
  qed
qed

end
