(* ===== verification/KV_TreeFacts.thy ===== *)
theory KV_TreeFacts
  imports KV_Tree KV_Remove
begin

text \<open>
  The properties of the B+-tree: what a caller of class \<open>btree\<close> may rely on, stated on the
  model's own definitions, and the page operations they rest on.
\<close>

section \<open>A concrete supply of addresses\<close>

definition count_up :: "nat \<Rightarrow> ptr" where
  "count_up i = of_nat (i + 1)"

lemma unat_count_up: "i < 1000 \<Longrightarrow> unat (count_up i) = i + 1"
  by (simp add: count_up_def unat_of_nat take_bit_nat_eq_self del: of_nat_add of_nat_Suc)

lemma count_up_supply:
  assumes "cap \<le> 1000"
  shows "inj_on count_up {..<cap}" "\<forall>i<cap. count_up i \<noteq> 0"
    "unat v > 1000 \<Longrightarrow> value_addr count_up cap v"
proof -
  show "inj_on count_up {..<cap}"
    using unat_count_up assms by (intro inj_onI) (metis add_right_cancel lessThan_iff order.strict_trans2)
  show nz: "\<forall>i<cap. count_up i \<noteq> 0"
  proof (intro allI impI)
    fix i assume "i < cap"
    then have "unat (count_up i) = i + 1" using unat_count_up assms by simp
    then show "count_up i \<noteq> 0" by (metis Suc_eq_plus1 nat.simps(3) unat_0)
  qed
  show "value_addr count_up cap v" if "unat v > 1000"
  proof -
    have "v \<noteq> count_up i" if "i < cap" for i
      using unat_count_up [of i] assms \<open>unat v > 1000\<close> that by auto
    moreover have "v \<noteq> 0" using that by auto
    ultimately show ?thesis by (simp add: value_addr_def)
  qed
qed

text \<open>A fresh tree is usable when the supply is large enough.\<close>

lemma fresh_usable:
  assumes "inj_on mal {..<cap}" "\<forall>i<cap. mal i \<noteq> 0" "1 + n * (n + 2) \<le> cap" "n + 1 < 2 ^ 32"
    and "0 < length pc_mem" "tid < 32" "tid < length nkv_mem"
  obtains b0 where "btree_new mal pc_mem nkv_mem = Some b0"
    "tree_usable mal cap tid n (b0 :: ('k::{linorder,zero}) btree)" "records_of b0 = []"
proof -
  have "mal 0 \<noteq> 0" using assms(2,3) by simp
  then obtain b0 where b0: "btree_new mal pc_mem nkv_mem = Some b0" "tree_ok (b0 :: 'k btree)"
    "records_of b0 = []" "height b0 = 1" "allocs b0 = 1" "dom (heap b0) = {mal 0}"
    "length (page_count b0) = 32" "num_kv b0 = nkv_mem"
    using assms(5) by (rule btree_new_ok)
  have "int n + 1 < 2 ^ 32" using assms(4) by simp
  then have "tree_usable mal cap tid n b0"
    using b0 assms by (simp add: tree_usable_def algebra_simps lessThan_Suc)
  then show ?thesis using that b0 by blast
qed

section \<open>The index\<close>

text \<open>
  C4: Building the tree and searching it. From a fresh tree, the inserts of any sequence of
  records with different keys and different non-null values return, whatever order they come in
  and however many splits they cause, and afterwards \<open>btree_search\<close> of any key returns the value
  put in under it, and null for a key that was not put in. The supply of pages must hold for the
  splits, and values are not page addresses.
\<close>
theorem btree_build_search:
  fixes xs :: "(('k::{linorder,zero}) \<times> ptr) list"
  assumes "inj_on mal {..<cap}" "\<forall>i<cap. mal i \<noteq> 0" "1 + length xs * (length xs + 2) \<le> cap" "length xs + 1 < 2 ^ 32"
    and "0 < length pc_mem" "tid < 32" "tid < length nkv_mem"
    and "distinct (map fst xs)" "distinct (map snd xs)" "\<forall>v \<in> snd ` set xs. value_addr mal cap v"
  shows "\<exists>b0 b. btree_new mal pc_mem nkv_mem = Some b0 \<and> run_puts (tree_put mal tid) xs b0 = Some b \<and>
           btree_search k b = Some (case map_of xs k of None \<Rightarrow> 0 | Some v \<Rightarrow> v)"
proof -
  obtain b0 where b0: "btree_new mal pc_mem nkv_mem = Some b0"
    "tree_usable mal cap tid (length xs + 0) (b0 :: 'k btree)" "records_of b0 = []"
    using fresh_usable [OF assms(1-7)] by auto
  show ?thesis using tree_index.build_get [OF b0(2,3) assms(9,10,8)] b0(1) by blast
qed

definition ten_records :: "(nat \<times> ptr) list" where
  "ten_records = [(7, 2007), (3, 2003), (9, 2009), (1, 2001), (5, 2005), (8, 2008), (2, 2002), (6, 2006), (4, 2004), (10, 2010)]"

lemma ten_records_ok:
  "distinct (map fst ten_records)" "distinct (map snd ten_records)" "length ten_records = 10"
  "\<forall>v \<in> snd ` set ten_records. value_addr count_up 121 v"
  by (simp_all add: ten_records_def count_up_supply(3))

theorem btree_build_search_witness:
  "\<exists>b0 b. btree_new count_up (replicate 32 0) (replicate 32 0) = Some b0 \<and>
     run_puts (tree_put count_up 0) ten_records b0 = Some b \<and> btree_search 6 b = Some 2006"
  using btree_build_search [of count_up 121 ten_records "replicate 32 0" 0 "replicate 32 0" 6]
    count_up_supply [of 121] ten_records_ok by (simp add: ten_records_def)

text \<open>
  C6: Range search after any sequence of inserts, equal keys included. From a fresh tree the
  inserts return, and \<open>btree_search_range lo hi\<close> then returns the values of exactly the records
  with a key strictly between the bounds, in key order, records of equal keys in the order they
  were put in.
\<close>
theorem btree_build_range:
  fixes xs :: "(('k::{linorder,zero}) \<times> ptr) list"
  assumes "inj_on mal {..<cap}" "\<forall>i<cap. mal i \<noteq> 0" "1 + length xs * (length xs + 2) \<le> cap" "length xs + 1 < 2 ^ 32"
    and "0 < length pc_mem" "tid < 32" "tid < length nkv_mem"
    and "distinct (map snd xs)" "\<forall>v \<in> snd ` set xs. value_addr mal cap v"
  shows "\<exists>b0 b. btree_new mal pc_mem nkv_mem = Some b0 \<and> run_puts (tree_put mal tid) xs b0 = Some b \<and>
           btree_search_range lo hi b = Some (map snd (filter (\<lambda>e. lo < fst e \<and> fst e < hi) (sort_key fst xs)))"
proof -
  obtain b0 where b0: "btree_new mal pc_mem nkv_mem = Some b0"
    "tree_usable mal cap tid (length xs + 0) (b0 :: 'k btree)" "records_of b0 = []"
    using fresh_usable [OF assms(1-7)] by auto
  show ?thesis using tree_index.build_ok [OF b0(2,3) assms(8,9)] b0(1) by blast
qed

definition equal_records :: "(nat \<times> ptr) list" where
  "equal_records = [(5, 2001), (3, 2002), (5, 2003), (5, 2004), (9, 2005), (5, 2006), (5, 2007), (3, 2008)]"

lemma equal_records_ok:
  "distinct (map snd equal_records)" "length equal_records = 8"
  "\<forall>v \<in> snd ` set equal_records. value_addr count_up 81 v"
  by (simp_all add: equal_records_def count_up_supply(3))

theorem btree_build_range_witness:
  "\<exists>b0 b. btree_new count_up (replicate 32 0) (replicate 32 0) = Some b0 \<and>
     run_puts (tree_put count_up 0) equal_records b0 = Some b \<and>
     btree_search_range 3 9 b = Some [2001, 2003, 2004, 2006, 2007]"
proof -
  have "map snd (filter (\<lambda>e. 3 < fst e \<and> fst e < 9) (sort_key fst equal_records))
      = [2001, 2003, 2004, 2006, 2007]"
    by (simp add: equal_records_def)
  then show ?thesis
    using btree_build_range [of count_up 81 equal_records "replicate 32 0" 0 "replicate 32 0" 3 9]
      count_up_supply [of 81] equal_records_ok by simp
qed

text \<open>
  C2: One insert on any well-formed tree. With fuel for two calls per level and addresses for one
  page per level and a new root, \<open>btree_insert\<close> returns; the tree is well formed again, holds the
  records it held and the new one behind every record whose key is not greater, has grown by at
  most one level, counts the record for the calling thread, and has kept all its pages.
\<close>
theorem btree_insert_refines:
  fixes b :: "('k::{linorder,zero}) btree"
  assumes "tree_ok b" "right \<noteq> 0" "right \<notin> snd ` set (records_of b)"
    and "supply_ok mal (nat (height b) + 1) b" "height b < 2 ^ 32"
    and "tid < length (page_count b)" "tid < length (num_kv b)" "2 * nat (height b) \<le> f"
  shows "\<exists>b'. btree_insert mal f tid key right b = Some b' \<and> tree_ok b' \<and>
           records_of b' = ins_after key right (records_of b) \<and> sorted_keys (records_of b') \<and>
           (height b' = height b \<or> height b' = height b + 1) \<and>
           num_kv b' = (num_kv b)[tid := num_kv b ! tid + 1] \<and>
           allocs b' \<le> allocs b + nat (height b) + 1 \<and> dom (heap b) \<subseteq> dom (heap b')"
proof -
  obtain b' where b': "btree_insert mal f tid key right b = Some b'" "tree_ok b'"
    "records_of b' = ins_after key right (records_of b)"
    "height b' = height b \<or> height b' = height b + 1"
    "num_kv b' = (num_kv b)[tid := num_kv b ! tid + 1]" "length (page_count b') = length (page_count b)"
    "allocs b \<le> allocs b'" "allocs b' \<le> allocs b + nat (height b) + 1"
    "dom (heap b') = dom (heap b) \<union> mal ` {allocs b..<allocs b'}"
    by (rule btree_insert_ok [OF assms])
  have "sorted_keys (records_of b')" using b'(2) by (rule records_sorted)
  with b' show ?thesis by (metis Un_upper1)
qed

text \<open>A tree whose only leaf is full.\<close>

lemma full_leaf_tree:
  obtains b0 b where "btree_new count_up (replicate 32 0) (replicate 32 0) = Some b0"
    "run_puts (tree_put count_up 0) (take 5 ten_records) b0 = Some b"
    "tree_usable count_up 121 0 5 b" "records_of b = sort_key fst (take 5 ten_records)"
proof -
  note sup = count_up_supply [of 121]
  obtain b0 where b0: "btree_new count_up (replicate 32 0) (replicate 32 0) = Some b0"
    "tree_usable count_up 121 0 10 (b0 :: nat btree)" "records_of b0 = []"
    using fresh_usable [of count_up 121 10 "replicate 32 0" 0 "replicate 32 0"] sup by auto
  have "tree_usable count_up 121 0 (length (take 5 ten_records) + 5) b0" using b0(2) by (simp add: ten_records_def)
  moreover have "distinct (map snd (take 5 ten_records))" "\<forall>v \<in> snd ` set (take 5 ten_records). value_addr count_up 121 v"
    by (simp_all add: ten_records_def sup(3))
  ultimately obtain b where "run_puts (tree_put count_up 0) (take 5 ten_records) b0 = Some b"
      "tree_usable count_up 121 0 5 b" "records_of b = sort_key fst (take 5 ten_records)"
    using tree_index.build_ok [of count_up 121 0 "take 5 ten_records" 5 b0] b0(3) by blast
  then show ?thesis using that b0(1) by blast
qed

theorem btree_insert_refines_witness:
  "\<exists>b :: nat btree. tree_ok b \<and> records_of b = [(1, 2001), (3, 2003), (5, 2005), (7, 2007), (9, 2009)] \<and>
     (\<exists>b'. btree_insert count_up (2 * nat (height b)) 0 4 2004 b = Some b' \<and> tree_ok b' \<and>
        records_of b' = [(1, 2001), (3, 2003), (4, 2004), (5, 2005), (7, 2007), (9, 2009)])"
proof -
  obtain b0 b where b: "tree_usable count_up 121 0 5 b" "records_of b = sort_key fst (take 5 ten_records)"
    using full_leaf_tree by blast
  have rec: "records_of b = [(1, 2001), (3, 2003), (5, 2005), (7, 2007), (9, 2009)]"
    unfolding b(2) by (simp add: ten_records_def)
  have u: "tree_ok b" "height b < 2 ^ 32" "0 < length (page_count b)" "0 < length (num_kv b)"
    using b(1) by (simp_all add: tree_usable_def)
  have "supply_ok count_up (nat (height b) + 1) b" using b(1) usable_supply [of count_up 121 0 4 b] by simp
  then have "\<exists>b'. btree_insert count_up (2 * nat (height b)) 0 4 2004 b = Some b' \<and> tree_ok b' \<and>
      records_of b' = ins_after 4 2004 (records_of b)"
    using btree_insert_refines [of b 2004 count_up 0 "2 * nat (height b)" 4] u rec by auto
  then show ?thesis using rec u(1) by (auto simp: ins_after_def)
qed

text \<open>
  One search on any well-formed tree. \<open>btree_search\<close> returns: the value of a record with the
  key when there is one, null when there is none. Values must not be page addresses, since the
  code takes a result equal to the sibling pointer for "look in the next page".
\<close>
theorem btree_search_finds:
  assumes "tree_ok b" "\<forall>v \<in> snd ` set (records_of b). v \<notin> dom (heap b)"
  shows "\<exists>v. btree_search key b = Some v \<and>
           (if key \<in> fst ` set (records_of b) then (key, v) \<in> set (records_of b) \<and> v \<noteq> 0 else v = 0)"
  using btree_search_ok [OF assms(1), of key] assms(2) unfolding values_ok_def by metis

theorem btree_search_finds_witness:
  "\<exists>b :: nat btree. tree_ok b \<and> btree_search 5 b = Some 2005 \<and> btree_search 6 b = Some 0"
proof -
  obtain b0 b where b: "tree_usable count_up 121 0 5 b" "records_of b = sort_key fst (take 5 ten_records)"
    using full_leaf_tree by blast
  have rec: "records_of b = [(1, 2001), (3, 2003), (5, 2005), (7, 2007), (9, 2009)]"
    unfolding b(2) by (simp add: ten_records_def)
  have d: "dom (heap b) = count_up ` {..<allocs b}" "allocs b \<le> 121" using b(1) by (simp_all add: tree_usable_def)
  have "v \<notin> dom (heap b)" if "unat v > 1000" for v
    unfolding d(1) using count_up_supply(3) [of 121 v] that d(2)
    by (auto simp: value_addr_def dest: order.strict_trans2)
  then have vals: "\<forall>v \<in> snd ` set (records_of b). v \<notin> dom (heap b)" unfolding rec by (simp del: domIff)
  have ok: "tree_ok b" using b(1) by (simp add: tree_usable_def)
  show ?thesis
    using btree_search_finds [OF ok vals, of 5] btree_search_finds [OF ok vals, of 6] ok
    unfolding rec by (intro exI [of _ b]) auto
qed

text \<open>
  One range search on any well-formed tree: the values of the records strictly between the
  bounds, in order, whatever the number of leaves they lie in.
\<close>
theorem btree_search_range_finds:
  assumes "tree_ok b"
  shows "btree_search_range lo hi b = Some (map snd (filter (\<lambda>e. lo < fst e \<and> fst e < hi) (records_of b)))"
  using btree_search_range_ok [OF assms, of lo hi] by (simp add: between_def)

theorem btree_search_range_finds_witness:
  "\<exists>b :: nat btree. tree_ok b \<and> btree_search_range 1 8 b = Some [2003, 2005, 2007]"
proof -
  obtain b0 b where b: "tree_usable count_up 121 0 5 b" "records_of b = sort_key fst (take 5 ten_records)"
    using full_leaf_tree by blast
  have rec: "records_of b = [(1, 2001), (3, 2003), (5, 2005), (7, 2007), (9, 2009)]"
    unfolding b(2) by (simp add: ten_records_def)
  have ok: "tree_ok b" using b(1) by (simp add: tree_usable_def)
  show ?thesis using btree_search_range_finds [OF ok, of 1 8] ok unfolding rec by (intro exI [of _ b]) simp
qed

section \<open>Pages\<close>

text \<open>
  C20: \<open>insert_key\<close> on a page that has room: the record is placed behind every record whose key
  is not greater and before all others, the array is not overrun, and the page is well formed,
  with its last index on the new last record and its other header fields unchanged.
\<close>
theorem insert_key_inserts:
  assumes "page_ok pg" "length (entries pg) + 1 < cardinality" "v \<noteq> 0"
  shows "\<exists>pg'. insert_key key v (length (entries pg)) True pg = Some (pg', length (entries pg) + 1) \<and>
           entries pg' = ins_after key v (entries pg) \<and> page_ok pg' \<and>
           hdr pg' = (hdr pg)\<lparr>last_index := int (length (entries pg))\<rparr>"
  using insert_key_ok [OF assms, of key] by metis

definition page_of_two :: "nat page" where
  "page_of_two = \<lparr>hdr = \<lparr>leftmost_ptr = 0, sibling_ptr = 0, level = 0, switch_counter = 0, is_deleted = False, last_index = 1\<rparr>,
     records = [(10, 100), (20, 200), (0, 0), (0, 0), (0, 0), (0, 0)]\<rparr>"

lemma page_of_two_ok: "page_ok page_of_two" "entries page_of_two = [(10, 100), (20, 200)]"
  by (simp_all add: page_of_two_def page_ok_def entries_def IS_FORWARD_def)

theorem insert_key_inserts_witness:
  "\<exists>pg'. insert_key 15 150 2 True page_of_two = Some (pg', 3) \<and> entries pg' = [(10, 100), (15, 150), (20, 200)]"
proof -
  have n: "length (entries page_of_two) = 2" "(2 :: nat) + 1 = 3"
    and v: "(150 :: ptr) \<noteq> 0" and lt: "length (entries page_of_two) + 1 < cardinality"
    and e: "ins_after 15 150 (entries page_of_two) = [(10, 100), (15, 150), (20, 200)]"
    by (simp_all add: page_of_two_ok cardinality_def ins_after_def)
  show ?thesis
    using insert_key_inserts [OF page_of_two_ok(1) lt v, of 15] unfolding e n by blast
qed

text \<open>
  C21: \<open>remove_key\<close> removes the first record for the key and only that one, reports whether there
  was one, keeps the page well formed but for the direction of its scans, which it turns round.
\<close>
theorem remove_key_removes:
  assumes "page_shape pg"
  shows "\<exists>pg'. remove_key key pg = Some (key \<in> fst ` set (entries pg), pg') \<and>
           entries pg' = remove_first key (entries pg) \<and> page_shape pg' \<and>
           \<not> IS_FORWARD (switch_counter (hdr pg'))"
  using remove_key_ok [OF assms, of key] by metis

theorem remove_key_removes_witness:
  "\<exists>pg'. remove_key 10 page_of_two = Some (True, pg') \<and> entries pg' = [(20, 200)] \<and>
     \<not> IS_FORWARD (switch_counter (hdr pg'))"
  using remove_key_removes [of page_of_two 10] page_of_two_ok by (auto simp: page_ok_shape)

text \<open>
  C24: The direction of a scan does not change its result: on a page with different keys and
  different pointers, \<open>linear_search\<close> returns the same right to left as left to right, in a leaf
  and in an internal page.
\<close>
theorem linear_search_directions_agree:
  assumes "page_ok pg" "\<not> IS_FORWARD c"
    and "distinct (leftmost_ptr (hdr pg) # map snd (entries pg))" "distinct (map fst (entries pg))"
    and "leftmost_ptr (hdr pg) \<noteq> 0 \<longrightarrow> entries pg \<noteq> []"
  shows "linear_search H (pg\<lparr>hdr := (hdr pg)\<lparr>switch_counter := c\<rparr>\<rparr>) key = linear_search H pg key"
  by (rule linear_search_either_way [OF assms(1,2) refl assms(3,4,5)])

theorem linear_search_directions_agree_witness:
  "linear_search Map.empty (page_of_two\<lparr>hdr := (hdr page_of_two)\<lparr>switch_counter := 1\<rparr>\<rparr>) 20
     = linear_search Map.empty page_of_two 20"
  using linear_search_directions_agree [of page_of_two 1 Map.empty 20] page_of_two_ok
  by (simp add: IS_FORWARD_def page_of_two_def)

end
