(* ===== verification/KV_Mem.thy ===== *)
theory KV_Mem
  imports KV_Prelude
begin

text \<open>
  Byte memory with a write-back cache in front of it, for the persistent-memory routines. A
  memory is a partial map from addresses to bytes (undefined where nothing is mapped: an access
  there faults) and the set of bytes whose last value was written by an ordinary store and has
  not been flushed. A non-temporal store bypasses the cache; \<open>clflushopt\<close> writes one line back.
\<close>

section \<open>Memory and accesses\<close>

record nvmem =
  bytes :: "ptr \<Rightarrow> byte option"
  dirty :: "ptr \<Rightarrow> bool"

definition mapped :: "nvmem \<Rightarrow> ptr \<Rightarrow> nat \<Rightarrow> bool" where
  "mapped m a n \<longleftrightarrow> (\<forall>i \<in> set [0..<n]. bytes m (a + of_nat i) \<noteq> None)"

definition mem_load :: "nvmem \<Rightarrow> ptr \<Rightarrow> nat \<Rightarrow> byte list option" where
  "mem_load m a n = (if mapped m a n then Some (map (\<lambda>i. the (bytes m (a + of_nat i))) [0..<n]) else None)"

definition in_range :: "ptr \<Rightarrow> nat \<Rightarrow> ptr \<Rightarrow> bool" where
  "in_range a n p \<longleftrightarrow> unat (p - a) < n"

definition write_bytes :: "(ptr \<Rightarrow> byte option) \<Rightarrow> ptr \<Rightarrow> byte list \<Rightarrow> ptr \<Rightarrow> byte option" where
  "write_bytes f a bs p = (if in_range a (length bs) p then Some (bs ! unat (p - a)) else f p)"

text \<open>An ordinary store, and a non-temporal one.\<close>

definition mem_store :: "nvmem \<Rightarrow> ptr \<Rightarrow> byte list \<Rightarrow> nvmem option" where
  "mem_store m a bs =
     (if mapped m a (length bs)
      then Some (m\<lparr>bytes := write_bytes (bytes m) a bs, dirty := (\<lambda>p. in_range a (length bs) p \<or> dirty m p)\<rparr>)
      else None)"

definition mem_stream :: "nvmem \<Rightarrow> ptr \<Rightarrow> byte list \<Rightarrow> nvmem option" where
  "mem_stream m a bs =
     (if mapped m a (length bs)
      then Some (m\<lparr>bytes := write_bytes (bytes m) a bs, dirty := (\<lambda>p. \<not> in_range a (length bs) p \<and> dirty m p)\<rparr>)
      else None)"

definition line :: "ptr \<Rightarrow> nat" where
  "line p = unat p div 64"

definition clflushopt :: "nvmem \<Rightarrow> ptr \<Rightarrow> nvmem" where
  "clflushopt m a = m\<lparr>dirty := (\<lambda>p. line p \<noteq> line a \<and> dirty m p)\<rparr>"

text \<open>What a copy is meant to do: the bytes that were at the source are at the destination.\<close>

definition memmove :: "ptr \<Rightarrow> ptr \<Rightarrow> nat \<Rightarrow> (ptr \<Rightarrow> byte option) \<Rightarrow> ptr \<Rightarrow> byte option" where
  "memmove dest src n f p = (if in_range dest n p then f (src + (p - dest)) else f p)"

section \<open>Offsets\<close>

lemma unat_offset:
  assumes "unat (a :: ptr) + n \<le> 2 ^ 64" and "i < n"
  shows "unat (a + of_nat i) = unat a + i"
proof -
  have "unat (of_nat i :: ptr) = i" using assms by (simp add: unat_of_nat take_bit_nat_eq_self)
  then show ?thesis using assms by (simp add: unat_plus_if')
qed

lemma in_range_iff:
  assumes "unat a + n \<le> 2 ^ 64"
  shows "in_range a n p \<longleftrightarrow> unat a \<le> unat p \<and> unat p < unat a + n"
proof (cases "a \<le> p")
  case True
  then have "unat (p - a) = unat p - unat a" by (simp add: unat_sub)
  then show ?thesis using True by (auto simp: in_range_def word_le_nat_alt)
next
  case False
  then have lt: "unat p < unat a" by (simp add: word_le_nat_alt)
  then have "unat (p - a) = 2 ^ 64 + unat p - unat a" by (simp add: unat_sub_if')
  then show ?thesis using lt assms by (simp add: in_range_def)
qed

lemma in_range_0 [simp]: "\<not> in_range a 0 p"
  by (simp add: in_range_def)

lemma mapped_0 [simp]: "mapped m a 0"
  by (simp add: mapped_def)

lemma mapped_iff:
  assumes "unat a + n \<le> 2 ^ 64"
  shows "mapped m a n \<longleftrightarrow> (\<forall>p. in_range a n p \<longrightarrow> bytes m p \<noteq> None)"
proof
  assume l: "mapped m a n"
  show "\<forall>p. in_range a n p \<longrightarrow> bytes m p \<noteq> None"
  proof (intro allI impI)
    fix p assume "in_range a n p"
    then have "unat (p - a) < n" by (simp add: in_range_def)
    moreover have "a + of_nat (unat (p - a)) = p" by simp
    ultimately show "bytes m p \<noteq> None" using l unfolding mapped_def by (metis atLeastLessThan_iff set_upt zero_le)
  qed
next
  assume r: "\<forall>p. in_range a n p \<longrightarrow> bytes m p \<noteq> None"
  have "in_range a n (a + of_nat i)" if "i < n" for i
    using that unat_offset [OF assms that] by (simp add: in_range_iff [OF assms])
  then show "mapped m a n" using r by (simp add: mapped_def)
qed

lemma in_range_sub:
  assumes "unat a + n \<le> 2 ^ 64" and "k + j \<le> n" and "in_range (a + of_nat k) j p"
  shows "in_range a n p"
proof (cases "k < n")
  case True
  have "unat (a + of_nat k) = unat a + k" by (rule unat_offset [OF assms(1) True])
  then show ?thesis using assms in_range_iff [of "a + of_nat k" j p] in_range_iff [of a n p] by simp
next
  case False
  then have "j = 0" using assms(2) by simp
  then show ?thesis using assms by simp
qed

lemma mapped_sub:
  assumes "unat a + n \<le> 2 ^ 64" and "k + j \<le> n" and "mapped m a n"
  shows "mapped m (a + of_nat k) j"
proof (cases "k < n")
  case True
  have u: "unat (a + of_nat k) = unat a + k" by (rule unat_offset [OF assms(1) True])
  then show ?thesis
    using assms in_range_sub [OF assms(1,2)] mapped_iff [of "a + of_nat k" j] mapped_iff [of a n] by simp
next
  case False
  then have "j = 0" using assms(2) by simp
  then show ?thesis using assms by simp
qed

lemma load_sub:
  assumes "unat a + n \<le> 2 ^ 64" and "k + j \<le> n" and "mem_load m a n = Some bs"
  shows "mem_load m (a + of_nat k) j = Some (take j (drop k bs))"
proof -
  have mp: "mapped m a n" and bs: "bs = map (\<lambda>i. the (bytes m (a + of_nat i))) [0..<n]"
    using assms(3) by (auto simp: mem_load_def split: if_splits)
  have "map (\<lambda>i. the (bytes m (a + of_nat k + of_nat i))) [0..<j] = take j (drop k bs)"
    unfolding bs using assms(2) by (intro nth_equalityI) (auto simp: algebra_simps)
  then show ?thesis using mapped_sub [OF assms(1,2) mp] by (simp add: mem_load_def)
qed

lemma length_load: "mem_load m a n = Some bs \<Longrightarrow> length bs = n"
  by (auto simp: mem_load_def split: if_splits)

end
