(* ===== verification/KV_NtStore.thy ===== *)
theory KV_NtStore
  imports KV_Mem
begin

text \<open>
  \<open>nvmem_memcpy\<close> of \<open>bufferevent_single/Hikv/ntstore/ntstore.c\<close>: a \<open>memmove\<close> that reaches
  persistent memory. Whole cache lines are written with non-temporal stores, the unaligned head
  and the tail with ordinary stores that are flushed. \<open>size_t\<close> values are natural numbers: the
  code only subtracts from them what it has compared them with. A 128-bit register is the list
  of its 16 bytes, and \<open>_mm_stream_si128\<close> faults on an address that is not a multiple of 16.
\<close>

section \<open>Flushing\<close>

definition FLUSH_ALIGN :: ptr where "FLUSH_ALIGN = 64"

definition util_is_pow2 :: "nat \<Rightarrow> bool" where
  "util_is_pow2 v \<longleftrightarrow> (let w = of_nat v :: u64 in w \<noteq> 0 \<and> and w (w - 1) = 0)"

partial_function (option) flush_loop :: "nvmem \<Rightarrow> ptr \<Rightarrow> ptr \<Rightarrow> nvmem option" where
  "flush_loop m uptr stop =
     (if uptr < stop then flush_loop (clflushopt m uptr) (uptr + FLUSH_ALIGN) stop else Some m)"

definition flushopt :: "nvmem \<Rightarrow> ptr \<Rightarrow> nat \<Rightarrow> nvmem option" where
  "flushopt m addr len = flush_loop m (and addr (not (FLUSH_ALIGN - 1))) (addr + of_nat len)"

section \<open>Copies of at most 64 bytes\<close>

definition memmove_small_sse2_noflush :: "nvmem \<Rightarrow> ptr \<Rightarrow> ptr \<Rightarrow> nat \<Rightarrow> nvmem option" where
  "memmove_small_sse2_noflush m dest src len =
     (if len \<le> 8
      then (if len \<le> 2
            then (if len = 2
                  then do { d \<leftarrow> mem_load m src 2; mem_store m dest d }
                  else do { d \<leftarrow> mem_load m src 1; mem_store m dest d })
            else if len > 4
            then do { d40 \<leftarrow> mem_load m src 4; d41 \<leftarrow> mem_load m (src + of_nat len - 4) 4;
                      m \<leftarrow> mem_store m dest d40; mem_store m (dest + of_nat len - 4) d41 }
            else do { d20 \<leftarrow> mem_load m src 2; d21 \<leftarrow> mem_load m (src + of_nat len - 2) 2;
                      m \<leftarrow> mem_store m dest d20; mem_store m (dest + of_nat len - 2) d21 })
      else if len \<le> 32
      then (if len > 16
            then do { xmm0 \<leftarrow> mem_load m src 16; xmm1 \<leftarrow> mem_load m (src + of_nat len - 16) 16;
                      m \<leftarrow> mem_store m dest xmm0; mem_store m (dest + of_nat len - 16) xmm1 }
            else do { d80 \<leftarrow> mem_load m src 8; d81 \<leftarrow> mem_load m (src + of_nat len - 8) 8;
                      m \<leftarrow> mem_store m dest d80; mem_store m (dest + of_nat len - 8) d81 })
      else if len > 48
      then do { xmm0 \<leftarrow> mem_load m src 16; xmm1 \<leftarrow> mem_load m (src + 16) 16;
                xmm2 \<leftarrow> mem_load m (src + 32) 16; xmm3 \<leftarrow> mem_load m (src + of_nat len - 16) 16;
                m \<leftarrow> mem_store m dest xmm0; m \<leftarrow> mem_store m (dest + 16) xmm1;
                m \<leftarrow> mem_store m (dest + 32) xmm2; mem_store m (dest + of_nat len - 16) xmm3 }
      else do { xmm0 \<leftarrow> mem_load m src 16; xmm1 \<leftarrow> mem_load m (src + 16) 16;
                xmm2 \<leftarrow> mem_load m (src + of_nat len - 16) 16;
                m \<leftarrow> mem_store m dest xmm0; m \<leftarrow> mem_store m (dest + 16) xmm1;
                mem_store m (dest + of_nat len - 16) xmm2 })"

definition memmove_small_sse2 :: "nvmem \<Rightarrow> ptr \<Rightarrow> ptr \<Rightarrow> nat \<Rightarrow> nvmem option" where
  "memmove_small_sse2 m dest src len =
     do { m1 \<leftarrow> memmove_small_sse2_noflush m dest src len; flushopt m1 dest len }"

section \<open>Copies of whole registers\<close>

definition stream_si128 :: "nvmem \<Rightarrow> ptr \<Rightarrow> byte list \<Rightarrow> nvmem option" where
  "stream_si128 m a x = (if a mod 16 = 0 then mem_stream m a x else None)"

text \<open>All loads come before the first store.\<close>

fun loadu_regs :: "nvmem \<Rightarrow> ptr \<Rightarrow> nat \<Rightarrow> byte list list option" where
  "loadu_regs m src 0 = Some []"
| "loadu_regs m src (Suc n) = do { x \<leftarrow> mem_load m src 16; xs \<leftarrow> loadu_regs m (src + 16) n; Some (x # xs) }"

fun stream_regs :: "nvmem \<Rightarrow> ptr \<Rightarrow> byte list list \<Rightarrow> nvmem option" where
  "stream_regs m dest [] = Some m"
| "stream_regs m dest (x # xs) = do { m1 \<leftarrow> stream_si128 m dest x; stream_regs m1 (dest + 16) xs }"

definition memmove_movnt4x64b :: "nvmem \<Rightarrow> ptr \<Rightarrow> ptr \<Rightarrow> nvmem option" where
  "memmove_movnt4x64b m dest src = do { xs \<leftarrow> loadu_regs m src 16; stream_regs m dest xs }"

definition memmove_movnt2x64b :: "nvmem \<Rightarrow> ptr \<Rightarrow> ptr \<Rightarrow> nvmem option" where
  "memmove_movnt2x64b m dest src = do { xs \<leftarrow> loadu_regs m src 8; stream_regs m dest xs }"

definition memmove_movnt1x64b :: "nvmem \<Rightarrow> ptr \<Rightarrow> ptr \<Rightarrow> nvmem option" where
  "memmove_movnt1x64b m dest src = do { xs \<leftarrow> loadu_regs m src 4; stream_regs m dest xs }"

definition memmove_movnt1x32b :: "nvmem \<Rightarrow> ptr \<Rightarrow> ptr \<Rightarrow> nvmem option" where
  "memmove_movnt1x32b m dest src = do { xs \<leftarrow> loadu_regs m src 2; stream_regs m dest xs }"

definition memmove_movnt1x16b :: "nvmem \<Rightarrow> ptr \<Rightarrow> ptr \<Rightarrow> nvmem option" where
  "memmove_movnt1x16b m dest src = do { xs \<leftarrow> loadu_regs m src 1; stream_regs m dest xs }"

definition memmove_movnt1x8b :: "nvmem \<Rightarrow> ptr \<Rightarrow> ptr \<Rightarrow> nvmem option" where
  "memmove_movnt1x8b m dest src = do { x \<leftarrow> mem_load m src 8; mem_stream m dest x }"

definition memmove_movnt1x4b :: "nvmem \<Rightarrow> ptr \<Rightarrow> ptr \<Rightarrow> nvmem option" where
  "memmove_movnt1x4b m dest src = do { x \<leftarrow> mem_load m src 4; mem_stream m dest x }"

section \<open>Forward and backward copies\<close>

text \<open>The locals of the two routines: the memory, the two moving pointers and what is left.\<close>

type_synonym cursor = "nvmem \<times> ptr \<times> ptr \<times> nat"

text \<open>One chunk of a forward copy, with the pointer updates after it.\<close>

definition fw_step :: "nat \<Rightarrow> (nvmem \<Rightarrow> ptr \<Rightarrow> ptr \<Rightarrow> nvmem option) \<Rightarrow> cursor \<Rightarrow> cursor option" where
  "fw_step c f = (\<lambda>(m, dest, src, len).
     do { m1 \<leftarrow> f m dest src; Some (m1, dest + of_nat c, src + of_nat c, len - c) })"

text \<open>One chunk of a backward copy, with the pointer updates before it.\<close>

definition bw_step :: "nat \<Rightarrow> (nvmem \<Rightarrow> ptr \<Rightarrow> ptr \<Rightarrow> nvmem option) \<Rightarrow> cursor \<Rightarrow> cursor option" where
  "bw_step c f = (\<lambda>(m, dest, src, len).
     do { m1 \<leftarrow> f m (dest - of_nat c) (src - of_nat c);
          Some (m1, dest - of_nat c, src - of_nat c, len - c) })"

function loop_4x64 :: "(cursor \<Rightarrow> cursor option) \<Rightarrow> nat \<Rightarrow> cursor \<Rightarrow> cursor option" where
  "loop_4x64 step len st =
     (if len \<ge> 4 * 64 then do { st' \<leftarrow> step st; loop_4x64 step (len - 4 * 64) st' } else Some st)"
  by pat_completeness auto
termination by (relation "measure (\<lambda>(_, len, _). len)") auto

declare loop_4x64.simps [simp del]

definition remaining :: "cursor \<Rightarrow> nat" where
  "remaining = (\<lambda>(m, dest, src, len). len)"

text \<open>The last, partial line: a power of two of at least 4 bytes goes with one or two non-temporal stores.\<close>

definition movnt_tail :: "(nat \<Rightarrow> (nvmem \<Rightarrow> ptr \<Rightarrow> ptr \<Rightarrow> nvmem option) \<Rightarrow> cursor \<Rightarrow> cursor option) \<Rightarrow> cursor \<Rightarrow> cursor option" where
  "movnt_tail step st =
     (let len = remaining st;
          nonnt = step len (\<lambda>m d s. memmove_small_sse2 m d s len) st
      in if len = 0 then Some st
         else if util_is_pow2 len
         then (if len = 32 then step 32 memmove_movnt1x32b st
               else if len = 16 then step 16 memmove_movnt1x16b st
               else if len = 8 then step 8 memmove_movnt1x8b st
               else if len = 4 then step 4 memmove_movnt1x4b st
               else nonnt)
         else nonnt)"

definition movnt_lines :: "(nat \<Rightarrow> (nvmem \<Rightarrow> ptr \<Rightarrow> ptr \<Rightarrow> nvmem option) \<Rightarrow> cursor \<Rightarrow> cursor option) \<Rightarrow> cursor \<Rightarrow> cursor option" where
  "movnt_lines step st =
     do { st \<leftarrow> loop_4x64 (step 256 memmove_movnt4x64b) (remaining st) st;
          st \<leftarrow> (if remaining st \<ge> 2 * 64 then step 128 memmove_movnt2x64b st else Some st);
          (if remaining st \<ge> 1 * 64 then step 64 memmove_movnt1x64b st else Some st) }"

definition memmove_movnt_sse_fw :: "nvmem \<Rightarrow> ptr \<Rightarrow> ptr \<Rightarrow> nat \<Rightarrow> nvmem option" where
  "memmove_movnt_sse_fw m dest src len =
     (let cnt = unat (and dest 63) in
      do { st \<leftarrow> (if cnt > 0
                then (let cnt = (if 64 - cnt > len then len else 64 - cnt)
                      in fw_step cnt (\<lambda>m d s. memmove_small_sse2 m d s cnt) (m, dest, src, len))
                else Some (m, dest, src, len));
           st \<leftarrow> movnt_lines fw_step st;
           st \<leftarrow> movnt_tail fw_step st;
           Some (fst st) })"

definition memmove_movnt_sse_bw :: "nvmem \<Rightarrow> ptr \<Rightarrow> ptr \<Rightarrow> nat \<Rightarrow> nvmem option" where
  "memmove_movnt_sse_bw m dest src len =
     (let dest = dest + of_nat len; src = src + of_nat len; cnt = unat (and dest 63) in
      do { st \<leftarrow> (if cnt > 0
                then (let cnt = (if cnt > len then len else cnt)
                      in bw_step cnt (\<lambda>m d s. memmove_small_sse2 m d s cnt) (m, dest, src, len))
                else Some (m, dest, src, len));
           st \<leftarrow> movnt_lines bw_step st;
           st \<leftarrow> movnt_tail bw_step st;
           Some (fst st) })"

definition nvmem_memcpy :: "nvmem \<Rightarrow> ptr \<Rightarrow> ptr \<Rightarrow> u64 \<Rightarrow> nvmem option" where
  "nvmem_memcpy m dest src len =
     (if dest - src \<ge> len then memmove_movnt_sse_fw m dest src (unat len)
      else memmove_movnt_sse_bw m dest src (unat len))"

end
