(* ===== verification/KV_NtCopy.thy ===== *)
theory KV_NtCopy
  imports KV_NtStore
begin

text \<open>
  The copy routines of \<open>ntstore.c\<close> are correct for every length, alignment and overlap: each
  chunk loads all it needs before it stores, and the direction keeps a chunk's store away from
  the source bytes of the chunks still to come. At the end no destination byte is left dirty in
  the cache.
\<close>

section \<open>Slices of a copy\<close>

text \<open>The bytes \<open>bs\<close> written at \<open>d\<close>, as far as the offsets \<open>S\<close>.\<close>

definition partial_store :: "nvmem \<Rightarrow> ptr \<Rightarrow> byte list \<Rightarrow> nat set \<Rightarrow> nvmem" where
  "partial_store m d bs S =
     m\<lparr>bytes := (\<lambda>p. if in_range d (length bs) p \<and> unat (p - d) \<in> S then Some (bs ! unat (p - d)) else bytes m p),
       dirty := (\<lambda>p. (in_range d (length bs) p \<and> unat (p - d) \<in> S) \<or> dirty m p)\<rparr>"

lemma mapped_partial [simp]:
  "mapped m a n \<Longrightarrow> mapped (partial_store m d bs S) a n"
  by (simp add: mapped_def partial_store_def)

lemma in_range_slice:
  assumes "unat (d :: ptr) + n \<le> 2 ^ 64" and "k + j \<le> n" and "0 < j"
  shows "in_range (d + of_nat k) j p \<longleftrightarrow> in_range d n p \<and> unat (p - d) \<in> {k..<k + j}"
    and "in_range (d + of_nat k) j p \<Longrightarrow> unat (p - (d + of_nat k)) = unat (p - d) - k"
proof -
  have u: "unat (d + of_nat k) = unat d + k" using assms by (intro unat_offset [of d n]) auto
  have a: "unat (d + of_nat k) + j \<le> 2 ^ 64" using assms u by simp
  have sub: "unat (p - d) = unat p - unat d" if "unat d \<le> unat p"
    using that by (simp add: unat_sub word_le_nat_alt)
  show "in_range (d + of_nat k) j p \<longleftrightarrow> in_range d n p \<and> unat (p - d) \<in> {k..<k + j}"
    unfolding in_range_iff [OF a] in_range_iff [OF assms(1)] u using sub assms(2) by auto
  show "in_range (d + of_nat k) j p \<Longrightarrow> unat (p - (d + of_nat k)) = unat (p - d) - k"
    unfolding in_range_iff [OF a] u using sub u
    by (subst unat_sub) (auto simp: word_le_nat_alt)
qed

lemma write_bytes_nil: "write_bytes f a [] = f"
  by (simp add: write_bytes_def fun_eq_iff)

lemma store_slice:
  assumes "unat d + length bs \<le> 2 ^ 64" and "mapped m d (length bs)" and "k + j \<le> length bs"
  shows "mem_store (partial_store m d bs S) (d + of_nat k) (take j (drop k bs))
       = Some (partial_store m d bs (S \<union> {k..<k + j}))"
proof (cases "j = 0")
  case True
  then show ?thesis by (simp add: mem_store_def write_bytes_nil)
next
  case False
  note sl = in_range_slice [OF assms(1,3)]
  have len: "min (length bs - k) j = j" using assms(3) by simp
  have nth: "take j (drop k bs) ! unat (p - (d + of_nat k)) = bs ! unat (p - d)"
    if "in_range (d + of_nat k) j p" for p
    using that sl False assms(3) by auto
  have "mapped (partial_store m d bs S) (d + of_nat k) j"
    using mapped_sub [OF assms(1,3,2)] by simp
  then have mp: "mapped (partial_store m d bs S) (d + of_nat k) (length (take j (drop k bs)))"
    by (simp add: len)
  have "(partial_store m d bs S)\<lparr>bytes := write_bytes (bytes (partial_store m d bs S)) (d + of_nat k) (take j (drop k bs)),
         dirty := (\<lambda>p. in_range (d + of_nat k) (length (take j (drop k bs))) p \<or> dirty (partial_store m d bs S) p)\<rparr>
      = partial_store m d bs (S \<union> {k..<k + j})"
    by (rule nvmem.equality)
       (use nth sl(1) False in \<open>auto simp: write_bytes_def len partial_store_def fun_eq_iff\<close>)
  then show ?thesis using mp by (simp only: mem_store_def if_True)
qed

lemmas store_slice_0 = store_slice [where k = 0, simplified]

lemma partial_store_empty: "partial_store m d bs {} = m"
  by (simp add: partial_store_def)

text \<open>A store at the start and one that ends at the end, at most touching, cover everything.\<close>

lemma ptr_back: "n \<le> len \<Longrightarrow> (d :: ptr) + of_nat len - of_nat n = d + of_nat (len - n)"
  by (simp add: of_nat_diff)

lemma small_noflush:
  assumes ld: "mem_load m s len = Some bs" and mp: "mapped m d len"
    and nw: "unat d + len \<le> 2 ^ 64" "unat s + len \<le> 2 ^ 64" and len: "1 \<le> len" "len \<le> 64"
  shows "memmove_small_sse2_noflush m d s len = Some (partial_store m d bs {0..<len})"
proof -
  have lb: "length bs = len" by (rule length_load [OF ld])
  have L: "mem_load m (s + of_nat k) j = Some (take j (drop k bs))" if "k + j \<le> len" for k j
    by (rule load_sub [OF nw(2) that ld])
  have L0: "mem_load m s j = Some (take j bs)" if "j \<le> len" for j using L [of 0 j] that by simp
  have E: "mem_load m (s + of_nat len - of_nat j) j = Some (take j (drop (len - j) bs))" if "j \<le> len" for j
    unfolding ptr_back [OF that] using that by (intro L) simp
  have S: "mem_store (partial_store m d bs S) (d + of_nat k) (take j (drop k bs))
      = Some (partial_store m d bs (S \<union> {k..<k + j}))" if "k + j \<le> len" for k j S
    using store_slice [of d bs m k j S] nw(1) mp lb that by simp
  have S0: "mem_store m d (take j bs) = Some (partial_store m d bs {0..<j})" if "j \<le> len" for j
    using S [of 0 j "{}"] that by (simp add: partial_store_empty)
  have SE: "mem_store (partial_store m d bs S) (d + of_nat len - of_nat j) (take j (drop (len - j) bs))
      = Some (partial_store m d bs (S \<union> {len - j..<len}))" if "j \<le> len" for j S
    unfolding ptr_back [OF that] using S [of "len - j" j S] that by simp
  note two = E [where j = "numeral k" for k, simplified] SE [where j = "numeral k" for k, simplified]
  note mid = L [where k = 16 and j = 16, simplified] L [where k = 32 and j = 16, simplified]
    S [where k = 16 and j = 16, simplified] S [where k = 32 and j = 16, simplified]
  have un2: "{0..<16} \<union> {16..<32} = {0..<32 :: nat}" "{0..<32} \<union> {32..<48} = {0..<48 :: nat}" by auto
  consider "len = 1" | "len = 2" | "2 < len \<and> len \<le> 4" | "4 < len \<and> len \<le> 8" | "8 < len \<and> len \<le> 16"
    | "16 < len \<and> len \<le> 32" | "32 < len \<and> len \<le> 48" | "48 < len" using len by linarith
  then show ?thesis using len(2)
    by cases
       (simp_all add: memmove_small_sse2_noflush_def L0 S0 two mid un2,
        (intro arg_cong [where f = "partial_store m d bs"], auto)+)
qed

section \<open>Flushing\<close>

lemma and_not_63: "unat (and (a :: ptr) (not 63)) = unat a div 64 * 64"
proof -
  have m: "(63 :: ptr) = mask 6" by (simp add: mask_eq_exp_minus_1)
  have "and a (not 63) = push_bit 6 (drop_bit 6 a)"
    unfolding m by (rule bit_word_eqI) (auto simp: bit_simps)
  also have "\<dots> = drop_bit 6 a * 64" by (simp add: push_bit_eq_mult)
  moreover have "unat (drop_bit 6 a) = unat a div 64" by (subst unat_drop_bit_eq) (simp add: drop_bit_eq_div)
  moreover have "unat a < 2 ^ 64" by (rule order.strict_trans2 [OF unsigned_less]) simp
  then have "unat a div 64 * 64 < 2 ^ 64" by simp
  ultimately show ?thesis by (simp add: unat_word_ariths)
qed

text \<open>Whole lines from the one of the first byte to the one of the last are written back.\<close>

lemma flush_loop_ok:
  assumes "unat u mod 64 = 0" and "unat stop + 64 \<le> 2 ^ 64"
  shows "\<exists>m'. flush_loop m u stop = Some m' \<and> bytes m' = bytes m \<and>
           (\<forall>p. dirty m' p \<longrightarrow> dirty m p \<and> \<not> (unat u \<le> unat p \<and> unat p < unat stop))"
  using assms
proof (induction "unat stop - unat u" arbitrary: u m rule: less_induct)
  case less
  show ?case
  proof (cases "u < stop")
    case False
    then show ?thesis by (subst flush_loop.simps) (simp add: word_less_nat_alt)
  next
    case True
    then have lt: "unat u < unat stop" by (simp add: word_less_nat_alt)
    have u64: "unat (u + 64) = unat u + 64"
      using lt less.prems(2) by (simp add: unat_plus_if')
    have "unat (u + 64) mod 64 = 0" using less.prems(1) u64 by simp
    moreover have "unat stop - unat (u + 64) < unat stop - unat u" using lt u64 by simp
    ultimately have "\<exists>m'. flush_loop (clflushopt m u) (u + 64) stop = Some m' \<and>
        bytes m' = bytes (clflushopt m u) \<and>
        (\<forall>p. dirty m' p \<longrightarrow> dirty (clflushopt m u) p \<and> \<not> (unat (u + 64) \<le> unat p \<and> unat p < unat stop))"
      by (intro less.hyps less.prems(2))
    then obtain m' where m': "flush_loop (clflushopt m u) (u + 64) stop = Some m'"
        "bytes m' = bytes (clflushopt m u)"
        "\<forall>p. dirty m' p \<longrightarrow> dirty (clflushopt m u) p \<and> \<not> (unat (u + 64) \<le> unat p \<and> unat p < unat stop)"
      by blast
    have "\<not> (unat u \<le> unat p \<and> unat p < unat u + 64)" if "line p \<noteq> line u" for p
      using that less.prems(1) by (auto simp: line_def)
    then have "\<forall>p. dirty m' p \<longrightarrow> dirty m p \<and> \<not> (unat u \<le> unat p \<and> unat p < unat stop)"
      using m'(3) unfolding u64 clflushopt_def by (simp, metis not_less)
    moreover have "flush_loop m u stop = Some m'"
      using True m'(1) by (subst flush_loop.simps) (simp add: FLUSH_ALIGN_def)
    ultimately show ?thesis using m'(2) by (simp add: clflushopt_def)
  qed
qed

lemma flushopt_ok:
  assumes "unat a + len + 64 \<le> 2 ^ 64"
  obtains m' where "flushopt m a len = Some m'" "bytes m' = bytes m"
    "\<forall>p. dirty m' p \<longrightarrow> dirty m p \<and> \<not> in_range a len p"
proof -
  let ?u = "and a (not (FLUSH_ALIGN - 1))"
  have "FLUSH_ALIGN - 1 = 63" by (simp add: FLUSH_ALIGN_def)
  then have u: "unat ?u = unat a div 64 * 64" by (simp only: and_not_63)
  have s: "unat (a + of_nat len) = unat a + len"
    using assms by (intro unat_offset [of a "Suc len"]) auto
  obtain m' where m': "flush_loop m ?u (a + of_nat len) = Some m'" "bytes m' = bytes m"
      "\<forall>p. dirty m' p \<longrightarrow> dirty m p \<and> \<not> (unat ?u \<le> unat p \<and> unat p < unat (a + of_nat len))"
    using flush_loop_ok [of ?u "a + of_nat len" m] u s assms by auto
  have "unat ?u \<le> unat a" using u by simp
  then show ?thesis
    using m' assms that [of m'] s by (auto simp: flushopt_def in_range_iff)
qed

section \<open>What a copy leaves behind\<close>

text \<open>The destination holds the source's bytes, none of them dirty, and nothing else has changed.\<close>

definition moved :: "nvmem \<Rightarrow> ptr \<Rightarrow> ptr \<Rightarrow> nat \<Rightarrow> nvmem \<Rightarrow> bool" where
  "moved m d s n m' \<longleftrightarrow>
     bytes m' = memmove d s n (bytes m) \<and> (\<forall>p. dirty m' p \<longrightarrow> dirty m p \<and> \<not> in_range d n p)"

text \<open>What the routines need: both ranges mapped, neither at the very end of the address space.\<close>

definition copy_pre :: "nvmem \<Rightarrow> ptr \<Rightarrow> ptr \<Rightarrow> nat \<Rightarrow> bool" where
  "copy_pre m d s n \<longleftrightarrow>
     mapped m d n \<and> mapped m s n \<and> unat d + n + 64 \<le> 2 ^ 64 \<and> unat s + n \<le> 2 ^ 64"

lemma moved_0: "moved m d s 0 m"
  by (simp add: moved_def memmove_def fun_eq_iff)

lemma loaded_bytes:
  assumes "unat s + n \<le> 2 ^ 64" and "mem_load m s n = Some bs" and "i < n"
  shows "bytes m (s + of_nat i) = Some (bs ! i)"
proof -
  have "mapped m s n" "bs = map (\<lambda>i. the (bytes m (s + of_nat i))) [0..<n]"
    using assms(2) by (auto simp: mem_load_def split: if_splits)
  then show ?thesis using assms(3) by (simp add: mapped_def)
qed

lemma write_is_memmove:
  assumes "unat s + n \<le> 2 ^ 64" and "mem_load m s n = Some bs"
  shows "write_bytes (bytes m) d bs = memmove d s n (bytes m)"
proof
  fix p
  have l: "length bs = n" by (rule length_load [OF assms(2)])
  show "write_bytes (bytes m) d bs p = memmove d s n (bytes m) p"
  proof (cases "in_range d n p")
    case True
    then have "unat (p - d) < n" by (simp add: in_range_def)
    then have "bytes m (s + of_nat (unat (p - d))) = Some (bs ! unat (p - d))"
      by (rule loaded_bytes [OF assms])
    then show ?thesis using True l by (simp add: write_bytes_def memmove_def)
  qed (simp add: write_bytes_def memmove_def l)
qed

lemma small_sse2_ok:
  assumes pre: "copy_pre m d s len" and len: "1 \<le> len" "len \<le> 64"
  shows "\<exists>m'. memmove_small_sse2 m d s len = Some m' \<and> moved m d s len m'"
proof -
  obtain bs where bs: "mem_load m s len = Some bs" using pre by (simp add: copy_pre_def mem_load_def)
  have lb: "length bs = len" by (rule length_load [OF bs])
  have nw: "unat d + len \<le> 2 ^ 64" "unat s + len \<le> 2 ^ 64" "unat d + len + 64 \<le> 2 ^ 64"
    and mp: "mapped m d len" using pre by (simp_all add: copy_pre_def)
  define m1 where "m1 = partial_store m d bs {0..<len}"
  have s1: "memmove_small_sse2_noflush m d s len = Some m1"
    unfolding m1_def by (rule small_noflush [OF bs mp nw(1,2) len])
  have off: "in_range d len p \<Longrightarrow> unat (p - d) < len" for p by (simp add: in_range_def)
  have b1: "bytes m1 = memmove d s len (bytes m)"
    unfolding write_is_memmove [OF nw(2) bs, symmetric] m1_def partial_store_def
    using off by (auto simp: write_bytes_def lb fun_eq_iff)
  have d1: "dirty m1 p \<longleftrightarrow> in_range d len p \<or> dirty m p" for p
    using off by (auto simp: m1_def partial_store_def lb)
  obtain m' where m': "flushopt m1 d len = Some m'" "bytes m' = bytes m1"
      "\<forall>p. dirty m' p \<longrightarrow> dirty m1 p \<and> \<not> in_range d len p" by (rule flushopt_ok [OF nw(3), of m1])
  then have "moved m d s len m'" using b1 d1 by (auto simp: moved_def)
  then show ?thesis using s1 m'(1) by (simp add: memmove_small_sse2_def)
qed

section \<open>Register copies\<close>

lemma stream_is_moved:
  assumes "copy_pre m d s n" and "mem_load m s n = Some bs"
  shows "\<exists>m'. mem_stream m d bs = Some m' \<and> moved m d s n m'"
proof -
  have l: "length bs = n" by (rule length_load [OF assms(2)])
  have "unat s + n \<le> 2 ^ 64" "mapped m d n" using assms(1) by (simp_all add: copy_pre_def)
  then show ?thesis
    using write_is_memmove [OF _ assms(2), of d] l by (simp add: mem_stream_def moved_def)
qed

lemma map_upt_split: "map f [0..<a + b] = map f [0..<a] @ map (\<lambda>i. f (a + i)) [0..<b]"
  by (intro nth_equalityI) (auto simp: nth_append)

lemma mapped_plus:
  "mapped m a (j + k) \<longleftrightarrow> mapped m a j \<and> mapped m (a + of_nat j) k"
proof -
  have "(\<forall>i < j + k. P i) \<longleftrightarrow> (\<forall>i < j. P i) \<and> (\<forall>i < k. P (j + i))" for P :: "nat \<Rightarrow> bool"
    by (metis add_diff_inverse_nat nat_add_left_cancel_less not_less trans_less_add1)
  then show ?thesis by (simp add: mapped_def add.assoc Ball_def)
qed

lemma load_plus:
  "mem_load m a (j + k) = do { xs \<leftarrow> mem_load m a j; ys \<leftarrow> mem_load m (a + of_nat j) k; Some (xs @ ys) }"
  by (auto simp: mem_load_def mapped_plus map_upt_split add.assoc)

lemma loadu_regs_ok:
  assumes "mem_load m s (16 * n) = Some bs"
  shows "\<exists>xs. loadu_regs m s n = Some xs \<and> concat xs = bs \<and> (\<forall>x \<in> set xs. length x = 16)"
  using assms
proof (induction n arbitrary: s bs)
  case 0
  then show ?case by (simp add: mem_load_def)
next
  case (Suc n)
  have "16 * Suc n = 16 + 16 * n" by simp
  then obtain x ys where x: "mem_load m s 16 = Some x" "mem_load m (s + 16) (16 * n) = Some ys" "bs = x @ ys"
    using Suc.prems load_plus [of m s 16 "16 * n"] by (auto split: Option.bind_splits)
  then show ?case using Suc.IH [OF x(2)] length_load [OF x(1)] by auto
qed

lemma stream_append:
  assumes nw: "unat d + length (xs @ ys) \<le> 2 ^ 64"
  shows "mem_stream m d (xs @ ys) = do { m1 \<leftarrow> mem_stream m d xs; mem_stream m1 (d + of_nat (length xs)) ys }"
proof (cases "ys = []")
  case True
  then show ?thesis by (auto simp: mem_stream_def write_bytes_nil split: Option.bind_splits)
next
  case False
  let ?n = "length xs + length ys" and ?d = "d + of_nat (length xs)"
  note sl = in_range_slice [of d ?n "length xs" "length ys"]
  have sl1: "in_range ?d (length ys) p \<longleftrightarrow> length xs \<le> unat (p - d) \<and> unat (p - d) < ?n" for p
    using sl(1) [of p] nw False by (auto simp: in_range_def [of d])
  have sl2: "unat (p - ?d) = unat (p - d) - length xs" if "length xs \<le> unat (p - d)" "unat (p - d) < ?n" for p
    using sl(2) [of p] nw False that sl1 by simp
  have sl0: "in_range d n p \<longleftrightarrow> unat (p - d) < n" for p n by (simp add: in_range_def)
  have w: "write_bytes (write_bytes f d xs) ?d ys = write_bytes f d (xs @ ys)" for f
    by (auto simp: write_bytes_def fun_eq_iff sl1 sl2 sl0 nth_append)
  have "mapped (m\<lparr>bytes := write_bytes (bytes m) d xs, dirty := D\<rparr>) ?d (length ys) \<longleftrightarrow> mapped m ?d (length ys)"
    if mp: "mapped m d (length xs)" for D
  proof -
    have "in_range d (length xs) p \<Longrightarrow> bytes m p \<noteq> None" for p
      using mp mapped_iff [of d "length xs" m] nw by simp
    then have "write_bytes (bytes m) d xs p \<noteq> None \<longleftrightarrow> bytes m p \<noteq> None" for p
      by (auto simp: write_bytes_def)
    then show ?thesis by (simp add: mapped_def)
  qed
  moreover have "(\<lambda>p. \<not> in_range ?d (length ys) p \<and> \<not> in_range d (length xs) p \<and> dirty m p)
      = (\<lambda>p. \<not> in_range d ?n p \<and> dirty m p)"
    by (auto simp: fun_eq_iff sl1 sl0)
  ultimately show ?thesis by (simp add: mem_stream_def mapped_plus w)
qed

lemma aligned_iff: "(a :: ptr) mod 16 = 0 \<longleftrightarrow> unat a mod 16 = 0"
  by (simp add: word_unat_eq_iff unat_mod)

lemma stream_regs_ok:
  assumes "\<forall>x \<in> set xs. length x = 16" and "unat d mod 16 = 0" and "unat d + length (concat xs) + 64 \<le> 2 ^ 64"
  shows "stream_regs m d xs = mem_stream m d (concat xs)"
  using assms
proof (induction xs arbitrary: m d)
  case Nil
  then show ?case by (simp add: mem_stream_def write_bytes_nil)
next
  case (Cons x xs)
  have u: "unat (d + 16) = unat d + 16" using Cons.prems(3) by (simp add: unat_plus_if')
  have "stream_regs m1 (d + 16) xs = mem_stream m1 (d + 16) (concat xs)" for m1
    by (rule Cons.IH) (use Cons.prems u in auto)
  then show ?case
    using Cons.prems stream_append [of d x "concat xs" m] by (simp add: stream_si128_def aligned_iff)
qed

text \<open>A copier of \<open>n\<close> bytes moves them, whenever the destination is aligned to \<open>a\<close> bytes.\<close>

definition copies :: "nat \<Rightarrow> nat \<Rightarrow> (nvmem \<Rightarrow> ptr \<Rightarrow> ptr \<Rightarrow> nvmem option) \<Rightarrow> bool" where
  "copies a n f \<longleftrightarrow> (\<forall>m d s. copy_pre m d s n \<longrightarrow> unat d mod a = 0 \<longrightarrow>
     (\<exists>m'. f m d s = Some m' \<and> moved m d s n m'))"

lemma regs_copies:
  "copies 16 (16 * k) (\<lambda>m d s. do { xs \<leftarrow> loadu_regs m s k; stream_regs m d xs })"
  unfolding copies_def
proof (intro allI impI)
  fix m d s assume pre: "copy_pre m d s (16 * k)" and al: "unat d mod 16 = 0"
  obtain bs where bs: "mem_load m s (16 * k) = Some bs" using pre by (simp add: copy_pre_def mem_load_def)
  obtain xs where xs: "loadu_regs m s k = Some xs" "concat xs = bs" "\<forall>x \<in> set xs. length x = 16"
    using loadu_regs_ok [OF bs] by blast
  have "length bs = 16 * k" by (rule length_load [OF bs])
  then have "stream_regs m d xs = mem_stream m d bs"
    using stream_regs_ok [OF xs(3) al, of m] pre xs(2) by (simp add: copy_pre_def)
  then show "\<exists>m'. do { xs \<leftarrow> loadu_regs m s k; stream_regs m d xs } = Some m' \<and> moved m d s (16 * k) m'"
    using stream_is_moved [OF pre bs] xs(1) by simp
qed

lemma plain_copies: "copies 1 n (\<lambda>m d s. do { x \<leftarrow> mem_load m s n; mem_stream m d x })"
  unfolding copies_def
proof (intro allI impI)
  fix m d s assume pre: "copy_pre m d s n"
  obtain bs where bs: "mem_load m s n = Some bs" using pre by (simp add: copy_pre_def mem_load_def)
  show "\<exists>m'. do { x \<leftarrow> mem_load m s n; mem_stream m d x } = Some m' \<and> moved m d s n m'"
    using stream_is_moved [OF pre bs] bs by simp
qed

lemma small_copies: "1 \<le> n \<Longrightarrow> n \<le> 64 \<Longrightarrow> copies 1 n (\<lambda>m d s. memmove_small_sse2 m d s n)"
  using small_sse2_ok by (simp add: copies_def)

lemma copies_weaken: "copies a n f \<Longrightarrow> a dvd b \<Longrightarrow> copies b n f"
  unfolding copies_def by (meson dvd_trans mod_eq_0_iff_dvd)

lemma movnt_copies:
  "copies 64 256 memmove_movnt4x64b" "copies 64 128 memmove_movnt2x64b" "copies 64 64 memmove_movnt1x64b"
  "copies 32 32 memmove_movnt1x32b" "copies 16 16 memmove_movnt1x16b"
  "copies 1 8 memmove_movnt1x8b" "copies 1 4 memmove_movnt1x4b"
  using regs_copies [of 16] regs_copies [of 8] regs_copies [of 4] regs_copies [of 2] regs_copies [of 1]
    plain_copies [of 8] plain_copies [of 4]
  by (auto simp: memmove_movnt4x64b_def [abs_def] memmove_movnt2x64b_def [abs_def] memmove_movnt1x64b_def [abs_def]
      memmove_movnt1x32b_def [abs_def] memmove_movnt1x16b_def [abs_def] memmove_movnt1x8b_def [abs_def]
      memmove_movnt1x4b_def [abs_def] intro: copies_weaken)

end
