(* ===== verification/KV_NtMove.thy ===== *)
theory KV_NtMove
  imports KV_NtCopy
begin

text \<open>
  The two directions of \<open>nvmem_memcpy\<close>. What they share is stated as a contract of their chunk
  step, from which the treatment of whole lines and of the tail is proved once; the forward and
  the backward step are its two instances.
\<close>

section \<open>Chunks compose\<close>

definition forward :: "ptr \<Rightarrow> ptr \<Rightarrow> nat \<Rightarrow> bool" where
  "forward d s n \<longleftrightarrow> unat d < unat s \<or> unat s + n \<le> unat d"

lemma slice_cases:
  assumes "unat (d :: ptr) + (k + j) \<le> 2 ^ 64"
  shows "in_range (d + of_nat k) j p \<longleftrightarrow> k \<le> unat (p - d) \<and> unat (p - d) < k + j"
proof (cases "j = 0")
  case False
  then show ?thesis using in_range_slice(1) [OF assms, of k j p] by (auto simp: in_range_def [of d])
qed (auto simp: in_range_def)

lemma src_offset:
  assumes "unat (s :: ptr) + n \<le> 2 ^ 64" and "unat (p - d) < n"
  shows "unat (s + (p - d)) = unat s + unat (p - d)"
  using unat_offset [OF assms] by simp

lemma memmove_fw:
  assumes nw: "unat d + (k + j) \<le> 2 ^ 64" "unat s + (k + j) \<le> 2 ^ 64" and f: "forward d s (k + j)"
  shows "memmove (d + of_nat k) (s + of_nat k) j (memmove d s k g) = memmove d s (k + j) g"
proof
  fix p
  let ?o = "unat (p - d)"
  consider "?o < k" | "k \<le> ?o \<and> ?o < k + j" | "k + j \<le> ?o" by linarith
  then show "memmove (d + of_nat k) (s + of_nat k) j (memmove d s k g) p = memmove d s (k + j) g p"
  proof cases
    case 2
    have eq: "s + of_nat k + (p - (d + of_nat k)) = s + (p - d)" by (simp add: algebra_simps)
    have "unat (s + (p - d)) = unat s + ?o" using 2 by (intro src_offset [OF nw(2)]) simp
    then have "\<not> in_range d k (s + (p - d))"
      using f 2 nw in_range_iff [of d k "s + (p - d)"] by (auto simp: forward_def)
    then show ?thesis using 2 slice_cases [OF nw(1)] by (simp add: memmove_def eq) (simp add: in_range_def)
  qed (use slice_cases [OF nw(1)] in \<open>auto simp: memmove_def in_range_def [of d]\<close>)
qed

lemma memmove_bw:
  assumes nw: "unat d + (k + j) \<le> 2 ^ 64" "unat s + (k + j) \<le> 2 ^ 64" and b: "unat s \<le> unat d"
  shows "memmove d s k (memmove (d + of_nat k) (s + of_nat k) j g) = memmove d s (k + j) g"
proof
  fix p
  let ?o = "unat (p - d)"
  consider "?o < k" | "k \<le> ?o \<and> ?o < k + j" | "k + j \<le> ?o" by linarith
  then show "memmove d s k (memmove (d + of_nat k) (s + of_nat k) j g) p = memmove d s (k + j) g p"
  proof cases
    case 1
    have u: "unat (s + (p - d)) = unat s + ?o" using 1 by (intro src_offset [OF nw(2)]) simp
    have "\<not> in_range (d + of_nat k) j (s + (p - d))"
    proof (cases "j = 0")
      case False
      then have "unat (d + of_nat k) = unat d + k" using nw(1) by (intro unat_offset [of d "k + j"]) auto
      then show ?thesis using in_range_iff [of "d + of_nat k" j] u 1 b nw(1) by simp
    qed simp
    then show ?thesis using 1 by (simp add: memmove_def in_range_def [of d])
  next
    case 2
    have eq: "s + of_nat k + (p - (d + of_nat k)) = s + (p - d)" by (simp add: algebra_simps)
    show ?thesis using 2 slice_cases [OF nw(1), of p] by (simp add: memmove_def eq in_range_def [of d])
  qed (use slice_cases [OF nw(1)] in \<open>auto simp: memmove_def in_range_def [of d]\<close>)
qed

lemma moved_fw:
  assumes "unat d + (k + j) \<le> 2 ^ 64" "unat s + (k + j) \<le> 2 ^ 64" "forward d s (k + j)"
    and "moved m d s k m1" "moved m1 (d + of_nat k) (s + of_nat k) j m2"
  shows "moved m d s (k + j) m2"
  using assms(4,5) memmove_fw [OF assms(1-3)] slice_cases [OF assms(1)]
  unfolding moved_def in_range_def [of d] by (metis not_less)

lemma moved_bw:
  assumes "unat d + (k + j) \<le> 2 ^ 64" "unat s + (k + j) \<le> 2 ^ 64" "unat s \<le> unat d"
    and "moved m (d + of_nat k) (s + of_nat k) j m1" "moved m1 d s k m2"
  shows "moved m d s (k + j) m2"
  using assms(4,5) memmove_bw [OF assms(1-3)] slice_cases [OF assms(1)]
  unfolding moved_def in_range_def [of d] by (metis not_less)

lemma moved_mapped:
  assumes mv: "moved m d s k m1" and nw: "unat s + k \<le> 2 ^ 64" and s: "mapped m s k" and a: "mapped m a n"
  shows "mapped m1 a n"
proof -
  have "bytes m1 p \<noteq> None" if "bytes m p \<noteq> None" for p
  proof (cases "in_range d k p")
    case True
    then have l: "unat (p - d) < k" by (simp add: in_range_def)
    then have "in_range s k (s + (p - d))" by (simp add: in_range_def)
    then have "bytes m (s + (p - d)) \<noteq> None" using s mapped_iff [OF nw, of m] by blast
    then show ?thesis using mv True by (simp add: moved_def memmove_def)
  next
    case False
    then show ?thesis using mv that by (simp add: moved_def memmove_def)
  qed
  then show ?thesis using a by (simp add: mapped_def)
qed

section \<open>The contract of a chunk step\<close>

definition at_dest :: "cursor \<Rightarrow> ptr" where
  "at_dest = (\<lambda>(m, dest, src, len). dest)"

definition dest_aligned :: "nat \<Rightarrow> cursor \<Rightarrow> bool" where
  "dest_aligned a st \<longleftrightarrow> unat (at_dest st) mod a = 0"

locale chunk_step =
  fixes step :: "nat \<Rightarrow> (nvmem \<Rightarrow> ptr \<Rightarrow> ptr \<Rightarrow> nvmem option) \<Rightarrow> cursor \<Rightarrow> cursor option"
    and inv :: "cursor \<Rightarrow> bool"
  assumes step_law: "inv st \<Longrightarrow> c \<le> remaining st \<Longrightarrow> copies a c f \<Longrightarrow> a dvd c \<Longrightarrow> dest_aligned a st \<Longrightarrow>
      \<exists>st'. step c f st = Some st' \<and> inv st' \<and> remaining st' = remaining st - c \<and> dest_aligned a st'"
begin

lemma loop_ok:
  assumes "inv st" "dest_aligned 64 st" "len = remaining st"
  shows "\<exists>st'. loop_4x64 (step 256 memmove_movnt4x64b) len st = Some st' \<and> inv st' \<and>
           remaining st' < 256 \<and> dest_aligned 64 st'"
  using assms
proof (induction len arbitrary: st rule: less_induct)
  case (less len)
  show ?case
  proof (cases "256 \<le> len")
    case True
    obtain st1 where st1: "step 256 memmove_movnt4x64b st = Some st1" "inv st1"
        "remaining st1 = len - 256" "dest_aligned 64 st1"
      using step_law [OF less.prems(1) _ movnt_copies(1)] less.prems True by auto
    have "\<exists>st'. loop_4x64 (step 256 memmove_movnt4x64b) (len - 256) st1 = Some st' \<and> inv st' \<and>
           remaining st' < 256 \<and> dest_aligned 64 st'"
      by (rule less.IH) (use True st1 in auto)
    then show ?thesis using True st1(1) by (subst loop_4x64.simps) simp
  next
    case False
    then show ?thesis using less.prems by (subst loop_4x64.simps) simp
  qed
qed

lemma guarded_step:
  assumes "inv st" "dest_aligned 64 st" "copies 64 c f" "64 dvd c" "remaining st < 2 * c"
  shows "\<exists>st'. (if remaining st \<ge> c then step c f st else Some st) = Some st' \<and> inv st' \<and>
           remaining st' < c \<and> dest_aligned 64 st'"
proof (cases "remaining st \<ge> c")
  case True
  obtain st' where "step c f st = Some st'" "inv st'" "remaining st' = remaining st - c"
      "dest_aligned 64 st'"
    using step_law [OF assms(1) True assms(3,4,2)] by blast
  then show ?thesis using True assms(5) by simp
next
  case False
  then show ?thesis using assms(1,2) by simp
qed

lemma lines_ok:
  assumes "inv st" "dest_aligned 64 st"
  shows "\<exists>st'. movnt_lines step st = Some st' \<and> inv st' \<and> remaining st' < 64 \<and> dest_aligned 64 st'"
proof -
  obtain s1 where s1: "loop_4x64 (step 256 memmove_movnt4x64b) (remaining st) st = Some s1" "inv s1"
      "remaining s1 < 256" "dest_aligned 64 s1" using loop_ok [OF assms refl] by blast
  obtain s2 where s2: "(if remaining s1 \<ge> 128 then step 128 memmove_movnt2x64b s1 else Some s1) = Some s2"
      "inv s2" "remaining s2 < 128" "dest_aligned 64 s2"
    using guarded_step [OF s1(2,4) movnt_copies(2)] s1(3) by auto
  obtain s3 where s3: "(if remaining s2 \<ge> 64 then step 64 memmove_movnt1x64b s2 else Some s2) = Some s3"
      "inv s3" "remaining s3 < 64" "dest_aligned 64 s3"
    using guarded_step [OF s2(2,4) movnt_copies(3)] s2(3) by auto
  show ?thesis using s1(1) s2(1) s3 by (simp add: movnt_lines_def)
qed

lemma tail_ok:
  assumes "inv st" "remaining st < 64" "dest_aligned 64 st"
  shows "\<exists>st'. movnt_tail step st = Some st' \<and> inv st' \<and> remaining st' = 0"
proof (cases "remaining st = 0")
  case True
  then show ?thesis using assms by (simp add: movnt_tail_def)
next
  case False
  let ?n = "remaining st"
  have al: "dest_aligned a st" if "a dvd 64" for a
    using assms(3) that unfolding dest_aligned_def by (meson dvd_trans mod_eq_0_iff_dvd)
  have small: "\<exists>st'. step ?n (\<lambda>m d s. memmove_small_sse2 m d s ?n) st = Some st' \<and> inv st' \<and> remaining st' = 0"
    using step_law [OF assms(1) order_refl small_copies] assms(2) False al by auto
  have nt: "\<exists>st'. step ?n f st = Some st' \<and> inv st' \<and> remaining st' = 0"
    if "copies a ?n f" "a dvd ?n" "a dvd 64" for a f
    using step_law [OF assms(1) order_refl that(1,2) al [OF that(3)]] by auto
  show ?thesis
    using False small nt [of 32 memmove_movnt1x32b] nt [of 16 memmove_movnt1x16b]
      nt [of 1 memmove_movnt1x8b] nt [of 1 memmove_movnt1x4b] movnt_copies(4-7)
    by (auto simp: movnt_tail_def Let_def)
qed

text \<open>From a line boundary, or with nothing left, everything is copied.\<close>

lemma body_ok:
  assumes "inv st" "dest_aligned 64 st \<or> remaining st = 0"
  shows "\<exists>st'. do { st \<leftarrow> movnt_lines step st; movnt_tail step st } = Some st' \<and> inv st' \<and> remaining st' = 0"
proof (cases "remaining st = 0")
  case True
  then have "movnt_lines step st = Some st" by (simp add: movnt_lines_def loop_4x64.simps)
  then show ?thesis using True assms(1) by (simp add: movnt_tail_def)
next
  case False
  then have al: "dest_aligned 64 st" using assms(2) by simp
  obtain s1 where s1: "movnt_lines step st = Some s1" "inv s1" "remaining s1 < 64" "dest_aligned 64 s1"
    using lines_ok [OF assms(1) al] by blast
  then show ?thesis using tail_ok [OF s1(2-4)] by simp
qed

end

section \<open>The two directions\<close>

definition fw_inv :: "nvmem \<Rightarrow> ptr \<Rightarrow> ptr \<Rightarrow> nat \<Rightarrow> cursor \<Rightarrow> bool" where
  "fw_inv M D S N = (\<lambda>(m, dest, src, len).
     copy_pre M D S N \<and> forward D S N \<and> len \<le> N \<and> dest = D + of_nat (N - len) \<and> src = S + of_nat (N - len) \<and>
     moved M D S (N - len) m)"

definition bw_inv :: "nvmem \<Rightarrow> ptr \<Rightarrow> ptr \<Rightarrow> nat \<Rightarrow> cursor \<Rightarrow> bool" where
  "bw_inv M D S N = (\<lambda>(m, dest, src, len).
     copy_pre M D S N \<and> unat S \<le> unat D \<and> len \<le> N \<and> dest = D + of_nat len \<and> src = S + of_nat len \<and>
     moved M (D + of_nat len) (S + of_nat len) (N - len) m)"

lemma copy_pre_sub:
  assumes pre: "copy_pre M D S N" and "k + c \<le> N" and mv: "moved M D' S' n m" "copy_pre M D' S' n"
  shows "copy_pre m (D + of_nat k) (S + of_nat k) c"
proof -
  have nw: "unat D + N + 64 \<le> 2 ^ 64" "unat S + N \<le> 2 ^ 64" using pre by (simp_all add: copy_pre_def)
  have "unat (D + of_nat k) = unat D + k" using nw(1) assms(2) by (intro unat_offset [of D "N + 1"]) auto
  moreover have "unat (S + of_nat k) + c \<le> 2 ^ 64"
  proof (cases "c = 0")
    case True
    have "unat (S + of_nat k) < 2 ^ 64" by (rule order.strict_trans2 [OF unsigned_less]) simp
    then show ?thesis using True by simp
  next
    case False
    then have "unat (S + of_nat k) = unat S + k" using nw(2) assms(2) by (intro unat_offset [of S N]) auto
    then show ?thesis using nw(2) assms(2) by simp
  qed
  moreover have "mapped m (D + of_nat k) c" "mapped m (S + of_nat k) c"
    using mapped_sub [of D N k c M] mapped_sub [of S N k c M] nw assms(2) pre mv
    by (auto simp: copy_pre_def intro: moved_mapped)
  ultimately show ?thesis using nw assms(2) by (simp add: copy_pre_def)
qed

lemma copy_pre_part:
  assumes "copy_pre M D S N" and "k + c \<le> N"
  shows "copy_pre M (D + of_nat k) (S + of_nat k) c"
  by (rule copy_pre_sub [OF assms moved_0 [of M D S]]) (use assms(1) in \<open>simp add: copy_pre_def\<close>)

lemma copiesD:
  "copies a n f \<Longrightarrow> copy_pre m d s n \<Longrightarrow> unat d mod a = 0 \<Longrightarrow> \<exists>m'. f m d s = Some m' \<and> moved m d s n m'"
  by (simp add: copies_def)

lemma cursor_offset:
  assumes "copy_pre M D S N" and "k \<le> N"
  shows "unat (D + of_nat k) = unat D + k"
  using assms by (intro unat_offset [of D "N + 1"]) (auto simp: copy_pre_def)

lemma fw_step_law:
  assumes inv: "fw_inv M D S N st" and c: "c \<le> remaining st" and f: "copies a c f" "a dvd c"
    and al: "dest_aligned a st"
  shows "\<exists>st'. fw_step c f st = Some st' \<and> fw_inv M D S N st' \<and> remaining st' = remaining st - c \<and>
           dest_aligned a st'"
proof -
  obtain m dest src len where st: "st = (m, dest, src, len)" by (cases st) auto
  define k where "k = N - len"
  have i: "copy_pre M D S N" "forward D S N" "len \<le> N" "dest = D + of_nat k" "src = S + of_nat k" "moved M D S k m"
    and cl: "c \<le> len"
    using inv c by (auto simp: st fw_inv_def k_def remaining_def)
  have kc: "k + c \<le> N" "N - (len - c) = k + c" using i(3) cl by (auto simp: k_def)
  have preD: "copy_pre M D S k"
    using copy_pre_part [OF i(1), of 0 k] i(3) by (simp add: k_def)
  have "copy_pre m dest src c" unfolding i(4,5) by (rule copy_pre_sub [OF i(1) kc(1) i(6) preD])
  moreover have "unat dest mod a = 0" using al unfolding dest_aligned_def at_dest_def st by simp
  ultimately have "\<exists>m1. f m dest src = Some m1 \<and> moved m dest src c m1" by (rule copiesD [OF f(1)])
  then obtain m1 where m1: "f m dest src = Some m1" "moved m dest src c m1" by (elim exE conjE)
  have nw: "unat D + (k + c) \<le> 2 ^ 64" "unat S + (k + c) \<le> 2 ^ 64" "forward D S (k + c)"
    using i(1,2) kc by (auto simp: copy_pre_def forward_def)
  have "moved M D S (k + c) m1" using moved_fw [OF nw i(6)] m1(2) i(4,5) by simp
  then have inv': "fw_inv M D S N (m1, dest + of_nat c, src + of_nat c, len - c)"
    using i cl kc by (simp add: fw_inv_def add.assoc)
  have "unat (dest + of_nat c) = unat dest + c"
    using cursor_offset [OF i(1), of k] cursor_offset [OF i(1) kc(1)] kc(1) i(4) by (simp add: add.assoc)
  then have "dest_aligned a (m1, dest + of_nat c, src + of_nat c, len - c)"
    using al f(2) by (auto simp: dest_aligned_def at_dest_def st mod_eq_0_iff_dvd)
  with inv' m1(1) show ?thesis by (simp add: fw_step_def st remaining_def)
qed

lemma bw_step_law:
  assumes inv: "bw_inv M D S N st" and c: "c \<le> remaining st" and f: "copies a c f" "a dvd c"
    and al: "dest_aligned a st"
  shows "\<exists>st'. bw_step c f st = Some st' \<and> bw_inv M D S N st' \<and> remaining st' = remaining st - c \<and>
           dest_aligned a st'"
proof -
  obtain m dest src len where st: "st = (m, dest, src, len)" by (cases st) auto
  have i: "copy_pre M D S N" "unat S \<le> unat D" "len \<le> N" "dest = D + of_nat len" "src = S + of_nat len"
      "moved M (D + of_nat len) (S + of_nat len) (N - len) m" and cl: "c \<le> len"
    using inv c by (auto simp: st bw_inv_def remaining_def)
  define k where "k = len - c"
  have bk: "dest - of_nat c = D + of_nat k" "src - of_nat c = S + of_nat k"
    unfolding i(4,5) k_def by (rule ptr_back [OF cl])+
  have preT: "copy_pre M (D + of_nat len) (S + of_nat len) (N - len)"
    using copy_pre_part [OF i(1)] i(3) by simp
  have cp: "copy_pre m (D + of_nat k) (S + of_nat k) c"
    by (rule copy_pre_sub [OF i(1) _ i(6) preT]) (use i(3) cl in \<open>simp add: k_def\<close>)
  have uD: "unat (D + of_nat k) = unat D + k" "unat dest = unat D + len"
    using cursor_offset [OF i(1)] i(3,4) by (simp_all add: k_def)
  have al': "unat (D + of_nat k) mod a = 0"
  proof -
    have "a dvd unat D + len" using al uD by (simp add: dest_aligned_def at_dest_def st mod_eq_0_iff_dvd)
    then have "a dvd unat D + len - c" using f(2) by (rule dvd_diff_nat)
    then show ?thesis using uD cl by (simp add: k_def)
  qed
  have "\<exists>m1. f m (D + of_nat k) (S + of_nat k) = Some m1 \<and> moved m (D + of_nat k) (S + of_nat k) c m1"
    using cp al' by (rule copiesD [OF f(1)])
  then obtain m1 where m1: "f m (D + of_nat k) (S + of_nat k) = Some m1"
      "moved m (D + of_nat k) (S + of_nat k) c m1" by (elim exE conjE)
  have lk: "D + of_nat len = D + of_nat k + of_nat c" "S + of_nat len = S + of_nat k + of_nat c"
    using cl by (simp_all add: k_def of_nat_diff)
  have uS: "unat (S + of_nat k) = unat S + k" if "0 < N - k"
    using i(1) that by (intro unat_offset [of S N]) (auto simp: copy_pre_def)
  have "moved M (D + of_nat k) (S + of_nat k) (N - k) m1"
  proof (cases "N - k = 0")
    case True
    then have "N - len = 0" "c = 0" using i(3) cl by (auto simp: k_def)
    then show ?thesis using i(6) m1(2) True by (auto simp: moved_def memmove_def)
  next
    case False
    have nk: "N - k = c + (N - len)" using i(3) cl by (simp add: k_def)
    show ?thesis unfolding nk
      by (rule moved_bw [OF _ _ _ i(6) [unfolded lk] m1(2)])
         (use i(1-3) uD(1) uS False cl in \<open>auto simp: copy_pre_def k_def\<close>)
  qed
  then have inv': "bw_inv M D S N (m1, dest - of_nat c, src - of_nat c, len - c)"
    using i bk by (simp add: bw_inv_def k_def)
  moreover have "dest_aligned a (m1, dest - of_nat c, src - of_nat c, len - c)"
    using al' bk by (simp add: dest_aligned_def at_dest_def)
  ultimately show ?thesis using m1(1) bk by (simp add: bw_step_def st remaining_def)
qed

interpretation fw: chunk_step fw_step "fw_inv M D S N" for M D S N
  by unfold_locales (rule fw_step_law)

interpretation bw: chunk_step bw_step "bw_inv M D S N" for M D S N
  by unfold_locales (rule bw_step_law)

section \<open>nvmem_memcpy\<close>

lemma and_63: "unat (and (a :: ptr) 63) = unat a mod 64"
proof -
  have m: "(63 :: ptr) = mask 6" by (simp add: mask_eq_exp_minus_1)
  show ?thesis unfolding m by (simp add: unsigned_take_bit_eq take_bit_eq_mod unat_mod flip: take_bit_eq_mask)
qed

lemma inv_dest:
  "fw_inv M D S N st \<Longrightarrow> at_dest st = D + of_nat (N - remaining st)"
  "bw_inv M D S N st \<Longrightarrow> at_dest st = D + of_nat (remaining st)"
  by (auto simp: fw_inv_def bw_inv_def at_dest_def remaining_def)

lemma fw_ok:
  assumes pre: "copy_pre M D S N" and fwd: "forward D S N" and N: "1 \<le> N"
  shows "\<exists>m'. memmove_movnt_sse_fw M D S N = Some m' \<and> moved M D S N m'"
proof -
  define cnt where "cnt = unat (and D 63)"
  have cnt: "cnt = unat D mod 64" by (simp add: cnt_def and_63)
  let ?st0 = "(M, D, S, N)"
  have i0: "fw_inv M D S N ?st0" using pre fwd by (simp add: fw_inv_def moved_0)
  define head where "head = (if cnt > 0
        then (let cnt = (if 64 - cnt > N then N else 64 - cnt)
              in fw_step cnt (\<lambda>m d s. memmove_small_sse2 m d s cnt) ?st0)
        else Some ?st0)"
  have "\<exists>st. head = Some st \<and> fw_inv M D S N st \<and> (dest_aligned 64 st \<or> remaining st = 0)"
  proof (cases "cnt > 0")
    case True
    define c where "c = (if 64 - cnt > N then N else 64 - cnt)"
    have c: "1 \<le> c" "c \<le> 64" "c \<le> N" using True N cnt by (auto simp: c_def)
    obtain st where st: "fw_step c (\<lambda>m d s. memmove_small_sse2 m d s c) ?st0 = Some st" "fw_inv M D S N st"
        "remaining st = N - c"
      using fw_step_law [OF i0 _ small_copies [OF c(1,2)]] c(3) by (auto simp: remaining_def dest_aligned_def)
    have "dest_aligned 64 st \<or> remaining st = 0"
    proof (cases "64 - cnt > N")
      case False
      then have "unat (at_dest st) = unat D + (64 - cnt)"
        using inv_dest(1) [OF st(2)] cursor_offset [OF pre, of c] c(3) st(3) by (simp add: c_def)
      then have "unat (at_dest st) mod 64 = 0" using True unfolding cnt by presburger
      then show ?thesis by (simp add: dest_aligned_def)
    qed (use st(3) in \<open>simp add: c_def\<close>)
    then show ?thesis using True st by (simp add: head_def Let_def c_def)
  next
    case False
    then show ?thesis using i0 cnt by (simp add: head_def dest_aligned_def at_dest_def)
  qed
  then obtain st where st: "head = Some st" "fw_inv M D S N st" "dest_aligned 64 st \<or> remaining st = 0" by blast
  obtain st' where st': "do { st \<leftarrow> movnt_lines fw_step st; movnt_tail fw_step st } = Some st'"
      "fw_inv M D S N st'" "remaining st' = 0" using fw.body_ok [OF st(2,3)] by blast
  have "moved M D S N (fst st')" using st'(2,3) by (auto simp: fw_inv_def remaining_def)
  moreover have "memmove_movnt_sse_fw M D S N = Some (fst st')"
    using st(1) st'(1) unfolding memmove_movnt_sse_fw_def head_def cnt_def Let_def
    by (auto split: Option.bind_splits)
  ultimately show ?thesis by blast
qed

lemma round_down:
  assumes "c = (d + n) mod (64 :: nat)" and "c \<le> n"
  shows "(d + (n - c)) mod 64 = 0"
proof -
  have "d + (n - c) = (d + n) - (d + n) mod 64" unfolding assms(1) [symmetric] using assms(2) by (rule add_diff_assoc)
  also have "\<dots> = (d + n) div 64 * 64" by (rule minus_mod_eq_div_mult)
  finally show ?thesis by (simp only: mod_mult_self2_is_0)
qed

lemma bw_ok:
  assumes pre: "copy_pre M D S N" and bw: "unat S \<le> unat D" and N: "1 \<le> N"
  shows "\<exists>m'. memmove_movnt_sse_bw M D S N = Some m' \<and> moved M D S N m'"
proof -
  define cnt where "cnt = unat (and (D + of_nat N) 63)"
  have uN: "unat (D + of_nat N) = unat D + N" using cursor_offset [OF pre, of N] by simp
  have cnt: "cnt = (unat D + N) mod 64" by (simp add: cnt_def and_63 uN)
  let ?st0 = "(M, D + of_nat N, S + of_nat N, N)"
  have i0: "bw_inv M D S N ?st0" using pre bw by (simp add: bw_inv_def moved_0)
  define head where "head = (if cnt > 0
        then (let cnt = (if cnt > N then N else cnt)
              in bw_step cnt (\<lambda>m d s. memmove_small_sse2 m d s cnt) ?st0)
        else Some ?st0)"
  have "\<exists>st. head = Some st \<and> bw_inv M D S N st \<and> (dest_aligned 64 st \<or> remaining st = 0)"
  proof (cases "cnt > 0")
    case True
    define c where "c = (if cnt > N then N else cnt)"
    have c: "1 \<le> c" "c \<le> 64" "c \<le> N" using True N cnt by (auto simp: c_def)
    obtain st where st: "bw_step c (\<lambda>m d s. memmove_small_sse2 m d s c) ?st0 = Some st" "bw_inv M D S N st"
        "remaining st = N - c"
      using bw_step_law [OF i0 _ small_copies [OF c(1,2)]] c(3) by (auto simp: remaining_def dest_aligned_def)
    have "dest_aligned 64 st \<or> remaining st = 0"
    proof (cases "cnt > N")
      case False
      then have "unat (at_dest st) = unat D + (N - cnt)"
        using inv_dest(2) [OF st(2)] cursor_offset [OF pre, of "N - c"] st(3) by (simp add: c_def)
      then have "unat (at_dest st) mod 64 = 0" using round_down [OF cnt] False by (simp only: not_less)
      then show ?thesis by (simp add: dest_aligned_def)
    qed (use st(3) in \<open>simp add: c_def\<close>)
    then show ?thesis using True st by (simp add: head_def Let_def c_def)
  next
    case False
    then show ?thesis using i0 cnt uN by (simp add: head_def dest_aligned_def at_dest_def)
  qed
  then obtain st where st: "head = Some st" "bw_inv M D S N st" "dest_aligned 64 st \<or> remaining st = 0" by blast
  obtain st' where st': "do { st \<leftarrow> movnt_lines bw_step st; movnt_tail bw_step st } = Some st'"
      "bw_inv M D S N st'" "remaining st' = 0" using bw.body_ok [OF st(2,3)] by blast
  have "moved M D S N (fst st')" using st'(2,3) by (auto simp: bw_inv_def remaining_def)
  moreover have "memmove_movnt_sse_bw M D S N = Some (fst st')"
    using st(1) st'(1) unfolding memmove_movnt_sse_bw_def head_def cnt_def Let_def
    by (auto split: Option.bind_splits)
  ultimately show ?thesis by blast
qed

lemma direction:
  assumes "copy_pre M D S (unat len)" and "1 \<le> unat len"
  shows "if len \<le> D - S then forward D S (unat len) else unat S \<le> unat D"
proof -
  have "len \<le> D - S \<longleftrightarrow> unat len \<le> unat (D - S)" by (simp add: word_le_nat_alt)
  moreover have "unat (D - S) = (if unat S \<le> unat D then unat D - unat S else unat D + 2 ^ 64 - unat S)"
    by (simp add: unat_sub_if')
  moreover have "unat S + unat len \<le> 2 ^ 64" using assms(1) by (simp add: copy_pre_def)
  ultimately show ?thesis by (auto simp: forward_def)
qed

lemma nvmem_memcpy_ok:
  assumes pre: "copy_pre m dest src (unat len)" and len: "1 \<le> unat len"
  obtains m' where "nvmem_memcpy m dest src len = Some m'" "moved m dest src (unat len) m'"
  using direction [OF assms] fw_ok [OF pre _ len] bw_ok [OF pre _ len]
  unfolding nvmem_memcpy_def by (auto split: if_splits)

text \<open>With a length of zero and an unaligned destination one byte is copied.\<close>

lemma nvmem_memcpy_zero:
  assumes al: "unat dest mod 64 \<noteq> 0" and pre: "copy_pre m dest src 1"
  shows "\<exists>m'. nvmem_memcpy m dest src 0 = Some m' \<and> bytes m' = (bytes m)(dest := bytes m src)"
proof -
  obtain b where b: "bytes m src = Some b" using pre by (auto simp: copy_pre_def mapped_def)
  obtain b' where b': "bytes m dest = Some b'" using pre by (auto simp: copy_pre_def mapped_def)
  define m1 where "m1 = m\<lparr>bytes := (bytes m)(dest \<mapsto> b), dirty := (\<lambda>p. in_range dest 1 p \<or> dirty m p)\<rparr>"
  have r: "in_range dest (Suc 0) p \<longleftrightarrow> p = dest" for p
    using unat_eq_0 [of "p - dest"] by (simp add: in_range_def less_Suc0)
  have "memmove_small_sse2_noflush m dest src 0 = Some m1"
    using b b' by (simp add: memmove_small_sse2_noflush_def mem_load_def mem_store_def mapped_def m1_def
        write_bytes_def r fun_eq_iff)
  moreover obtain m' where "flushopt m1 dest 0 = Some m'" "bytes m' = bytes m1"
    by (rule flushopt_ok [of dest 0 m1]) (use pre in \<open>simp add: copy_pre_def\<close>)
  ultimately have s: "memmove_small_sse2 m dest src 0 = Some m'" "bytes m' = (bytes m)(dest := bytes m src)"
    using b by (simp_all add: memmove_small_sse2_def m1_def)
  have "unat (and dest 63) > 0" using al by (simp add: and_63)
  then have "nvmem_memcpy m dest src 0 = Some m'"
    using s(1) by (simp add: nvmem_memcpy_def memmove_movnt_sse_fw_def Let_def fw_step_def movnt_lines_def
        movnt_tail_def remaining_def loop_4x64.simps)
  then show ?thesis using s(2) by blast
qed

end
