(* ===== verification/KV_Blocks.thy ===== *)
theory KV_Blocks
  imports KV_Prelude
begin

text \<open>
  The contract of a component that hands out blocks of memory (the pool allocator, the log):
  every block lies in the component's region and meets no block handed out before. A block is an
  address and a length, both as natural numbers.
\<close>

abbreviation span :: "nat \<Rightarrow> nat \<Rightarrow> nat set" where
  "span a n \<equiv> {a..<a + n}"

fun blocks :: "('r \<Rightarrow> 's \<Rightarrow> (nat \<times> nat \<times> 's) option) \<Rightarrow> 'r list \<Rightarrow> 's \<Rightarrow> ((nat \<times> nat) list \<times> 's) option" where
  "blocks get [] s = Some ([], s)"
| "blocks get (r # rs) s =
     do { (a, n, s1) \<leftarrow> get r s;
          (bs, s2) \<leftarrow> blocks get rs s1;
          Some ((a, n) # bs, s2) }"

definition disjoint_blocks :: "(nat \<times> nat) list \<Rightarrow> bool" where
  "disjoint_blocks bs \<longleftrightarrow> sorted_wrt (\<lambda>x y. span (fst x) (snd x) \<inter> span (fst y) (snd y) = {}) bs"

locale block_supply =
  fixes ok :: "'s \<Rightarrow> bool" and req :: "'r \<Rightarrow> bool" and used :: "'s \<Rightarrow> nat set" and pool :: "nat set"
    and get :: "'r \<Rightarrow> 's \<Rightarrow> (nat \<times> nat \<times> 's) option"
  assumes get_law: "ok s \<Longrightarrow> req r \<Longrightarrow> get r s = Some (a, n, s') \<Longrightarrow>
      ok s' \<and> span a n \<inter> used s = {} \<and> used s' = used s \<union> span a n \<and> span a n \<subseteq> pool"
begin

lemma blocks_ok:
  assumes "ok s" "\<forall>r \<in> set rs. req r" "blocks get rs s = Some (bs, s')"
  shows "ok s' \<and> disjoint_blocks bs \<and> used s' = used s \<union> (\<Union>b \<in> set bs. span (fst b) (snd b)) \<and>
    (\<forall>b \<in> set bs. span (fst b) (snd b) \<subseteq> pool \<and> span (fst b) (snd b) \<inter> used s = {})"
  using assms
proof (induction rs arbitrary: s bs)
  case Nil
  then show ?case by (simp add: disjoint_blocks_def)
next
  case (Cons r rs)
  obtain a n s1 bs1 where g: "get r s = Some (a, n, s1)" "blocks get rs s1 = Some (bs1, s')" "bs = (a, n) # bs1"
    using Cons.prems(3) by (auto split: Option.bind_splits)
  have l: "ok s1 \<and> span a n \<inter> used s = {} \<and> used s1 = used s \<union> span a n \<and> span a n \<subseteq> pool"
    using get_law [OF Cons.prems(1) _ g(1)] Cons.prems(2) by simp
  have IH: "ok s' \<and> disjoint_blocks bs1 \<and> used s' = used s1 \<union> (\<Union>b \<in> set bs1. span (fst b) (snd b)) \<and>
    (\<forall>b \<in> set bs1. span (fst b) (snd b) \<subseteq> pool \<and> span (fst b) (snd b) \<inter> used s1 = {})"
    using Cons.IH [of s1 bs1] Cons.prems(2) g(2) l by simp
  have "\<forall>b \<in> set bs1. span a n \<inter> span (fst b) (snd b) = {}"
  proof
    fix b assume "b \<in> set bs1"
    then have "span (fst b) (snd b) \<inter> used s1 = {}" using IH by blast
    then show "span a n \<inter> span (fst b) (snd b) = {}" using l by blast
  qed
  then have "disjoint_blocks bs" using IH g(3) by (simp add: disjoint_blocks_def)
  moreover have "used s' = used s \<union> (\<Union>b \<in> set bs. span (fst b) (snd b))"
    using IH l g(3) by (simp add: Un_assoc)
  moreover have "span (fst b) (snd b) \<inter> used s = {}" if "b \<in> set bs1" for b
    using IH l that by blast
  ultimately show ?case using IH l g(3) by simp
qed

end

end
