(* ===== verification/KV_Alloc.thy ===== *)
theory KV_Alloc
  imports KV_Blocks
begin

text \<open>
  The pool allocator: \<open>struct pm_alloctor\<close> of \<open>bufferevent_single/Hikv/mem/pm_alloc.h\<close> and
  \<open>pm_alloc.cc\<close>. The pool is one block of memory cut into equal partitions, each a bump
  allocator. In the committed configuration \<open>PM_USED\<close> is off, so the pool comes from \<open>malloc\<close>:
  its result is an argument. The arrays have 32 places; what they hold before the constructor
  runs is an argument too. When a partition is full, \<open>alloc\<close> prints a message and loops for
  ever, which is \<open>None\<close> here.
\<close>

section \<open>State and operations\<close>

record pm_alloctor =
  pm_size :: u64
  num_partition :: u64
  pm_start_address :: u64
  partition_size :: "u64 list"
  partition_start_address :: "u64 list"
  partition_end_address :: "u64 list"
  partition_cur_offset :: "u64 list"

fun init_partitions :: "u64 \<Rightarrow> nat \<Rightarrow> nat \<Rightarrow> u64 \<Rightarrow> pm_alloctor \<Rightarrow> pm_alloctor option" where
  "init_partitions p_size i 0 cut_at a = Some a"
| "init_partitions p_size i (Suc k) cut_at a =
     do { st \<leftarrow> wr (partition_start_address a) i cut_at;
          cu \<leftarrow> wr (partition_cur_offset a) i 0;
          sz \<leftarrow> wr (partition_size a) i p_size;
          let cut_at = cut_at + p_size;
          en \<leftarrow> wr (partition_end_address a) i cut_at;
          init_partitions p_size (i + 1) k cut_at
            (a\<lparr>partition_start_address := st, partition_cur_offset := cu, partition_size := sz,
               partition_end_address := en\<rparr>) }"

definition pm_alloctor_new :: "ptr \<Rightarrow> pm_alloctor \<Rightarrow> u64 \<Rightarrow> u64 \<Rightarrow> pm_alloctor option" where
  "pm_alloctor_new dest mem num sz =
     (if dest = 0 \<or> num = 0 then None
      else init_partitions (sz div num) 0 (unat num) dest
             (mem\<lparr>num_partition := num, pm_start_address := dest, pm_size := sz\<rparr>))"

definition alloc :: "nat \<Rightarrow> u64 \<Rightarrow> pm_alloctor \<Rightarrow> (ptr \<times> pm_alloctor) option" where
  "alloc pid sz a =
     do { s \<leftarrow> rd (partition_start_address a) pid;
          c \<leftarrow> rd (partition_cur_offset a) pid;
          let ret = s + c;
          cu \<leftarrow> wr (partition_cur_offset a) pid (c + sz);
          z \<leftarrow> rd (partition_size a) pid;
          if c + sz > z then None else Some (ret, a\<lparr>partition_cur_offset := cu\<rparr>) }"

section \<open>The invariant\<close>

text \<open>The partitions tile the pool from its start, and no offset is past its partition's end.\<close>

definition alloc_inv :: "nat \<Rightarrow> nat \<Rightarrow> nat \<Rightarrow> pm_alloctor \<Rightarrow> bool" where
  "alloc_inv base p num a \<longleftrightarrow>
     num \<le> 32 \<and> base + num * p \<le> 2 ^ 64 \<and> p < 2 ^ 63 \<and>
     length (partition_start_address a) = 32 \<and> length (partition_end_address a) = 32 \<and>
     length (partition_size a) = 32 \<and> length (partition_cur_offset a) = 32 \<and>
     (\<forall>i \<in> set [0..<num]. unat (partition_start_address a ! i) = base + i * p \<and>
        unat (partition_size a ! i) = p \<and> unat (partition_cur_offset a ! i) \<le> p)"

definition alloc_used :: "nat \<Rightarrow> nat \<Rightarrow> nat \<Rightarrow> pm_alloctor \<Rightarrow> nat set" where
  "alloc_used base p num a = (\<Union>i \<in> {..<num}. span (base + i * p) (unat (partition_cur_offset a ! i)))"

lemma partition_bound: "i < num \<Longrightarrow> (base :: nat) + i * p + p \<le> base + num * p"
  by (metis Suc_leI add.assoc add.commute mult_Suc mult_le_mono1 nat_add_left_cancel_le)

lemma init_partitions_ok:
  assumes "i + k \<le> 32" and "length (partition_start_address a) = 32" "length (partition_end_address a) = 32"
    "length (partition_size a) = 32" "length (partition_cur_offset a) = 32"
    and "0 < k \<Longrightarrow> unat cut_at = base + i * unat p" and "base + (i + k) * unat p \<le> 2 ^ 64"
  shows "\<exists>a'. init_partitions p i k cut_at a = Some a' \<and>
     length (partition_start_address a') = 32 \<and> length (partition_end_address a') = 32 \<and>
     length (partition_size a') = 32 \<and> length (partition_cur_offset a') = 32 \<and>
     (\<forall>j < i + k. unat (partition_start_address a' ! j)
          = (if j < i then unat (partition_start_address a ! j) else base + j * unat p) \<and>
        partition_size a' ! j = (if j < i then partition_size a ! j else p) \<and>
        partition_cur_offset a' ! j = (if j < i then partition_cur_offset a ! j else 0))"
  using assms
proof (induction k arbitrary: i cut_at a)
  case 0
  then show ?case by auto
next
  case (Suc k)
  let ?a1 = "a\<lparr>partition_start_address := (partition_start_address a)[i := cut_at],
      partition_cur_offset := (partition_cur_offset a)[i := 0],
      partition_size := (partition_size a)[i := p],
      partition_end_address := (partition_end_address a)[i := cut_at + p]\<rparr>"
  have u: "unat cut_at = base + i * unat p" using Suc.prems(6) by simp
  have sum: "base + i * unat p + unat p + k * unat p \<le> 2 ^ 64"
    using Suc.prems(7) by (simp add: algebra_simps)
  have lt: "unat cut_at < 2 ^ 64" by (rule order.strict_trans2 [OF unsigned_less]) simp
  have next_at: "unat (cut_at + p) = base + (i + 1) * unat p" if "0 < k"
  proof -
    have "unat cut_at + unat p < 2 ^ 64"
    proof (cases "unat p = 0")
      case False
      then have "0 < k * unat p" using that by simp
      then show ?thesis using sum u by linarith
    qed (use lt in simp)
    then show ?thesis using u by (simp add: unat_plus_if')
  qed
  have "\<exists>a'. init_partitions p (i + 1) k (cut_at + p) ?a1 = Some a' \<and>
     length (partition_start_address a') = 32 \<and> length (partition_end_address a') = 32 \<and>
     length (partition_size a') = 32 \<and> length (partition_cur_offset a') = 32 \<and>
     (\<forall>j < (i + 1) + k. unat (partition_start_address a' ! j)
          = (if j < i + 1 then unat (partition_start_address ?a1 ! j) else base + j * unat p) \<and>
        partition_size a' ! j = (if j < i + 1 then partition_size ?a1 ! j else p) \<and>
        partition_cur_offset a' ! j = (if j < i + 1 then partition_cur_offset ?a1 ! j else 0))"
    by (rule Suc.IH) (use Suc.prems next_at sum in \<open>simp_all add: algebra_simps\<close>)
  then obtain a' where a': "init_partitions p (i + 1) k (cut_at + p) ?a1 = Some a'"
     "length (partition_start_address a') = 32 \<and> length (partition_end_address a') = 32 \<and>
     length (partition_size a') = 32 \<and> length (partition_cur_offset a') = 32"
     "\<And>j. j < (i + 1) + k \<Longrightarrow> unat (partition_start_address a' ! j)
          = (if j < i + 1 then unat (partition_start_address ?a1 ! j) else base + j * unat p) \<and>
        partition_size a' ! j = (if j < i + 1 then partition_size ?a1 ! j else p) \<and>
        partition_cur_offset a' ! j = (if j < i + 1 then partition_cur_offset ?a1 ! j else 0)" by blast
  have "init_partitions p i (Suc k) cut_at a = Some a'"
    using a'(1) Suc.prems(1-5) by (simp add: access_simps Let_def)
  moreover have "\<forall>j < i + Suc k. unat (partition_start_address a' ! j)
          = (if j < i then unat (partition_start_address a ! j) else base + j * unat p) \<and>
        partition_size a' ! j = (if j < i then partition_size a ! j else p) \<and>
        partition_cur_offset a' ! j = (if j < i then partition_cur_offset a ! j else 0)"
  proof (intro allI impI)
    fix j assume "j < i + Suc k"
    then show "unat (partition_start_address a' ! j)
          = (if j < i then unat (partition_start_address a ! j) else base + j * unat p) \<and>
        partition_size a' ! j = (if j < i then partition_size a ! j else p) \<and>
        partition_cur_offset a' ! j = (if j < i then partition_cur_offset a ! j else 0)"
      using a'(3) [of j] u Suc.prems(1-5) by (cases "j = i") auto
  qed
  ultimately show ?case using a'(2) by blast
qed

lemma pm_alloctor_new_ok:
  assumes "dest \<noteq> 0" "0 < unat num" "unat num \<le> 32" "unat dest + unat sz \<le> 2 ^ 64" "unat sz < 2 ^ 63"
    and "length (partition_start_address mem) = 32" "length (partition_end_address mem) = 32"
    "length (partition_size mem) = 32" "length (partition_cur_offset mem) = 32"
  obtains a where "pm_alloctor_new dest mem num sz = Some a"
    "alloc_inv (unat dest) (unat sz div unat num) (unat num) a"
    "alloc_used (unat dest) (unat sz div unat num) (unat num) a = {}"
proof -
  define p where "p = sz div num"
  have p: "unat p = unat sz div unat num" by (simp add: p_def unat_div)
  have le: "unat num * unat p \<le> unat sz" unfolding p by simp
  have p63: "unat p < 2 ^ 63" unfolding p using assms(5) by (metis div_le_dividend order.strict_trans1)
  let ?mem = "mem\<lparr>num_partition := num, pm_start_address := dest, pm_size := sz\<rparr>"
  have "\<exists>a'. init_partitions p 0 (unat num) dest ?mem = Some a' \<and>
     length (partition_start_address a') = 32 \<and> length (partition_end_address a') = 32 \<and>
     length (partition_size a') = 32 \<and> length (partition_cur_offset a') = 32 \<and>
     (\<forall>j < 0 + unat num. unat (partition_start_address a' ! j)
          = (if j < 0 then unat (partition_start_address ?mem ! j) else unat dest + j * unat p) \<and>
        partition_size a' ! j = (if j < 0 then partition_size ?mem ! j else p) \<and>
        partition_cur_offset a' ! j = (if j < 0 then partition_cur_offset ?mem ! j else 0))"
    by (rule init_partitions_ok) (use assms le in simp_all)
  then obtain a where a: "init_partitions p 0 (unat num) dest ?mem = Some a"
     "length (partition_start_address a) = 32 \<and> length (partition_end_address a) = 32 \<and>
     length (partition_size a) = 32 \<and> length (partition_cur_offset a) = 32"
     "\<forall>j < unat num. unat (partition_start_address a ! j) = unat dest + j * unat p \<and>
        partition_size a ! j = p \<and> partition_cur_offset a ! j = 0" by auto
  have "num \<noteq> 0" using assms(2) by auto
  then have "pm_alloctor_new dest mem num sz = Some a"
    using a(1) assms(1) by (simp add: pm_alloctor_new_def p_def)
  moreover have "alloc_inv (unat dest) (unat p) (unat num) a"
    using a(2,3) assms(3,4) le p63 by (simp add: alloc_inv_def)
  moreover have "alloc_used (unat dest) (unat p) (unat num) a = {}"
    using a(3) by (simp add: alloc_used_def)
  ultimately show ?thesis using that unfolding p by blast
qed

section \<open>Allocation\<close>

lemma alloc_ok:
  assumes inv: "alloc_inv base p num a" and pid: "pid < num" and szb: "unat sz < 2 ^ 63"
  shows "alloc pid sz a =
     (if unat (partition_cur_offset a ! pid) + unat sz \<le> p
      then Some (partition_start_address a ! pid + partition_cur_offset a ! pid,
                 a\<lparr>partition_cur_offset := (partition_cur_offset a)[pid := partition_cur_offset a ! pid + sz]\<rparr>)
      else None)"
proof -
  have b: "pid < 32" "unat (partition_size a ! pid) = p" "unat (partition_cur_offset a ! pid) \<le> p" "p < 2 ^ 63"
    using inv pid by (auto simp: alloc_inv_def)
  then have "unat (partition_cur_offset a ! pid + sz) = unat (partition_cur_offset a ! pid) + unat sz"
    using szb by (simp add: unat_plus_if')
  then have "partition_cur_offset a ! pid + sz > partition_size a ! pid \<longleftrightarrow>
      \<not> unat (partition_cur_offset a ! pid) + unat sz \<le> p"
    using b(2) by (simp add: word_less_nat_alt not_le)
  then show ?thesis using inv b(1) by (auto simp: alloc_def alloc_inv_def access_simps Let_def)
qed

text \<open>The allocator as a supply of blocks.\<close>

definition alloc_block :: "nat \<times> u64 \<Rightarrow> pm_alloctor \<Rightarrow> (nat \<times> nat \<times> pm_alloctor) option" where
  "alloc_block r a = do { (q, a') \<leftarrow> alloc (fst r) (snd r) a; Some (unat q, unat (snd r), a') }"

lemma UNION_eq_insert_if: "k < n \<Longrightarrow> (\<Union>i \<in> {..<n :: nat}. if i = k then X else {}) = X"
  by auto

lemma alloc_block_ok:
  assumes inv: "alloc_inv base p num a" and r: "fst r < num" "unat (snd r) < 2 ^ 63"
    and get: "alloc_block r a = Some (q, n, a')"
  shows "alloc_inv base p num a'" "span q n \<inter> alloc_used base p num a = {}"
    "alloc_used base p num a' = alloc_used base p num a \<union> span q n" "span q n \<subseteq> span base (num * p)"
proof -
  define pid where "pid = fst r"
  define c where "c = unat (partition_cur_offset a ! pid)"
  define s where "s = base + pid * p"
  have pid: "pid < num" "pid < 32" using inv r(1) by (auto simp: alloc_inv_def pid_def)
  have fits: "c + n \<le> p" and n: "n = unat (snd r)"
    and q': "q = unat (partition_start_address a ! pid + partition_cur_offset a ! pid)"
    and a': "a' = a\<lparr>partition_cur_offset := (partition_cur_offset a)[pid := partition_cur_offset a ! pid + snd r]\<rparr>"
    using get alloc_ok [OF inv r] by (auto simp: alloc_block_def pid_def c_def split: if_splits)
  have st: "unat (partition_start_address a ! pid) = s" "p < 2 ^ 63"
    using inv pid(1) by (auto simp: alloc_inv_def s_def)
  have top: "s + p \<le> base + num * p" using partition_bound [OF pid(1)] by (simp add: s_def)
  have top64: "base + num * p \<le> 2 ^ 64" using inv by (simp add: alloc_inv_def)
  have s64: "s < 2 ^ 64" unfolding st(1) [symmetric] by (rule order.strict_trans2 [OF unsigned_less]) simp
  have q: "q = s + c" if "0 < n"
    unfolding q' using st(1) fits top top64 that by (simp add: unat_plus_if' c_def)
  have cu: "unat (partition_cur_offset a ! pid + snd r) = c + n"
    using fits st(2) n by (simp add: unat_plus_if' c_def)
  show "alloc_inv base p num a'"
    using inv cu fits pid by (auto simp: alloc_inv_def a' nth_list_update)
  have sep: "span (s + c) n \<inter> span (base + j * p) (unat (partition_cur_offset a ! j)) = {}" if "j < num" for j
  proof (cases j pid rule: linorder_cases)
    case less
    have "unat (partition_cur_offset a ! j) \<le> p" using inv that by (simp add: alloc_inv_def)
    moreover have "base + j * p + p \<le> s" using partition_bound [OF less, of base p] by (simp add: s_def)
    ultimately show ?thesis by auto
  next
    case equal
    then show ?thesis by (auto simp: s_def c_def)
  next
    case greater
    have "s + p \<le> base + j * p" using partition_bound [OF greater, of base p] by (simp add: s_def)
    then show ?thesis using fits by auto
  qed
  show "span q n \<inter> alloc_used base p num a = {}"
  proof (cases "n = 0")
    case False
    then have "q = s + c" using q by simp
    then show ?thesis unfolding alloc_used_def Int_UN_distrib UNION_empty_conv using sep by blast
  qed simp
  have "alloc_used base p num a' =
      (\<Union>i \<in> {..<num}. span (base + i * p) (unat (partition_cur_offset a ! i)) \<union> (if i = pid then span (s + c) n else {}))"
    unfolding alloc_used_def
  proof (rule SUP_cong [OF refl])
    fix i assume "i \<in> {..<num}"
    have "span s (c + n) = span s c \<union> span (s + c) n" by auto
    then show "span (base + i * p) (unat (partition_cur_offset a' ! i)) =
        span (base + i * p) (unat (partition_cur_offset a ! i)) \<union> (if i = pid then span (s + c) n else {})"
      using inv pid cu by (cases "i = pid") (auto simp: a' alloc_inv_def s_def c_def)
  qed
  also have "\<dots> = alloc_used base p num a \<union> span (s + c) n"
    unfolding alloc_used_def UN_Un_distrib using pid(1) by (simp add: UNION_eq_insert_if)
  finally show "alloc_used base p num a' = alloc_used base p num a \<union> span q n"
    using q by (cases "n = 0") auto
  show "span q n \<subseteq> span base (num * p)"
    using q fits top by (cases "n = 0") (auto simp: s_def)
qed

interpretation pool: block_supply "alloc_inv base p num" "\<lambda>r. fst r < num \<and> unat (snd r) < 2 ^ 63"
  "alloc_used base p num" "span base (num * p)" alloc_block
  for base p num :: nat
  by unfold_locales (meson alloc_block_ok)

end
