(* ===== verification/KV_Key.thy ===== *)
theory KV_Key
  imports KV_Prelude
begin

text \<open>
  Keys: \<open>struct entry_key_t\<close> of \<open>bufferevent_single/Hikv/obj/btree.h\<close> and \<open>struct kv_item\<close> of
  \<open>config.h\<close>. The six operators test the sign of \<open>memcmp\<close> over \<open>KEY_LENGTH\<close> bytes; they are
  shown to be the operations of one linear order, so that everything proved of the tree for
  ordered keys holds for these keys.
\<close>

section \<open>Keys and items\<close>

definition KEY_LENGTH :: nat where "KEY_LENGTH = 64"
definition VALUE_LENGTH :: nat where "VALUE_LENGTH = 256"

lemma KEY_LENGTH_val [access_simps]: "KEY_LENGTH = 64" by (simp add: KEY_LENGTH_def)
lemma VALUE_LENGTH_val [access_simps]: "VALUE_LENGTH = 256" by (simp add: VALUE_LENGTH_def)

typedef entry_key_t = "{xs :: byte list. length xs = KEY_LENGTH}"
  morphisms key_bytes Key
  by (rule exI [of _ "replicate KEY_LENGTH 0"]) simp

setup_lifting type_definition_entry_key_t

lemma length_key_bytes [simp]: "length (key_bytes k) = KEY_LENGTH"
  using key_bytes [of k] by simp

record kv_item =
  item_key :: "byte list"
  item_value :: "byte list"

definition item_ok :: "kv_item \<Rightarrow> bool" where
  "item_ok it \<longleftrightarrow> length (item_key it) = KEY_LENGTH \<and> length (item_value it) = VALUE_LENGTH"

definition sizeof_kv_item :: nat where "sizeof_kv_item = KEY_LENGTH + VALUE_LENGTH"

lemma sizeof_kv_item_val [access_simps]: "sizeof_kv_item = 320"
  by (simp add: sizeof_kv_item_def access_simps)

section \<open>The operators\<close>

definition key_gt :: "entry_key_t \<Rightarrow> entry_key_t \<Rightarrow> bool" where
  "key_gt a k \<longleftrightarrow> (if memcmp (key_bytes a) (key_bytes k) > 0 then True else False)"

definition key_ge :: "entry_key_t \<Rightarrow> entry_key_t \<Rightarrow> bool" where
  "key_ge a k \<longleftrightarrow> (if memcmp (key_bytes a) (key_bytes k) \<ge> 0 then True else False)"

definition key_lt :: "entry_key_t \<Rightarrow> entry_key_t \<Rightarrow> bool" where
  "key_lt a k \<longleftrightarrow> (if memcmp (key_bytes a) (key_bytes k) < 0 then True else False)"

definition key_le :: "entry_key_t \<Rightarrow> entry_key_t \<Rightarrow> bool" where
  "key_le a k \<longleftrightarrow> (if memcmp (key_bytes a) (key_bytes k) \<le> 0 then True else False)"

definition key_eq :: "entry_key_t \<Rightarrow> entry_key_t \<Rightarrow> bool" where
  "key_eq a k \<longleftrightarrow> (if memcmp (key_bytes a) (key_bytes k) = 0 then True else False)"

text \<open>Assignment is a \<open>memcpy\<close> of the key bytes over those of the target.\<close>

definition memcpy :: "'a list \<Rightarrow> 'a list \<Rightarrow> nat \<Rightarrow> 'a list option" where
  "memcpy dst src n =
     (if n \<le> length dst \<and> n \<le> length src then Some (take n src @ drop n dst) else None)"

definition key_assign :: "entry_key_t \<Rightarrow> entry_key_t \<Rightarrow> entry_key_t option" where
  "key_assign a k = map_option Key (memcpy (key_bytes a) (key_bytes k) KEY_LENGTH)"

lemma memcpy_all [access_simps]: "length dst = n \<Longrightarrow> length src = n \<Longrightarrow> memcpy dst src n = Some src"
  by (simp add: memcpy_def)

lemma key_assign_ok: "key_assign a k = Some k"
  by (simp add: key_assign_def access_simps key_bytes_inverse)

section \<open>The order\<close>

instantiation entry_key_t :: "{linorder, zero}"
begin

definition less_eq_entry_key_t :: "entry_key_t \<Rightarrow> entry_key_t \<Rightarrow> bool" where
  "less_eq_entry_key_t = key_le"

definition less_entry_key_t :: "entry_key_t \<Rightarrow> entry_key_t \<Rightarrow> bool" where
  "less_entry_key_t = key_lt"

lift_definition zero_entry_key_t :: entry_key_t is "replicate KEY_LENGTH 0" by simp

instance
proof
  fix x y z :: entry_key_t
  have flip: "memcmp (key_bytes y) (key_bytes x) = - memcmp (key_bytes x) (key_bytes y)" by (rule memcmp_flip)
  show "x < y \<longleftrightarrow> x \<le> y \<and> \<not> y \<le> x"
    using flip by (simp add: less_eq_entry_key_t_def less_entry_key_t_def key_le_def key_lt_def)
  show "x \<le> x" by (simp add: less_eq_entry_key_t_def key_le_def)
  show "x \<le> z" if "x \<le> y" "y \<le> z"
    using that memcmp_le_trans [of "key_bytes x" "key_bytes y" "key_bytes z"]
    by (simp add: less_eq_entry_key_t_def key_le_def split: if_splits)
  show "x = y" if "x \<le> y" "y \<le> x"
    using that flip memcmp_eq_0 [of "key_bytes x" "key_bytes y"]
    by (simp add: less_eq_entry_key_t_def key_le_def key_bytes_inject split: if_splits)
  show "x \<le> y \<or> y \<le> x"
    using flip by (simp add: less_eq_entry_key_t_def key_le_def)
qed

end

lemma key_eq_iff: "key_eq a k \<longleftrightarrow> a = k"
  using memcmp_eq_0 [of "key_bytes a" "key_bytes k"] by (simp add: key_eq_def key_bytes_inject)

end
