(* ===== verification/KV_Plog.thy ===== *)
theory KV_Plog
  imports KV_NtMove KV_Alloc KV_Key
begin

text \<open>
  The log that holds the records: \<open>struct plog\<close> of \<open>bufferevent_single/Hikv/obj/plog.h\<close>. Each
  partition is filled from its start with items of 64 key bytes and 256 value bytes; an append
  copies the record with \<open>nvmem_memcpy\<close> and advances the offset. Nothing compares the offset
  with the partition's size.
\<close>

section \<open>State and operations\<close>

record plog =
  plog_num_partition :: u64
  plog_partition_size :: "u64 list"
  plog_partition_start_address :: "u64 list"
  plog_partition_cur_offset :: "u64 list"

text \<open>Rounding a start address up to a multiple of 16.\<close>

definition align16 :: "u64 \<Rightarrow> u64" where
  "align16 a = (if a mod 0x10 \<noteq> 0 then and (a + 0x10) (not (16 - 1)) else a)"

text \<open>
  The constructor's loop. Blocks come from the allocator, or from \<open>malloc\<close> when there is none:
  \<open>mal i\<close> is then the address of the block for partition \<open>i\<close>.
\<close>

fun plog_init :: "(nat \<Rightarrow> ptr) \<Rightarrow> u64 \<Rightarrow> nat \<Rightarrow> nat \<Rightarrow> pm_alloctor option \<Rightarrow> plog \<Rightarrow> (plog \<times> pm_alloctor option) option" where
  "plog_init mal p_size i 0 al lg = Some (lg, al)"
| "plog_init mal p_size i (Suc k) al lg =
     do { (start, al) \<leftarrow> (case al of
              None \<Rightarrow> Some (mal i, None)
            | Some a \<Rightarrow> do { (r, a') \<leftarrow> alloc i p_size a; Some (r, Some a') });
          st \<leftarrow> wr (plog_partition_start_address lg) i (align16 start);
          cu \<leftarrow> wr (plog_partition_cur_offset lg) i 0;
          sz \<leftarrow> wr (plog_partition_size lg) i p_size;
          plog_init mal p_size (i + 1) k al
            (lg\<lparr>plog_partition_start_address := st, plog_partition_cur_offset := cu, plog_partition_size := sz\<rparr>) }"

definition plog_new :: "(nat \<Rightarrow> ptr) \<Rightarrow> plog \<Rightarrow> u64 \<Rightarrow> u64 \<Rightarrow> pm_alloctor option \<Rightarrow> (plog \<times> pm_alloctor option) option" where
  "plog_new mal mem num num_kv al =
     (if num = 0 then None
      else (let p_size = num_kv div num * of_nat sizeof_kv_item * 3 div 2
            in plog_init mal p_size 0 (unat num) al (mem\<lparr>plog_num_partition := num\<rparr>)))"

definition plog_append :: "nat \<Rightarrow> ptr \<Rightarrow> ptr \<Rightarrow> plog \<Rightarrow> nvmem \<Rightarrow> (ptr \<times> plog \<times> nvmem) option" where
  "plog_append pid key val lg m =
     do { s \<leftarrow> rd (plog_partition_start_address lg) pid;
          c \<leftarrow> rd (plog_partition_cur_offset lg) pid;
          let addr = s + c;
          if addr mod 16 \<noteq> 0 then None
          else do {
            m \<leftarrow> nvmem_memcpy m addr key (of_nat KEY_LENGTH);
            m \<leftarrow> nvmem_memcpy m (addr + of_nat KEY_LENGTH) val (of_nat VALUE_LENGTH);
            cu \<leftarrow> wr (plog_partition_cur_offset lg) pid (c + of_nat sizeof_kv_item);
            Some (addr, lg\<lparr>plog_partition_cur_offset := cu\<rparr>, m) } }"

section \<open>Alignment\<close>

lemma and_not_15: "unat (and (a :: ptr) (not 15)) = unat a div 16 * 16"
proof -
  have m: "(15 :: ptr) = mask 4" by (simp add: mask_eq_exp_minus_1)
  have "and a (not 15) = push_bit 4 (drop_bit 4 a)"
    unfolding m by (rule bit_word_eqI) (auto simp: bit_simps)
  also have "\<dots> = drop_bit 4 a * 16" by (simp add: push_bit_eq_mult)
  moreover have "unat (drop_bit 4 a) = unat a div 16" by (subst unat_drop_bit_eq) (simp add: drop_bit_eq_div)
  moreover have "unat a < 2 ^ 64" by (rule order.strict_trans2 [OF unsigned_less]) simp
  then have "unat a div 16 * 16 < 2 ^ 64" by simp
  ultimately show ?thesis by (simp add: unat_word_ariths)
qed

lemma align16_ok:
  assumes "unat a + 16 \<le> 2 ^ 63"
  shows "unat (align16 a) mod 16 = 0" "unat a \<le> unat (align16 a)" "unat (align16 a) < unat a + 16"
proof -
  have u: "unat (a + 16) = unat a + 16" using assms by (simp add: unat_plus_if')
  have c: "a mod 0x10 \<noteq> 0 \<longleftrightarrow> unat a mod 16 \<noteq> 0" using aligned_iff [of a] by simp
  have v: "unat (align16 a) = (if unat a mod 16 \<noteq> 0 then (unat a + 16) div 16 * 16 else unat a)"
    using c u and_not_15 [of "a + 16"] by (simp add: align16_def)
  show "unat (align16 a) mod 16 = 0" "unat a \<le> unat (align16 a)" "unat (align16 a) < unat a + 16"
    unfolding v by (auto split: if_splits) presburger+
qed

section \<open>What an append does\<close>

lemma moved_load:
  assumes mv: "moved m d s n m'" and nw: "unat d + n \<le> 2 ^ 64" "unat s + n \<le> 2 ^ 64" and mp: "mapped m d n" "mapped m s n"
  shows "mem_load m' d n = mem_load m s n"
proof -
  have "in_range d n (d + of_nat i) \<and> (d + of_nat i) - d = of_nat i" if "i < n" for i
    using unat_offset [OF nw(1) that] that by (simp add: in_range_iff [OF nw(1)])
  then have "bytes m' (d + of_nat i) = bytes m (s + of_nat i)" if "i < n" for i
    using mv that by (simp add: moved_def memmove_def)
  then show ?thesis using mp(2) moved_mapped [OF mv nw(2) mp(2,1)] by (simp add: mem_load_def mapped_def)
qed

definition apart :: "ptr \<Rightarrow> nat \<Rightarrow> ptr \<Rightarrow> nat \<Rightarrow> bool" where
  "apart a n b k \<longleftrightarrow> unat a + n \<le> unat b \<or> unat b + k \<le> unat a"

lemma load_cong:
  assumes "\<And>i. i < n \<Longrightarrow> bytes m' (a + of_nat i) = bytes m (a + of_nat i)"
  shows "mem_load m' a n = mem_load m a n" "mapped m' a n = mapped m a n"
  using assms by (simp_all add: mem_load_def mapped_def)

lemma apart_range:
  assumes "apart a n b k" "unat a + n \<le> 2 ^ 64" "unat b + k \<le> 2 ^ 64" "i < n"
  shows "\<not> in_range b k (a + of_nat i)"
  using assms unat_offset [OF assms(2,4)] by (auto simp: in_range_iff [OF assms(3)] apart_def)

lemma moved_other:
  assumes mv: "moved m d s k m'" and ap: "apart a n d k" and nw: "unat a + n \<le> 2 ^ 64" "unat d + k \<le> 2 ^ 64"
  shows "mem_load m' a n = mem_load m a n" "mapped m' a n = mapped m a n"
  using mv apart_range [OF ap nw] by (auto intro!: load_cong simp: moved_def memmove_def)

text \<open>A region that is not dirty stays so.\<close>

definition clean :: "nvmem \<Rightarrow> ptr \<Rightarrow> nat \<Rightarrow> bool" where
  "clean m a n \<longleftrightarrow> (\<forall>p. in_range a n p \<longrightarrow> \<not> dirty m p)"

definition log_ok :: "nat \<Rightarrow> plog \<Rightarrow> bool" where
  "log_ok num lg \<longleftrightarrow>
     num \<le> 32 \<and> length (plog_partition_start_address lg) = 32 \<and> length (plog_partition_cur_offset lg) = 32 \<and>
     length (plog_partition_size lg) = 32 \<and>
     (\<forall>i \<in> set [0..<num]. unat (plog_partition_start_address lg ! i) mod 16 = 0 \<and>
        unat (plog_partition_cur_offset lg ! i) mod 320 = 0)"

text \<open>The place of the next item, and what an append needs of the memory there.\<close>

definition next_item :: "nat \<Rightarrow> plog \<Rightarrow> ptr" where
  "next_item pid lg = plog_partition_start_address lg ! pid + plog_partition_cur_offset lg ! pid"

definition append_pre :: "nat \<Rightarrow> nat \<Rightarrow> ptr \<Rightarrow> ptr \<Rightarrow> plog \<Rightarrow> nvmem \<Rightarrow> bool" where
  "append_pre num pid key val lg m \<longleftrightarrow>
     log_ok num lg \<and> pid < num \<and>
     unat (plog_partition_start_address lg ! pid) + unat (plog_partition_cur_offset lg ! pid) + 320 + 64 \<le> 2 ^ 64 \<and>
     mapped m (next_item pid lg) 320 \<and> mapped m key 64 \<and> mapped m val 256 \<and>
     unat key + 64 \<le> 2 ^ 64 \<and> unat val + 256 \<le> 2 ^ 64 \<and>
     apart key 64 (next_item pid lg) 320 \<and> apart val 256 (next_item pid lg) 320"

lemma plog_append_ok:
  assumes pre: "append_pre num pid key val lg m"
  obtains lg' m' where "plog_append pid key val lg m = Some (next_item pid lg, lg', m')"
    "log_ok num lg'" "plog_partition_start_address lg' = plog_partition_start_address lg"
    "unat (plog_partition_cur_offset lg' ! pid) = unat (plog_partition_cur_offset lg ! pid) + 320"
    "\<And>i. i \<noteq> pid \<Longrightarrow> plog_partition_cur_offset lg' ! i = plog_partition_cur_offset lg ! i"
    "mem_load m' (next_item pid lg) 64 = mem_load m key 64"
    "mem_load m' (next_item pid lg + 64) 256 = mem_load m val 256"
    "clean m' (next_item pid lg) 320"
    "\<And>a n. apart a n (next_item pid lg) 320 \<Longrightarrow> unat a + n \<le> 2 ^ 64 \<Longrightarrow>
       mem_load m' a n = mem_load m a n \<and> mapped m' a n = mapped m a n \<and> (clean m a n \<longrightarrow> clean m' a n)"
proof -
  let ?a = "next_item pid lg" and ?b = "next_item pid lg + 64"
  let ?s = "plog_partition_start_address lg ! pid" and ?c = "plog_partition_cur_offset lg ! pid"
  have lens: "pid < length (plog_partition_start_address lg)" "pid < length (plog_partition_cur_offset lg)"
    and al: "unat ?s mod 16 = 0" "unat ?c mod 320 = 0" and top: "unat ?s + unat ?c + 320 + 64 \<le> 2 ^ 64"
    using pre by (auto simp: append_pre_def log_ok_def)
  have ua: "unat ?a = unat ?s + unat ?c" using top by (simp add: next_item_def unat_plus_if')
  have ub: "unat ?b = unat ?a + 64" using top ua by (simp add: unat_plus_if')
  have "unat ?a mod 16 = 0"
  proof -
    show ?thesis using al unfolding ua by presburger
  qed
  then have aligned: "?a mod 16 = 0" by (simp add: aligned_iff)
  have mp: "mapped m ?a 320" "mapped m key 64" "mapped m val 256"
    and nw: "unat key + 64 \<le> 2 ^ 64" "unat val + 256 \<le> 2 ^ 64"
    and ap: "apart key 64 ?a 320" "apart val 256 ?a 320"
    using pre by (auto simp: append_pre_def)
  have sub: "mapped m ?a 64" "mapped m ?b 256"
    using mapped_sub [of ?a 320 0 64 m] mapped_sub [of ?a 320 64 256 m] mp(1) top ua by simp_all
  have len: "unat (of_nat KEY_LENGTH :: u64) = 64" "unat (of_nat VALUE_LENGTH :: u64) = 256"
    "(of_nat KEY_LENGTH :: u64) = 64" by (simp_all add: access_simps)
  have "copy_pre m ?a key 64" using sub mp nw top ua by (simp add: copy_pre_def)
  then obtain m1 where m1: "nvmem_memcpy m ?a key (of_nat KEY_LENGTH) = Some m1" "moved m ?a key 64 m1"
    using nvmem_memcpy_ok [of m ?a key "of_nat KEY_LENGTH"] len by auto
  have map1: "mapped m1 x n" if "mapped m x n" for x n by (rule moved_mapped [OF m1(2) nw(1) mp(2) that])
  have "copy_pre m1 ?b val 256" using map1 sub mp nw top ua ub by (simp add: copy_pre_def)
  then obtain m2 where m2: "nvmem_memcpy m1 ?b val (of_nat VALUE_LENGTH) = Some m2" "moved m1 ?b val 256 m2"
    using nvmem_memcpy_ok [of m1 ?b val "of_nat VALUE_LENGTH"] len by auto
  define lg' where "lg' = lg\<lparr>plog_partition_cur_offset := (plog_partition_cur_offset lg)[pid := ?c + 320]\<rparr>"
  have run: "plog_append pid key val lg m = Some (?a, lg', m2)"
    using aligned m1(1) m2(1) lens len(3)
    by (simp add: plog_append_def access_simps Let_def lg'_def flip: next_item_def)
  have c': "unat (?c + 320) = unat ?c + 320" using top by (simp add: unat_plus_if')
  have "log_ok num lg'" using pre c' lens by (auto simp: append_pre_def log_ok_def lg'_def nth_list_update)
  moreover have "mem_load m2 ?a 64 = mem_load m key 64"
  proof -
    have "mem_load m2 ?a 64 = mem_load m1 ?a 64"
      by (rule moved_other [OF m2(2)]) (use ub ua top in \<open>auto simp: apart_def\<close>)
    then show ?thesis using moved_load [OF m1(2) _ nw(1) sub(1) mp(2)] top ua by simp
  qed
  moreover have "mem_load m2 ?b 256 = mem_load m val 256"
  proof -
    have "mem_load m1 val 256 = mem_load m val 256"
      by (rule moved_other [OF m1(2)]) (use ap nw ua top in \<open>auto simp: apart_def\<close>)
    then show ?thesis using moved_load [OF m2(2) _ nw(2) map1 [OF sub(2)] map1 [OF mp(3)]] top ua ub by simp
  qed
  moreover have split: "in_range ?a 320 p \<longleftrightarrow> in_range ?a 64 p \<or> in_range ?b 256 p" for p
    using in_range_iff [of ?a 320 p] in_range_iff [of ?a 64 p] in_range_iff [of ?b 256 p] ub ua top by auto
  have "clean m2 ?a 320"
    using m1(2) m2(2) unfolding clean_def split moved_def by blast
  moreover have "mem_load m2 x n = mem_load m x n \<and> mapped m2 x n = mapped m x n \<and> (clean m x n \<longrightarrow> clean m2 x n)"
    if "apart x n ?a 320" "unat x + n \<le> 2 ^ 64" for x n
  proof -
    have "apart x n ?a 64" "apart x n ?b 256" using that ub by (auto simp: apart_def)
    then show ?thesis
      using moved_other [OF m1(2)] moved_other [OF m2(2)] that(2) ub ua top m1(2) m2(2)
      unfolding clean_def moved_def by auto
  qed
  ultimately show ?thesis
    using that [OF run] c' lens by (auto simp: lg'_def)
qed

end
