(* ===== verification/KV_City.thy ===== *)
theory KV_City
  imports KV_Prelude
begin

text \<open>
  CityHash64 as the store uses it: \<open>bufferevent_single/Hikv/lib/city.cc\<close> and \<open>city.h\<close>. A string
  is the list of bytes its pointer may read; a read past its end is \<open>None\<close>. The target is
  little-endian. The store calls no other hash of the library; those are in KV_City128.
\<close>

section \<open>Reading words\<close>

fun le_word :: "byte list \<Rightarrow> ('a::len) word" where
  "le_word [] = 0"
| "le_word (b # bs) = ucast b + push_bit 8 (le_word bs)"

definition Fetch64 :: "byte list \<Rightarrow> nat \<Rightarrow> u64 option" where
  "Fetch64 s i = (if i + 8 \<le> length s then Some (le_word (take 8 (drop i s))) else None)"

definition Fetch32 :: "byte list \<Rightarrow> nat \<Rightarrow> u32 option" where
  "Fetch32 s i = (if i + 4 \<le> length s then Some (le_word (take 4 (drop i s))) else None)"

definition bswap_64 :: "u64 \<Rightarrow> u64" where
  "bswap_64 x = le_word (rev (map (\<lambda>i. ucast (drop_bit (8 * i) x)) [0..<8]))"

section \<open>Mixing\<close>

definition k0 :: u64 where "k0 = 0xc3a5c85c97cb3127"
definition k1 :: u64 where "k1 = 0xb492b66fbe98f273"
definition k2 :: u64 where "k2 = 0x9ae16a3b2f90404f"

definition Rotate :: "u64 \<Rightarrow> nat \<Rightarrow> u64" where
  "Rotate val shift = (if shift = 0 then val else or (drop_bit shift val) (push_bit (64 - shift) val))"

definition ShiftMix :: "u64 \<Rightarrow> u64" where
  "ShiftMix val = xor val (drop_bit 47 val)"

definition kMul :: u64 where "kMul = 0x9ddfea08eb382d69"

definition Hash128to64 :: "u64 \<times> u64 \<Rightarrow> u64" where
  "Hash128to64 x =
     (let a = xor (fst x) (snd x) * kMul;
          a = xor a (drop_bit 47 a);
          b = xor (snd x) a * kMul;
          b = xor b (drop_bit 47 b)
      in b * kMul)"

definition HashLen16 :: "u64 \<Rightarrow> u64 \<Rightarrow> u64" where
  "HashLen16 u v = Hash128to64 (u, v)"

definition HashLen16_mul :: "u64 \<Rightarrow> u64 \<Rightarrow> u64 \<Rightarrow> u64" where
  "HashLen16_mul u v mul =
     (let a = xor u v * mul;
          a = xor a (drop_bit 47 a);
          b = xor v a * mul;
          b = xor b (drop_bit 47 b)
      in b * mul)"

section \<open>Short strings\<close>

definition HashLen0to16 :: "byte list \<Rightarrow> nat \<Rightarrow> u64 option" where
  "HashLen0to16 s len =
     (if len \<ge> 8
      then do { s0 \<leftarrow> Fetch64 s 0;
                b \<leftarrow> Fetch64 s (len - 8);
                let mul = k2 + of_nat len * 2;
                let a = s0 + k2;
                let c = Rotate b 37 * mul + a;
                let d = (Rotate a 25 + b) * mul;
                Some (HashLen16_mul c d mul) }
      else if len \<ge> 4
      then do { s0 \<leftarrow> Fetch32 s 0;
                e \<leftarrow> Fetch32 s (len - 4);
                let mul = k2 + of_nat len * 2;
                let a = ucast s0;
                Some (HashLen16_mul (of_nat len + push_bit 3 a) (ucast e) mul) }
      else if len > 0
      then do { a \<leftarrow> rd s 0;
                b \<leftarrow> rd s (len div 2);
                c \<leftarrow> rd s (len - 1);
                let y = (ucast a :: u32) + push_bit 8 (ucast b);
                let z = of_nat len + push_bit 2 (ucast c :: u32);
                Some (ShiftMix (xor (ucast y * k2) (ucast z * k0)) * k2) }
      else Some k2)"

definition HashLen17to32 :: "byte list \<Rightarrow> nat \<Rightarrow> u64 option" where
  "HashLen17to32 s len =
     do { s0 \<leftarrow> Fetch64 s 0;
          b \<leftarrow> Fetch64 s 8;
          e8 \<leftarrow> Fetch64 s (len - 8);
          e16 \<leftarrow> Fetch64 s (len - 16);
          let mul = k2 + of_nat len * 2;
          let a = s0 * k1;
          let c = e8 * mul;
          let d = e16 * k2;
          Some (HashLen16_mul (Rotate (a + b) 43 + Rotate c 30 + d) (a + Rotate (b + k2) 18 + c) mul) }"

definition HashLen33to64 :: "byte list \<Rightarrow> nat \<Rightarrow> u64 option" where
  "HashLen33to64 s len =
     do { s0 \<leftarrow> Fetch64 s 0;
          b \<leftarrow> Fetch64 s 8;
          c \<leftarrow> Fetch64 s (len - 24);
          d \<leftarrow> Fetch64 s (len - 32);
          s16 \<leftarrow> Fetch64 s 16;
          s24 \<leftarrow> Fetch64 s 24;
          g \<leftarrow> Fetch64 s (len - 8);
          e16 \<leftarrow> Fetch64 s (len - 16);
          let mul = k2 + of_nat len * 2;
          let a = s0 * k2;
          let e = s16 * k2;
          let f = s24 * 9;
          let h = e16 * mul;
          let u = Rotate (a + g) 43 + (Rotate b 30 + c) * 9;
          let v = xor (a + g) d + f + 1;
          let w = bswap_64 ((u + v) * mul) + h;
          let x = Rotate (e + f) 42 + c;
          let y = (bswap_64 ((v + w) * mul) + g) * mul;
          let z = e + f + c;
          let a = bswap_64 ((x + z) * mul + y) + b;
          let b = ShiftMix ((z + a) * mul + d + h) * mul;
          Some (b + x) }"

section \<open>Long strings\<close>

definition WeakHashLen32WithSeeds :: "u64 \<Rightarrow> u64 \<Rightarrow> u64 \<Rightarrow> u64 \<Rightarrow> u64 \<Rightarrow> u64 \<Rightarrow> u64 \<times> u64" where
  "WeakHashLen32WithSeeds w x y z a b =
     (let a = a + w;
          b = Rotate (b + a + z) 21;
          c = a;
          a = a + x;
          a = a + y;
          b = b + Rotate a 44
      in (a + z, b + c))"

definition WeakHashLen32WithSeeds_at :: "byte list \<Rightarrow> nat \<Rightarrow> u64 \<Rightarrow> u64 \<Rightarrow> (u64 \<times> u64) option" where
  "WeakHashLen32WithSeeds_at s i a b =
     do { w \<leftarrow> Fetch64 s i;
          x \<leftarrow> Fetch64 s (i + 8);
          y \<leftarrow> Fetch64 s (i + 16);
          z \<leftarrow> Fetch64 s (i + 24);
          Some (WeakHashLen32WithSeeds w x y z a b) }"

text \<open>The do-while loop over 64-byte chunks; \<open>i\<close> is the position of the moving pointer.\<close>

function city_loop ::
  "byte list \<Rightarrow> nat \<Rightarrow> nat \<Rightarrow> u64 \<times> u64 \<Rightarrow> u64 \<times> u64 \<Rightarrow> u64 \<Rightarrow> u64 \<Rightarrow> u64
     \<Rightarrow> ((u64 \<times> u64) \<times> (u64 \<times> u64) \<times> u64 \<times> u64 \<times> u64) option" where
  "city_loop s i len v w x y z =
     do { s8 \<leftarrow> Fetch64 s (i + 8);
          s48 \<leftarrow> Fetch64 s (i + 48);
          s40 \<leftarrow> Fetch64 s (i + 40);
          s16 \<leftarrow> Fetch64 s (i + 16);
          let x1 = Rotate (x + y + fst v + s8) 37 * k1;
          let y1 = Rotate (y + snd v + s48) 42 * k1;
          let x2 = xor x1 (snd w);
          let y2 = y1 + (fst v + s40);
          let z1 = Rotate (z + fst w) 33 * k1;
          v1 \<leftarrow> WeakHashLen32WithSeeds_at s i (snd v * k1) (x2 + fst w);
          w1 \<leftarrow> WeakHashLen32WithSeeds_at s (i + 32) (z1 + snd w) (y2 + s16);
          if len - 64 \<noteq> 0 then city_loop s (i + 64) (len - 64) v1 w1 z1 y2 x2
          else Some (v1, w1, z1, y2, x2) }"
  by pat_completeness auto
termination by (relation "measure (\<lambda>(s, i, len, _). len)") auto

declare city_loop.simps [simp del]

definition CityHash64 :: "byte list \<Rightarrow> nat \<Rightarrow> u64 option" where
  "CityHash64 s len =
     (if len \<le> 32
      then (if len \<le> 16 then HashLen0to16 s len else HashLen17to32 s len)
      else if len \<le> 64 then HashLen33to64 s len
      else do {
        x \<leftarrow> Fetch64 s (len - 40);
        e16 \<leftarrow> Fetch64 s (len - 16);
        e56 \<leftarrow> Fetch64 s (len - 56);
        e48 \<leftarrow> Fetch64 s (len - 48);
        e24 \<leftarrow> Fetch64 s (len - 24);
        let y = e16 + e56;
        let z = HashLen16 (e48 + of_nat len) e24;
        v \<leftarrow> WeakHashLen32WithSeeds_at s (len - 64) (of_nat len) z;
        w \<leftarrow> WeakHashLen32WithSeeds_at s (len - 32) (y + k1) x;
        s0 \<leftarrow> Fetch64 s 0;
        let x = x * k1 + s0;
        (v, w, x, y, z) \<leftarrow> city_loop s 0 ((len - 1) div 64 * 64) v w x y z;
        Some (HashLen16 (HashLen16 (fst v) (fst w) + ShiftMix y * k1 + z)
                        (HashLen16 (snd v) (snd w) + x)) })"

definition CityHash64WithSeeds :: "byte list \<Rightarrow> nat \<Rightarrow> u64 \<Rightarrow> u64 \<Rightarrow> u64 option" where
  "CityHash64WithSeeds s len seed0 seed1 =
     do { h \<leftarrow> CityHash64 s len; Some (HashLen16 (h - seed0) seed1) }"

definition CityHash64WithSeed :: "byte list \<Rightarrow> nat \<Rightarrow> u64 \<Rightarrow> u64 option" where
  "CityHash64WithSeed s len seed = CityHash64WithSeeds s len k2 seed"

section \<open>Every read is inside the string\<close>

lemma Fetch64_in [access_simps]: "i + 8 \<le> length s \<Longrightarrow> \<exists>w. Fetch64 s i = Some w"
  by (simp add: Fetch64_def)

lemma Weak_in: "i + 32 \<le> length s \<Longrightarrow> WeakHashLen32WithSeeds_at s i a b \<noteq> None"
  by (simp add: WeakHashLen32WithSeeds_at_def Fetch64_def)

lemma city_loop_in:
  assumes "len mod 64 = 0" "0 < len" "i + len \<le> length s"
  shows "city_loop s i len v w x y z \<noteq> None"
  using assms
proof (induction len arbitrary: i v w x y z rule: less_induct)
  case (less len)
  have l64: "64 \<le> len" using less.prems(1,2) by presburger
  obtain f8 f48 f40 f16 where f: "Fetch64 s (i + 8) = Some f8" "Fetch64 s (i + 48) = Some f48"
      "Fetch64 s (i + 40) = Some f40" "Fetch64 s (i + 16) = Some f16"
    using less.prems(3) l64 by (simp add: Fetch64_def)
  have wk: "WeakHashLen32WithSeeds_at s i a b \<noteq> None" "WeakHashLen32WithSeeds_at s (i + 32) a b \<noteq> None"
    for a b by (rule Weak_in, use less.prems(3) l64 in simp)+
  show ?case
  proof (cases "len - 64 = 0")
    case True
    then show ?thesis using wk
      by (subst city_loop.simps) (auto simp del: not_None_eq simp: f Let_def split: Option.bind_splits)
  next
    case False
    have rest: "city_loop s (i + 64) (len - 64) v w x y z \<noteq> None" for v w x y z
      by (rule less.IH) (use less.prems False l64 in \<open>auto simp: le_mod_geq\<close>)
    show ?thesis using False wk rest
      by (subst city_loop.simps) (auto simp del: not_None_eq simp: f Let_def split: Option.bind_splits)
  qed
qed

lemma city64_in: "CityHash64 s (length s) \<noteq> None"
proof -
  let ?n = "length s"
  consider "?n \<le> 16" | "16 < ?n \<and> ?n \<le> 32" | "32 < ?n \<and> ?n \<le> 64" | "64 < ?n" by linarith
  then show ?thesis
  proof cases
    case 1
    then show ?thesis
      by (auto simp: CityHash64_def HashLen0to16_def Fetch64_def Fetch32_def access_simps Let_def)
  next
    case 2
    then show ?thesis by (simp add: CityHash64_def HashLen17to32_def Fetch64_def Let_def)
  next
    case 3
    then show ?thesis by (simp add: CityHash64_def HashLen33to64_def Fetch64_def Let_def)
  next
    case 4
    have "\<exists>w. Fetch64 s (?n - k) = Some w" if "8 \<le> k" "k \<le> 64" for k
      using that 4 by (simp add: Fetch64_def)
    then obtain f40 f16 f56 f48 f24 where f: "Fetch64 s (?n - 40) = Some f40" "Fetch64 s (?n - 16) = Some f16"
        "Fetch64 s (?n - 56) = Some f56" "Fetch64 s (?n - 48) = Some f48" "Fetch64 s (?n - 24) = Some f24"
      by force
    obtain f0 where f0: "Fetch64 s 0 = Some f0" using 4 by (simp add: Fetch64_def)
    have wk: "WeakHashLen32WithSeeds_at s (?n - 64) a b \<noteq> None" "WeakHashLen32WithSeeds_at s (?n - 32) a b \<noteq> None"
      for a b by (rule Weak_in, use 4 in simp)+
    have "(?n - 1) div 64 * 64 \<le> ?n" by (metis diff_le_self div_times_less_eq_dividend order_trans)
    moreover have "0 < (?n - 1) div 64 * 64" using 4 by (simp add: div_greater_zero_iff)
    ultimately have lp: "city_loop s 0 ((?n - 1) div 64 * 64) v w x y z \<noteq> None" for v w x y z
      by (intro city_loop_in) auto
    show ?thesis using 4 wk lp by (auto simp del: not_None_eq simp: CityHash64_def f f0 Let_def split: Option.bind_splits)
  qed
qed

section \<open>Seeds do not separate keys\<close>

lemma mul_kMul_inj: "x * kMul = y * kMul \<Longrightarrow> x = y"
proof -
  assume "x * kMul = y * kMul"
  then have "x * kMul * 0xdc56e6f5090b32d9 = y * kMul * 0xdc56e6f5090b32d9" by simp
  moreover have "kMul * 0xdc56e6f5090b32d9 = 1" unfolding kMul_def by code_simp
  ultimately show "x = y" by (simp add: mult.assoc)
qed

lemma xor_left_inj: "xor (v :: u64) x = xor v y \<Longrightarrow> x = y"
proof -
  assume "xor v x = xor v y"
  then have "xor v (xor v x) = xor v (xor v y)" by simp
  then show "x = y" by (simp flip: xor.assoc)
qed

lemma xorshift_inj:
  assumes "xor x (drop_bit 47 x) = xor y (drop_bit 47 (y :: u64))"
  shows "x = y"
proof -
  have z: "drop_bit 47 (drop_bit 47 w) = 0" for w :: u64
    by (simp add: drop_bit_drop_bit)
  have "drop_bit 47 (xor w (drop_bit 47 w)) = drop_bit 47 w" for w :: u64
    by (simp add: drop_bit_xor z)
  from this [of x] this [of y] have e: "drop_bit 47 x = drop_bit 47 y" using assms by simp
  have "xor (drop_bit 47 y) x = xor (drop_bit 47 y) y" using assms unfolding e by (simp add: xor.commute)
  then show ?thesis by (rule xor_left_inj)
qed

lemma Hash128to64_inj: "HashLen16 u v = HashLen16 u' v \<Longrightarrow> u = u'"
proof -
  assume eq: "HashLen16 u v = HashLen16 u' v"
  define m where "m w = xor w (drop_bit 47 w)" for w :: u64
  have m: "m x = m y \<Longrightarrow> x = y" for x y unfolding m_def by (rule xorshift_inj)
  have h: "HashLen16 u v = m (xor v (m (xor u v * kMul)) * kMul) * kMul" for u
    by (simp add: HashLen16_def Hash128to64_def m_def Let_def)
  have "xor v (m (xor u v * kMul)) = xor v (m (xor u' v * kMul))"
    by (rule mul_kMul_inj, rule m, rule mul_kMul_inj) (use eq h in simp)
  then have "m (xor u v * kMul) = m (xor u' v * kMul)" by (rule xor_left_inj)
  then have "xor u v * kMul = xor u' v * kMul" by (rule m)
  then have "xor u v = xor u' v" by (rule mul_kMul_inj)
  then show "u = u'" by (simp add: xor.commute [of _ v] xor_left_inj)
qed

lemma city_seed_eq:
  "CityHash64WithSeed s (length s) seed = CityHash64WithSeed s' (length s') seed \<longleftrightarrow>
   CityHash64 s (length s) = CityHash64 s' (length s')"
proof -
  obtain h h' where h: "CityHash64 s (length s) = Some h" "CityHash64 s' (length s') = Some h'"
    using city64_in [of s] city64_in [of s'] by auto
  show ?thesis
    using h by (auto simp: CityHash64WithSeed_def CityHash64WithSeeds_def dest: Hash128to64_inj)
qed

end
