(* ===== verification/KV_FirstPut.thy ===== *)
theory KV_FirstPut
  imports KV_Prelude
begin

text \<open>
  The contract of a lookup table that never updates an entry: a put is accepted or rejected, and
  the first accepted put under a key is the one every later lookup returns.
\<close>

fun run_flagged :: "('k \<Rightarrow> 'v \<Rightarrow> 's \<Rightarrow> (bool \<times> 's) option) \<Rightarrow> ('k \<times> 'v) list \<Rightarrow> 's \<Rightarrow> (bool list \<times> 's) option" where
  "run_flagged put [] s = Some ([], s)"
| "run_flagged put ((k, v) # xs) s =
     do { (f, s1) \<leftarrow> put k v s;
          (fs, s2) \<leftarrow> run_flagged put xs s1;
          Some (f # fs, s2) }"

text \<open>The puts that were accepted, in order.\<close>

definition accepted :: "bool list \<Rightarrow> ('k \<times> 'v) list \<Rightarrow> ('k \<times> 'v) list" where
  "accepted fs xs = map snd (filter fst (zip fs xs))"

lemma accepted_simps [simp]:
  "accepted fs [] = []" "accepted (True # fs) (x # xs) = x # accepted fs xs"
  "accepted (False # fs) (x # xs) = accepted fs xs"
  by (simp_all add: accepted_def)

lemma accepted_all: "length fs = length xs \<Longrightarrow> list_all id fs \<Longrightarrow> accepted fs xs = xs"
  by (induction fs xs rule: list_induct2) auto

locale first_put_wins =
  fixes ok :: "'s \<Rightarrow> bool" and keys :: "'k set" and look :: "'s \<Rightarrow> 'k \<Rightarrow> 'v option"
    and put :: "'k \<Rightarrow> 'v \<Rightarrow> 's \<Rightarrow> (bool \<times> 's) option"
  assumes put_law: "ok s \<Longrightarrow> k \<in> keys \<Longrightarrow> \<exists>f s'. put k v s = Some (f, s') \<and> ok s' \<and>
      (\<forall>k' \<in> keys. look s' k' = (if k' = k \<and> f \<and> look s k = None then Some v else look s k'))"
begin

lemma run_flagged_ok:
  assumes "ok s" "\<forall>x \<in> set xs. fst x \<in> keys"
  shows "\<exists>fs s'. run_flagged put xs s = Some (fs, s') \<and> ok s' \<and> length fs = length xs \<and>
    (\<forall>k \<in> keys. look s' k = (case look s k of Some a \<Rightarrow> Some a | None \<Rightarrow> map_of (accepted fs xs) k))"
  using assms
proof (induction xs arbitrary: s)
  case Nil
  then show ?case by (auto split: option.splits)
next
  case (Cons x xs)
  obtain k v where x: "x = (k, v)" by (cases x) auto
  obtain f s1 where s1: "put k v s = Some (f, s1)" "ok s1"
    "\<And>k'. k' \<in> keys \<Longrightarrow> look s1 k' = (if k' = k \<and> f \<and> look s k = None then Some v else look s k')"
    using put_law [of s k v] Cons.prems x by auto
  obtain fs s2 where s2: "run_flagged put xs s1 = Some (fs, s2)" "ok s2" "length fs = length xs"
    "\<And>k'. k' \<in> keys \<Longrightarrow> look s2 k' = (case look s1 k' of Some a \<Rightarrow> Some a | None \<Rightarrow> map_of (accepted fs xs) k')"
    using Cons.IH [OF s1(2)] Cons.prems(2) by auto
  have "look s2 k' = (case look s k' of Some a \<Rightarrow> Some a | None \<Rightarrow> map_of (accepted (f # fs) (x # xs)) k')"
    if "k' \<in> keys" for k'
    using s1(3) [OF that] s2(4) [OF that] x by (cases f) (auto split: option.splits)
  then show ?case using s1 s2 x by auto
qed

text \<open>A key that is present keeps its value whatever is put after it.\<close>

lemma kept:
  assumes "ok s" "\<forall>x \<in> set xs. fst x \<in> keys" "k \<in> keys" "look s k = Some a"
  shows "\<exists>fs s'. run_flagged put xs s = Some (fs, s') \<and> look s' k = Some a"
  using run_flagged_ok [OF assms(1,2)] assms(3,4) by fastforce

end

end
