(* ===== verification/KV_Hash.thy ===== *)
theory KV_Hash
  imports KV_City KV_Key KV_Alloc KV_FirstPut
begin

text \<open>
  The hash index: \<open>struct hash_bucket\<close> and \<open>struct hash_table\<close> of
  \<open>bufferevent_single/Hikv/obj/hashtable.h\<close>. A partition is an array of buckets of four slots,
  each a signature and an address; a key has two buckets, chosen by CityHash64 with two seeds,
  and its signature in each is that hash. A signature of 0 marks a free slot, an address of 0 is
  the answer "not found". \<open>PERSIST_HASHTABLE\<close> is off in the committed configuration.
\<close>

section \<open>State\<close>

definition NUM_SLOT :: nat where "NUM_SLOT = 4"
definition SEED1 :: u64 where "SEED1 = 4396"
definition SEED2 :: u64 where "SEED2 = 1995"

record hash_bucket =
  signature :: "u64 list"
  addr :: "u64 list"

record hash_table =
  ht_num_partition :: int
  num_bucket :: int
  partition :: "hash_bucket list list"

definition zero_bucket :: hash_bucket where
  "zero_bucket = \<lparr>signature = replicate NUM_SLOT 0, addr = replicate NUM_SLOT 0\<rparr>"

text \<open>
  The constructor without an allocator, and with one. The counts are \<open>size_t\<close> arguments stored
  in \<open>int\<close> members; the arrays are allocated for the arguments and cleared.
\<close>

fun ht_alloc :: "nat \<Rightarrow> nat \<Rightarrow> u64 \<Rightarrow> pm_alloctor option \<Rightarrow> hash_bucket list list \<Rightarrow> (hash_bucket list list \<times> pm_alloctor option) option" where
  "ht_alloc i 0 nb al ps = Some (ps, al)"
| "ht_alloc i (Suc k) nb al ps =
     do { al' \<leftarrow> (case al of
            None \<Rightarrow> Some None
          | Some a \<Rightarrow> do { (_, a') \<leftarrow> alloc i (nb * 64) a; Some (Some a') });
          ps' \<leftarrow> wr ps i (replicate (unat nb) zero_bucket);
          ht_alloc (i + 1) k nb al' ps' }"

definition hash_table_new :: "u64 \<Rightarrow> u64 \<Rightarrow> pm_alloctor option \<Rightarrow> hash_bucket list list \<Rightarrow> (hash_table \<times> pm_alloctor option) option" where
  "hash_table_new np nb al mem =
     do { (ps, al') \<leftarrow> ht_alloc 0 (unat np) nb al mem;
          Some (\<lparr>ht_num_partition = sint (ucast np :: 32 word), num_bucket = sint (ucast nb :: 32 word), partition = ps\<rparr>, al') }"

section \<open>Operations\<close>

definition hash1 :: "byte list \<Rightarrow> u64 option" where
  "hash1 key = CityHash64WithSeed (take KEY_LENGTH key) KEY_LENGTH SEED1"

definition hash2 :: "byte list \<Rightarrow> u64 option" where
  "hash2 key = CityHash64WithSeed (take KEY_LENGTH key) KEY_LENGTH SEED2"

text \<open>The \<open>int\<close> bucket count is converted to 64 bits for the remainder; zero is a trap.\<close>

definition bucket_id :: "u64 \<Rightarrow> int \<Rightarrow> nat option" where
  "bucket_id h nb = (let n = word_of_int nb :: u64 in if n = 0 then None else Some (unat (h mod n)))"

text \<open>Writing a slot: the address first, then the signature that makes it visible.\<close>

definition put_slot :: "hash_bucket list \<Rightarrow> nat \<Rightarrow> nat \<Rightarrow> u64 \<Rightarrow> u64 \<Rightarrow> hash_bucket list option" where
  "put_slot p b i sig v =
     do { bk \<leftarrow> rd p b;
          as \<leftarrow> wr (addr bk) i v;
          ss \<leftarrow> wr (signature bk) i sig;
          wr p b (bk\<lparr>addr := as, signature := ss\<rparr>) }"

fun insert_slots :: "u64 \<Rightarrow> u64 \<Rightarrow> nat \<Rightarrow> nat \<Rightarrow> u64 \<Rightarrow> nat \<Rightarrow> nat \<Rightarrow> hash_bucket list \<Rightarrow> (bool \<times> hash_bucket list) option" where
  "insert_slots h1 h2 b1 b2 v i 0 p = Some (False, p)"
| "insert_slots h1 h2 b1 b2 v i (Suc k) p =
     do { bk1 \<leftarrow> rd p b1;
          s1 \<leftarrow> rd (signature bk1) i;
          if s1 = 0 then do { p' \<leftarrow> put_slot p b1 i h1 v; Some (True, p') }
          else do {
            bk2 \<leftarrow> rd p b2;
            s2 \<leftarrow> rd (signature bk2) i;
            if \<not> (b1 = b2) \<and> s2 = 0 then do { p' \<leftarrow> put_slot p b2 i h2 v; Some (True, p') }
            else insert_slots h1 h2 b1 b2 v (i + 1) k p } }"

definition ht_insert :: "nat \<Rightarrow> byte list \<Rightarrow> u64 \<Rightarrow> hash_table \<Rightarrow> (bool \<times> hash_table) option" where
  "ht_insert pid key v t =
     do { h1 \<leftarrow> hash1 key;
          h2 \<leftarrow> hash2 key;
          b1 \<leftarrow> bucket_id h1 (num_bucket t);
          b2 \<leftarrow> bucket_id h2 (num_bucket t);
          p \<leftarrow> rd (partition t) pid;
          (flag, p') \<leftarrow> insert_slots h1 h2 b1 b2 v 0 NUM_SLOT p;
          ps \<leftarrow> wr (partition t) pid p';
          Some (flag, t\<lparr>partition := ps\<rparr>) }"

fun search_slots :: "u64 \<Rightarrow> u64 \<Rightarrow> nat \<Rightarrow> nat \<Rightarrow> nat \<Rightarrow> nat \<Rightarrow> hash_bucket list \<Rightarrow> u64 option" where
  "search_slots h1 h2 b1 b2 i 0 p = Some 0"
| "search_slots h1 h2 b1 b2 i (Suc k) p =
     do { bk1 \<leftarrow> rd p b1;
          s1 \<leftarrow> rd (signature bk1) i;
          if s1 = h1 then rd (addr bk1) i
          else do {
            bk2 \<leftarrow> rd p b2;
            s2 \<leftarrow> rd (signature bk2) i;
            if s2 = h2 then rd (addr bk2) i
            else search_slots h1 h2 b1 b2 (i + 1) k p } }"

definition ht_search :: "nat \<Rightarrow> byte list \<Rightarrow> hash_table \<Rightarrow> u64 option" where
  "ht_search pid key t =
     do { h1 \<leftarrow> hash1 key;
          h2 \<leftarrow> hash2 key;
          b1 \<leftarrow> bucket_id h1 (num_bucket t);
          b2 \<leftarrow> bucket_id h2 (num_bucket t);
          p \<leftarrow> rd (partition t) pid;
          search_slots h1 h2 b1 b2 0 NUM_SLOT p }"

section \<open>Probe sequences\<close>

text \<open>
  The slots an operation looks at, in order: a bucket, a slot and the signature the key has there.
\<close>

type_synonym probe = "nat \<times> nat \<times> u64"

definition probes :: "u64 \<Rightarrow> u64 \<Rightarrow> nat \<Rightarrow> nat \<Rightarrow> nat \<Rightarrow> nat \<Rightarrow> probe list" where
  "probes h1 h2 b1 b2 i k = concat (map (\<lambda>j. [(b1, j, h1), (b2, j, h2)]) [i..<i + k])"

definition sig_at :: "hash_bucket list \<Rightarrow> probe \<Rightarrow> u64" where
  "sig_at p pr = signature (p ! fst pr) ! fst (snd pr)"

definition addr_at :: "hash_bucket list \<Rightarrow> probe \<Rightarrow> u64" where
  "addr_at p pr = addr (p ! fst pr) ! fst (snd pr)"

definition free :: "hash_bucket list \<Rightarrow> probe \<Rightarrow> bool" where
  "free p pr \<longleftrightarrow> sig_at p pr = 0"

definition hit :: "hash_bucket list \<Rightarrow> probe \<Rightarrow> bool" where
  "hit p pr \<longleftrightarrow> sig_at p pr = snd (snd pr)"

definition set_slot :: "hash_bucket list \<Rightarrow> probe \<Rightarrow> u64 \<Rightarrow> hash_bucket list" where
  "set_slot p pr v =
     (let b = fst pr; i = fst (snd pr); bk = p ! b
      in p[b := bk\<lparr>addr := (addr bk)[i := v], signature := (signature bk)[i := snd (snd pr)]\<rparr>])"

definition buckets_ok :: "nat \<Rightarrow> hash_bucket list \<Rightarrow> bool" where
  "buckets_ok nb p \<longleftrightarrow> length p = nb \<and>
     (\<forall>bk \<in> set p. length (signature bk) = NUM_SLOT \<and> length (addr bk) = NUM_SLOT)"

lemma NUM_SLOT_val [access_simps]: "NUM_SLOT = 4" by (simp add: NUM_SLOT_def)

lemma probes_Suc: "probes h1 h2 b1 b2 i (Suc k) = (b1, i, h1) # (b2, i, h2) # probes h1 h2 b1 b2 (i + 1) k"
proof -
  have "[i..<i + Suc k] = i # [i + 1..<(i + 1) + k]" by (simp add: upt_rec)
  then show ?thesis unfolding probes_def by simp
qed

lemma probes_0: "probes h1 h2 b1 b2 i 0 = []"
  by (simp add: probes_def)

lemma put_slot_ok:
  assumes "buckets_ok nb p" "b < nb" "i < 4"
  shows "put_slot p b i s v = Some (set_slot p (b, i, s) v)"
  using assms by (simp add: put_slot_def set_slot_def buckets_ok_def access_simps Let_def)

text \<open>Insertion takes the first free slot of the sequence, search the first that matches.\<close>

lemma insert_slots_ok:
  assumes ok: "buckets_ok nb p" and b: "b1 < nb" "b2 < nb" and i: "i + k \<le> 4"
  shows "insert_slots h1 h2 b1 b2 v i k p =
     Some (case find (free p) (probes h1 h2 b1 b2 i k) of
             None \<Rightarrow> (False, p) | Some pr \<Rightarrow> (True, set_slot p pr v))"
  using i
proof (induction k arbitrary: i)
  case 0
  then show ?case by (simp add: probes_0)
next
  case (Suc k)
  have len: "b1 < length p" "b2 < length p" "i < length (signature (p ! b1))" "i < length (signature (p ! b2))" "i < 4"
    using ok b Suc.prems by (auto simp: buckets_ok_def access_simps)
  note IH = Suc.IH [of "i + 1"]
  show ?case
    using len IH Suc.prems put_slot_ok [OF ok b(1)] put_slot_ok [OF ok b(2)]
    by (auto simp: access_simps probes_Suc free_def sig_at_def)
qed

lemma search_slots_ok:
  assumes ok: "buckets_ok nb p" and b: "b1 < nb" "b2 < nb" and i: "i + k \<le> 4"
  shows "search_slots h1 h2 b1 b2 i k p =
     Some (case find (hit p) (probes h1 h2 b1 b2 i k) of None \<Rightarrow> 0 | Some pr \<Rightarrow> addr_at p pr)"
  using i
proof (induction k arbitrary: i)
  case 0
  then show ?case by (simp add: probes_0)
next
  case (Suc k)
  have len: "b1 < length p" "b2 < length p" "i < length (signature (p ! b1))" "i < length (signature (p ! b2))"
    "i < length (addr (p ! b1))" "i < length (addr (p ! b2))"
    using ok b Suc.prems by (auto simp: buckets_ok_def access_simps)
  note IH = Suc.IH [of "i + 1"]
  show ?case
    using len IH Suc.prems by (auto simp: access_simps probes_Suc hit_def sig_at_def addr_at_def)
qed

section \<open>A table as a map\<close>

definition sig1 :: "byte list \<Rightarrow> u64" where "sig1 key = the (hash1 key)"
definition sig2 :: "byte list \<Rightarrow> u64" where "sig2 key = the (hash2 key)"

definition key_probes :: "int \<Rightarrow> byte list \<Rightarrow> probe list" where
  "key_probes nb key =
     (let n = word_of_int nb :: u64
      in probes (sig1 key) (sig2 key) (unat (sig1 key mod n)) (unat (sig2 key mod n)) 0 NUM_SLOT)"

text \<open>
  Keys that the hashes tell apart. Searching compares signatures only, so nothing can be said of
  keys that share one.
\<close>

definition told_apart :: "byte list set \<Rightarrow> bool" where
  "told_apart K \<longleftrightarrow>
     (\<forall>k \<in> K. KEY_LENGTH \<le> length k \<and> sig1 k \<noteq> 0 \<and> sig2 k \<noteq> 0) \<and>
     (\<forall>k \<in> K. \<forall>k' \<in> K. k \<noteq> k' \<longrightarrow> {sig1 k, sig2 k} \<inter> {sig1 k', sig2 k'} = {})"

text \<open>Every used slot was filled for some key when all slots before it in that key's sequence were taken.\<close>

definition table_ok :: "int \<Rightarrow> byte list set \<Rightarrow> hash_bucket list \<Rightarrow> bool" where
  "table_ok nb K p \<longleftrightarrow>
     0 < nb \<and> nb < 2 ^ 31 \<and> buckets_ok (nat nb) p \<and>
     (\<forall>b < nat nb. \<forall>i < 4. signature (p ! b) ! i \<noteq> 0 \<longrightarrow>
        (\<exists>k \<in> K. \<exists>xs ys. key_probes nb k = xs @ (b, i, signature (p ! b) ! i) # ys \<and> (\<forall>x \<in> set xs. \<not> free p x)))"

definition lookup :: "int \<Rightarrow> hash_bucket list \<Rightarrow> byte list \<Rightarrow> u64 option" where
  "lookup nb p key = map_option (addr_at p) (find (hit p) (key_probes nb key))"

lemma hash_total: "KEY_LENGTH \<le> length key \<Longrightarrow> hash1 key = Some (sig1 key) \<and> hash2 key = Some (sig2 key)"
proof -
  assume "KEY_LENGTH \<le> length key"
  then have l: "length (take KEY_LENGTH key) = KEY_LENGTH" by simp
  have "CityHash64 (take KEY_LENGTH key) KEY_LENGTH \<noteq> None"
    using city64_in [of "take KEY_LENGTH key"] unfolding l .
  then show ?thesis
    by (auto simp: sig1_def sig2_def hash1_def hash2_def CityHash64WithSeed_def CityHash64WithSeeds_def)
qed

lemma bucket_in:
  assumes "0 < nb" "nb < 2 ^ 31"
  shows "bucket_id h nb = Some (unat (h mod word_of_int nb))" "unat (h mod word_of_int nb) < nat nb"
proof -
  have u: "unat (word_of_int nb :: u64) = nat nb"
    using assms by (simp add: unat_eq_nat_uint uint_word_of_int)
  then show "bucket_id h nb = Some (unat (h mod word_of_int nb))"
    using assms by (auto simp: bucket_id_def Let_def)
  show "unat (h mod word_of_int nb) < nat nb" using u assms by (simp add: unat_mod)
qed

lemma probe_in:
  assumes "0 < nb" "nb < 2 ^ 31" and "pr \<in> set (key_probes nb k)"
  shows "fst pr < nat nb \<and> fst (snd pr) < 4 \<and> snd (snd pr) \<in> {sig1 k, sig2 k}"
  using assms(3) bucket_in(2) [OF assms(1,2)]
  by (auto simp: key_probes_def probes_def access_simps Let_def)

lemma ht_search_lookup:
  assumes ok: "table_ok nb K p" and t: "num_bucket t = nb" "pid < length (partition t)" "partition t ! pid = p"
    and key: "KEY_LENGTH \<le> length key"
  shows "ht_search pid key t = Some (case lookup nb p key of None \<Rightarrow> 0 | Some a \<Rightarrow> a)"
proof -
  have nb: "0 < nb" "nb < 2 ^ 31" "buckets_ok (nat nb) p" using ok by (auto simp: table_ok_def)
  note b = bucket_in [OF nb(1,2)]
  show ?thesis
    using hash_total [OF key] t search_slots_ok [OF nb(3) b(2) b(2), of 0 NUM_SLOT "sig1 key" "sig2 key"]
    by (auto simp: ht_search_def b(1) access_simps lookup_def key_probes_def Let_def split: option.splits)
qed

lemma nth_set_slot:
  assumes "buckets_ok nb p" "fst pr < nb" "fst (snd pr) < 4" "fst q < nb" "fst (snd q) < 4"
  shows "sig_at (set_slot p pr v) q
       = (if fst q = fst pr \<and> fst (snd q) = fst (snd pr) then snd (snd pr) else sig_at p q)"
    "addr_at (set_slot p pr v) q
       = (if fst q = fst pr \<and> fst (snd q) = fst (snd pr) then v else addr_at p q)"
  using assms by (auto simp: sig_at_def addr_at_def set_slot_def Let_def buckets_ok_def access_simps nth_list_update)

lemma buckets_ok_set_slot: "buckets_ok nb p \<Longrightarrow> buckets_ok nb (set_slot p pr v)"
proof -
  assume ok: "buckets_ok nb p"
  let ?bk = "p ! fst pr"
  let ?new = "?bk\<lparr>addr := (addr ?bk)[fst (snd pr) := v], signature := (signature ?bk)[fst (snd pr) := snd (snd pr)]\<rparr>"
  show ?thesis
  proof (cases "fst pr < length p")
    case True
    then have "?bk \<in> set p" by simp
    then have "length (signature ?new) = NUM_SLOT \<and> length (addr ?new) = NUM_SLOT"
      using ok by (simp add: buckets_ok_def)
    moreover have "set (set_slot p pr v) \<subseteq> insert ?new (set p)"
      unfolding set_slot_def Let_def by (rule set_update_subset_insert)
    ultimately show ?thesis using ok unfolding buckets_ok_def by (auto simp: set_slot_def Let_def)
  next
    case False
    then show ?thesis using ok by (simp add: set_slot_def Let_def list_update_beyond)
  qed
qed

lemma find_append: "find P (xs @ ys) = (case find P xs of None \<Rightarrow> find P ys | Some x \<Rightarrow> Some x)"
  by (induction xs) auto

lemma find_cong_set: "(\<And>x. x \<in> set xs \<Longrightarrow> P x = Q x) \<Longrightarrow> find P xs = find Q xs"
  by (induction xs) auto

lemma find_split:
  "find P zs = Some x \<Longrightarrow> \<exists>xs ys. zs = xs @ x # ys \<and> P x \<and> (\<forall>y \<in> set xs. \<not> P y)"
proof (induction zs)
  case (Cons z zs)
  show ?case
  proof (cases "P z")
    case True
    then show ?thesis using Cons.prems by (intro exI [of _ "[]"] exI [of _ zs]) simp
  next
    case False
    then obtain xs ys where "zs = xs @ x # ys \<and> P x \<and> (\<forall>y \<in> set xs. \<not> P y)"
      using Cons by auto
    then show ?thesis using False by (intro exI [of _ "z # xs"] exI [of _ ys]) auto
  qed
qed simp

lemma told_apartD:
  "told_apart K \<Longrightarrow> k \<in> K \<Longrightarrow> k' \<in> K \<Longrightarrow> k \<noteq> k' \<Longrightarrow> {sig1 k, sig2 k} \<inter> {sig1 k', sig2 k'} = {}"
  "told_apart K \<Longrightarrow> k \<in> K \<Longrightarrow> sig1 k \<noteq> 0" "told_apart K \<Longrightarrow> k \<in> K \<Longrightarrow> sig2 k \<noteq> 0"
  by (simp_all add: told_apart_def)

lemma two_splits: "xs @ x # ys = xs' @ y # ys' \<Longrightarrow> y \<noteq> x \<Longrightarrow> y \<in> set xs \<or> x \<in> set xs'"
proof (induction xs arbitrary: xs')
  case Nil
  then show ?case by (cases xs') auto
next
  case (Cons z xs)
  then show ?case by (cases xs') auto
qed

lemma put_table:
  assumes ok: "table_ok nb K p" and ta: "told_apart K" and key: "key \<in> K"
    and sp: "key_probes nb key = xs @ pr # ys" "free p pr" "\<forall>x \<in> set xs. \<not> free p x"
  shows "table_ok nb K (set_slot p pr v)"
    and "k \<in> K \<Longrightarrow> lookup nb (set_slot p pr v) k
       = (if k = key \<and> lookup nb p key = None then Some v else lookup nb p k)"
proof -
  let ?p = "set_slot p pr v"
  have nb: "0 < nb" "nb < 2 ^ 31" "buckets_ok (nat nb) p" using ok by (auto simp: table_ok_def)
  obtain b i s where pr: "pr = (b, i, s)" by (cases pr) auto
  note pin = probe_in [OF nb(1,2)]
  have bis: "b < nat nb" "i < 4" "s \<in> {sig1 key, sig2 key}"
    using pin [of pr key] sp(1) by (auto simp: pr)
  have s0: "s \<noteq> 0" using ta key bis(3) by (auto simp: told_apart_def)
  have at: "sig_at ?p q = (if fst q = b \<and> fst (snd q) = i then s else sig_at p q)"
    "addr_at ?p q = (if fst q = b \<and> fst (snd q) = i then v else addr_at p q)"
    if "q \<in> set (key_probes nb k)" for q k
    using nth_set_slot [OF nb(3), of pr q v] pin [OF that] bis by (auto simp: pr)
  have was0: "sig_at p q = 0" if "fst q = b" "fst (snd q) = i" for q
    using sp(2) that by (simp add: free_def sig_at_def pr)
  have keep: "\<not> free ?p q" if "q \<in> set (key_probes nb k)" "\<not> free p q" for q k
    using at(1) [OF that(1)] that(2) s0 by (auto simp: free_def)
  have owner: "\<exists>k \<in> K. \<exists>xs ys. key_probes nb k = xs @ (fst q, fst (snd q), sig_at p q) # ys \<and> (\<forall>x \<in> set xs. \<not> free p x)"
    if "fst q < nat nb" "fst (snd q) < 4" "sig_at p q \<noteq> 0" for q
    using ok that unfolding table_ok_def sig_at_def by blast
  show "table_ok nb K ?p"
    unfolding table_ok_def
  proof (intro conjI allI impI)
    fix b' i' assume b': "b' < nat nb" and i': "i' < 4" and ne: "signature (?p ! b') ! i' \<noteq> 0"
    have new: "signature (?p ! b') ! i' = (if b' = b \<and> i' = i then s else signature (p ! b') ! i')"
      using nth_set_slot(1) [OF nb(3), of pr "(b', i', 0)" v] bis b' i' by (simp add: pr sig_at_def)
    show "\<exists>k \<in> K. \<exists>xs ys. key_probes nb k = xs @ (b', i', signature (?p ! b') ! i') # ys \<and> (\<forall>x \<in> set xs. \<not> free ?p x)"
    proof (cases "b' = b \<and> i' = i")
      case True
      then show ?thesis
        using key sp keep [of _ key] new unfolding pr by (intro bexI [of _ key] exI [of _ xs] exI [of _ ys]) auto
    next
      case False
      then obtain k xs' ys' where k: "k \<in> K" "key_probes nb k = xs' @ (b', i', signature (p ! b') ! i') # ys'"
          "\<forall>x \<in> set xs'. \<not> free p x"
        using owner [of "(b', i', 0)"] b' i' ne new by (auto simp: sig_at_def)
      then show ?thesis
        using keep [of _ k] new False by (intro bexI [of _ k] exI [of _ xs'] exI [of _ ys']) auto
    qed
  qed (use nb buckets_ok_set_slot in auto)
  show "lookup nb ?p k = (if k = key \<and> lookup nb p key = None then Some v else lookup nb p k)" if k: "k \<in> K"
  proof (cases "k = key")
    case False
    have same: "hit ?p q = hit p q \<and> (hit p q \<longrightarrow> addr_at ?p q = addr_at p q)" if q: "q \<in> set (key_probes nb k)" for q
    proof (cases "fst q = b \<and> fst (snd q) = i")
      case True
      have "snd (snd q) \<in> {sig1 k, sig2 k}" using pin [OF q] by simp
      then have "snd (snd q) \<noteq> s" "snd (snd q) \<noteq> 0"
        using told_apartD(1) [OF ta k key False] told_apartD(2,3) [OF ta k] bis(3) by auto
      then show ?thesis using at(1) [OF q] was0 True by (simp add: hit_def)
    next
      case False
      then show ?thesis using at [OF q] by (auto simp: hit_def)
    qed
    have "find (hit ?p) (key_probes nb k) = find (hit p) (key_probes nb k)"
      by (rule find_cong_set) (use same in blast)
    moreover have "q \<in> set (key_probes nb k) \<and> hit p q" if "find (hit p) (key_probes nb k) = Some q" for q
      using find_split [OF that] by auto
    ultimately show ?thesis
      using False same by (cases "find (hit p) (key_probes nb k)") (auto simp: lookup_def)
  next
    case True
    have xs_same: "hit ?p q = hit p q \<and> addr_at ?p q = addr_at p q" if "q \<in> set xs" for q
      using at [of q key] was0 [of q] sp(1,3) that by (auto simp: hit_def free_def)
    have fx: "find (hit ?p) xs = find (hit p) xs" by (rule find_cong_set) (use xs_same in blast)
    have hp: "hit ?p pr" "addr_at ?p pr = v" using at [of pr key] sp(1) by (auto simp: hit_def pr)
    have none: "find (hit p) (pr # ys) = None" if nx: "find (hit p) xs = None"
    proof -
      have "\<not> hit p q" if q: "q \<in> set (pr # ys)" for q
      proof
        assume h: "hit p q"
        have qk: "q \<in> set (key_probes nb key)" using q sp(1) by auto
        have sq: "sig_at p q = snd (snd q)" "snd (snd q) \<in> {sig1 key, sig2 key}"
          using h pin [OF qk] by (auto simp: hit_def)
        then have "sig_at p q \<noteq> 0" using ta key by (auto simp: told_apart_def)
        then obtain k' xs' ys' where k': "k' \<in> K" "key_probes nb k' = xs' @ (fst q, fst (snd q), sig_at p q) # ys'"
            "\<forall>x \<in> set xs'. \<not> free p x"
          using owner [of q] pin [OF qk] by blast
        have "sig_at p q \<in> {sig1 k', sig2 k'}"
          using pin [of "(fst q, fst (snd q), sig_at p q)" k'] k'(2) by simp
        then have "{sig1 k', sig2 k'} \<inter> {sig1 key, sig2 key} \<noteq> {}" using sq by auto
        then have "k' = key" using told_apartD(1) [OF ta k'(1) key] by blast
        then have eq: "xs @ pr # ys = xs' @ q # ys'" using k'(2) sp(1) sq(1) by (metis prod.collapse)
        have "\<not> free p q" using \<open>sig_at p q \<noteq> 0\<close> by (simp add: free_def)
        then have "q \<noteq> pr" using sp(2) by blast
        consider "q \<in> set xs" | "pr \<in> set xs'"
          using two_splits [OF eq \<open>q \<noteq> pr\<close>] by blast
        then show False
        proof cases
          case 1
          then show False using nx h unfolding find_None_iff by blast
        next
          case 2
          then show False using k'(3) sp(2) by blast
        qed
      qed
      then show ?thesis unfolding find_None_iff by blast
    qed
    show ?thesis
    proof (cases "find (hit p) xs")
      case None
      then show ?thesis using True fx hp none by (simp add: lookup_def sp(1) find_append)
    next
      case (Some q)
      then have "q \<in> set xs" using find_split [OF Some] by auto
      then show ?thesis using Some True fx xs_same by (simp add: lookup_def sp(1) find_append)
    qed
  qed
qed

section \<open>The operations on the map\<close>

lemma ht_insert_lookup:
  assumes ok: "table_ok nb K p" and ta: "told_apart K" and key: "key \<in> K"
    and t: "num_bucket t = nb" "pid < length (partition t)" "partition t ! pid = p"
  obtains flag p' where "ht_insert pid key v t = Some (flag, t\<lparr>partition := (partition t)[pid := p']\<rparr>)"
    "table_ok nb K p'" "flag \<longleftrightarrow> (\<exists>pr \<in> set (key_probes nb key). free p pr)"
    "\<And>k. k \<in> K \<Longrightarrow> lookup nb p' k = (if k = key \<and> flag \<and> lookup nb p key = None then Some v else lookup nb p k)"
proof -
  have nb: "0 < nb" "nb < 2 ^ 31" "buckets_ok (nat nb) p" using ok by (auto simp: table_ok_def)
  note b = bucket_in [OF nb(1,2)]
  have len: "KEY_LENGTH \<le> length key" using ta key by (simp add: told_apart_def)
  have ins: "ht_insert pid key v t = Some (case find (free p) (key_probes nb key) of
        None \<Rightarrow> (False, t\<lparr>partition := (partition t)[pid := p]\<rparr>)
      | Some pr \<Rightarrow> (True, t\<lparr>partition := (partition t)[pid := set_slot p pr v]\<rparr>))"
    using hash_total [OF len] t insert_slots_ok [OF nb(3) b(2) b(2), of 0 NUM_SLOT "sig1 key" "sig2 key"]
    by (auto simp: ht_insert_def b(1) access_simps key_probes_def Let_def split: option.splits)
  show ?thesis
  proof (cases "find (free p) (key_probes nb key)")
    case None
    then have "\<not> (\<exists>pr \<in> set (key_probes nb key). free p pr)" unfolding find_None_iff by blast
    then show ?thesis using that [of False p] ins None ok by simp
  next
    case (Some pr)
    obtain xs ys where sp: "key_probes nb key = xs @ pr # ys" "free p pr" "\<forall>x \<in> set xs. \<not> free p x"
      using find_split [OF Some] by blast
    then have "\<exists>pr \<in> set (key_probes nb key). free p pr" by auto
    then show ?thesis
      using that [of True "set_slot p pr v"] ins Some put_table [OF ok ta key sp] by simp
  qed
qed

lemma zero_table_ok:
  assumes "0 < nb" "nb < 2 ^ 31"
  shows "table_ok nb K (replicate (nat nb) zero_bucket)" "told_apart K \<Longrightarrow> k \<in> K \<Longrightarrow> lookup nb (replicate (nat nb) zero_bucket) k = None"
proof -
  have z: "sig_at (replicate (nat nb) zero_bucket) q = 0" if "fst q < nat nb" "fst (snd q) < 4" for q
    using that by (simp add: sig_at_def zero_bucket_def access_simps)
  then show "table_ok nb K (replicate (nat nb) zero_bucket)"
    using assms by (auto simp: table_ok_def buckets_ok_def zero_bucket_def access_simps)
  show "lookup nb (replicate (nat nb) zero_bucket) k = None" if "told_apart K" "k \<in> K"
  proof -
    have "\<not> hit (replicate (nat nb) zero_bucket) q" if "q \<in> set (key_probes nb k)" for q
      using probe_in [OF assms that] z [of q] told_apartD(2,3) [OF \<open>told_apart K\<close> \<open>k \<in> K\<close>] by (auto simp: hit_def)
    then have "find (hit (replicate (nat nb) zero_bucket)) (key_probes nb k) = None" unfolding find_None_iff by blast
    then show ?thesis by (simp add: lookup_def)
  qed
qed

text \<open>A fresh table without an allocator, and one partition of a table as a table of first puts.\<close>

lemma ht_alloc_ok:
  "i + k \<le> length ps \<Longrightarrow> \<exists>ps'. ht_alloc i k nb None ps = Some (ps', None) \<and> length ps' = length ps \<and>
     (\<forall>j < length ps. ps' ! j = (if i \<le> j \<and> j < i + k then replicate (unat nb) zero_bucket else ps ! j))"
proof (induction k arbitrary: i ps)
  case (Suc k)
  let ?ps = "ps[i := replicate (unat nb) zero_bucket]"
  obtain ps' where ps': "ht_alloc (i + 1) k nb None ?ps = Some (ps', None)" "length ps' = length ps"
    "\<And>j. j < length ps \<Longrightarrow> ps' ! j = (if i + 1 \<le> j \<and> j < i + 1 + k then replicate (unat nb) zero_bucket else ?ps ! j)"
    using Suc.IH [of "i + 1" ?ps] Suc.prems by auto
  have "ps' ! j = (if i \<le> j \<and> j < i + Suc k then replicate (unat nb) zero_bucket else ps ! j)" if "j < length ps" for j
    using ps'(3) [OF that] that by (cases "j = i") auto
  then show ?case using ps'(1,2) Suc.prems by (simp add: access_simps)
qed auto

definition table_state :: "int \<Rightarrow> nat \<Rightarrow> byte list set \<Rightarrow> hash_table \<Rightarrow> bool" where
  "table_state nb pid K t \<longleftrightarrow>
     told_apart K \<and> num_bucket t = nb \<and> pid < length (partition t) \<and> table_ok nb K (partition t ! pid)"

definition table_look :: "int \<Rightarrow> nat \<Rightarrow> hash_table \<Rightarrow> byte list \<Rightarrow> u64 option" where
  "table_look nb pid t k = lookup nb (partition t ! pid) k"

lemma new_table_state:
  assumes "unat np \<le> length mem" "0 < unat nb" "unat nb < 2 ^ 31" "pid < unat np" "told_apart K"
  obtains t where "hash_table_new np nb None mem = Some (t, None)" "table_state (uint nb) pid K t"
    "\<forall>k \<in> K. table_look (uint nb) pid t k = None"
proof -
  obtain ps where ps: "ht_alloc 0 (unat np) nb None mem = Some (ps, None)" "length ps = length mem"
    "ps ! pid = replicate (unat nb) zero_bucket"
    using ht_alloc_ok [of 0 "unat np" mem nb] assms by auto
  have i: "uint nb = int (unat nb)" by simp
  have u: "nat (uint nb) = unat nb" by simp
  have b: "0 < uint nb" "uint nb < 2 ^ 31"
  proof -
    show "0 < uint nb" using assms(2) unfolding i by (simp only: of_nat_0_less_iff)
    have "int (unat nb) < int (2 ^ 31)" using assms(3) by (simp only: of_nat_less_iff)
    then show "uint nb < 2 ^ 31" unfolding i by (simp only: of_nat_power of_nat_numeral)
  qed
  have "uint (ucast nb :: 32 word) = uint nb"
    using b by (simp add: unsigned_ucast_eq take_bit_int_eq_self)
  then have sn: "sint (ucast nb :: 32 word) = uint nb"
    using b by (simp add: sint_uint signed_take_bit_int_eq_self)
  let ?t = "\<lparr>ht_num_partition = sint (ucast np :: 32 word), num_bucket = sint (ucast nb :: 32 word), partition = ps\<rparr>"
  have "hash_table_new np nb None mem = Some (?t, None)" using ps(1) by (simp add: hash_table_new_def)
  moreover have "table_state (uint nb) pid K ?t"
    using zero_table_ok(1) [OF b] assms ps sn u by (simp add: table_state_def)
  moreover have "\<forall>k \<in> K. table_look (uint nb) pid ?t k = None"
    using zero_table_ok(2) [OF b assms(5)] ps(3) u by (simp add: table_look_def)
  ultimately show ?thesis using that by blast
qed

lemma table_put_law:
  assumes "table_state nb pid K t" "k \<in> K"
  shows "\<exists>f t'. ht_insert pid k v t = Some (f, t') \<and> table_state nb pid K t' \<and>
      (\<forall>k' \<in> K. table_look nb pid t' k' = (if k' = k \<and> f \<and> table_look nb pid t k = None then Some v else table_look nb pid t k'))"
proof -
  have st: "table_ok nb K (partition t ! pid)" "told_apart K" "num_bucket t = nb" "pid < length (partition t)"
    using assms(1) by (auto simp: table_state_def)
  obtain f p' where p': "ht_insert pid k v t = Some (f, t\<lparr>partition := (partition t)[pid := p']\<rparr>)" "table_ok nb K p'"
    "\<And>k'. k' \<in> K \<Longrightarrow> lookup nb p' k' = (if k' = k \<and> f \<and> lookup nb (partition t ! pid) k = None then Some v else lookup nb (partition t ! pid) k')"
    using ht_insert_lookup [OF st(1,2) assms(2) st(3,4) refl, where v = v] by metis
  then show ?thesis using st by (auto simp: table_state_def table_look_def)
qed

interpretation table: first_put_wins "table_state nb pid K" K "table_look nb pid" "ht_insert pid"
  for nb :: int and pid :: nat and K :: "byte list set"
  by unfold_locales (rule table_put_law)

lemma table_search:
  assumes "table_state nb pid K t" "k \<in> K"
  shows "ht_search pid k t = Some (case table_look nb pid t k of None \<Rightarrow> 0 | Some a \<Rightarrow> a)"
proof -
  have "KEY_LENGTH \<le> length k" using assms by (auto simp: table_state_def told_apart_def)
  then show ?thesis
    using ht_search_lookup [of nb K "partition t ! pid" t pid k] assms(1) by (auto simp: table_state_def table_look_def)
qed

text \<open>The two seeds give no independent signatures: keys that share one share the other.\<close>

lemma signatures_collide_together:
  assumes "length k = KEY_LENGTH" "length k' = KEY_LENGTH"
  shows "hash1 k = hash1 k' \<longleftrightarrow> hash2 k = hash2 k'"
  using city_seed_eq [of k SEED1 k'] city_seed_eq [of k SEED2 k'] assms by (simp add: hash1_def hash2_def)

end
