(* ===== verification/KV_StoreFacts.thy ===== *)
theory KV_StoreFacts
  imports KV_Plog KV_Hash
begin

text \<open>
  The properties of the parts the store is built from: the order of keys, the pool allocator, the
  copy into persistent memory, the log and the hash index.
\<close>

section \<open>Keys\<close>

text \<open>A key read as a number, its first byte the most significant.\<close>

fun be_number :: "byte list \<Rightarrow> nat" where
  "be_number [] = 0"
| "be_number (x # xs) = unat x * 256 ^ length xs + be_number xs"

lemma be_number_bound: "be_number xs < 256 ^ length xs"
proof (induction xs)
  case (Cons x xs)
  have "unat x < 2 ^ LENGTH(8)" by (rule unsigned_less)
  then have "(unat x + 1) * 256 ^ length xs \<le> 256 * 256 ^ length xs" by (intro mult_le_mono1) simp
  then have "unat x * 256 ^ length xs + 256 ^ length xs \<le> 256 * 256 ^ length xs"
    by (simp only: add_mult_distrib mult_1)
  then have "unat x * 256 ^ length xs + be_number xs < 256 * 256 ^ length xs" using Cons by linarith
  then show ?case by simp
qed simp

lemma be_number_less:
  assumes "x < y" "length xs = length ys"
  shows "be_number (x # xs) < be_number (y # ys)"
proof -
  have "unat x + 1 \<le> unat y" using assms(1) by (simp add: word_less_nat_alt)
  then have "(unat x + 1) * 256 ^ length xs \<le> unat y * 256 ^ length xs" by (rule mult_le_mono1)
  then show ?thesis using be_number_bound [of xs] assms(2) by simp
qed

lemma memcmp_number:
  "length xs = length ys \<Longrightarrow> memcmp xs ys = (if be_number xs < be_number ys then - 1 else if be_number ys < be_number xs then 1 else 0)"
proof (induction xs ys rule: list_induct2)
  case (Cons x xs y ys)
  consider "x < y" | "y < x" | "x = y" by fastforce
  then show ?case
  proof cases
    case 1
    then show ?thesis using be_number_less [OF 1] Cons.hyps by simp
  next
    case 2
    then show ?thesis using be_number_less [OF 2, of ys xs] Cons.hyps by (simp add: less_not_sym)
  next
    case 3
    then show ?thesis using Cons by simp
  qed
qed simp

definition key_number :: "entry_key_t \<Rightarrow> nat" where
  "key_number k = be_number (key_bytes k)"

text \<open>
  The six operators of \<open>entry_key_t\<close> are the comparisons of the keys read as 64-byte big-endian
  numbers, and assignment makes the keys equal; so the tree is ordered as its callers' numeric
  keys are when those are stored with the most significant byte first.
\<close>
theorem key_operators_numeric:
  "(key_gt a k \<longleftrightarrow> key_number k < key_number a) \<and> (key_ge a k \<longleftrightarrow> key_number k \<le> key_number a) \<and>
   (key_lt a k \<longleftrightarrow> key_number a < key_number k) \<and> (key_le a k \<longleftrightarrow> key_number a \<le> key_number k) \<and>
   (key_eq a k \<longleftrightarrow> key_number a = key_number k) \<and> key_assign a k = Some k"
  using memcmp_number [of "key_bytes a" "key_bytes k"]
  by (simp add: key_gt_def key_ge_def key_lt_def key_le_def key_eq_def key_number_def key_assign_ok not_less)

section \<open>The pool allocator\<close>

text \<open>
  C11: The blocks a pool hands out. From the constructor on a pool at \<open>dest\<close> of \<open>sz\<close> bytes cut
  into \<open>num\<close> partitions, whatever sequence of \<open>alloc\<close> calls returns, with whatever partitions and
  sizes, the blocks lie inside the pool and no two of them overlap.
\<close>
theorem pool_blocks_disjoint:
  assumes "dest \<noteq> 0" "0 < unat num" "unat num \<le> 32" "unat dest + unat sz \<le> 2 ^ 64" "unat sz < 2 ^ 63"
    and "length (partition_start_address mem) = 32" "length (partition_end_address mem) = 32"
    "length (partition_size mem) = 32" "length (partition_cur_offset mem) = 32"
    and "\<forall>r \<in> set rs. fst r < unat num \<and> unat (snd r) < 2 ^ 63"
    and "pm_alloctor_new dest mem num sz = Some a" "blocks alloc_block rs a = Some (bs, a')"
  shows "disjoint_blocks bs \<and> (\<forall>b \<in> set bs. span (fst b) (snd b) \<subseteq> span (unat dest) (unat sz))"
proof -
  let ?p = "unat sz div unat num"
  have inv: "alloc_inv (unat dest) ?p (unat num) a"
    using pm_alloctor_new_ok [OF assms(1-9)] assms(11) by (metis option.inject)
  have "span (unat dest) (unat num * ?p) \<subseteq> span (unat dest) (unat sz)" by auto
  then show ?thesis using pool.blocks_ok [OF inv assms(10) assms(12)] by blast
qed

definition raw_pool :: pm_alloctor where
  "raw_pool = \<lparr>pm_size = 0, num_partition = 0, pm_start_address = 0, partition_size = replicate 32 0,
     partition_start_address = replicate 32 0, partition_end_address = replicate 32 0, partition_cur_offset = replicate 32 0\<rparr>"

text \<open>
  \<open>alloc\<close> on both branches. When the block fits in the partition it returns the next free
  address and moves the offset by exactly the size; otherwise it does not return.
\<close>
theorem alloc_branches:
  assumes "alloc_inv base p num a" "pid < num" "unat sz < 2 ^ 63"
  shows "alloc pid sz a =
     (if unat (partition_cur_offset a ! pid) + unat sz \<le> p
      then Some (partition_start_address a ! pid + partition_cur_offset a ! pid,
                 a\<lparr>partition_cur_offset := (partition_cur_offset a)[pid := partition_cur_offset a ! pid + sz]\<rparr>)
      else None)"
  by (rule alloc_ok [OF assms])

definition small_pool :: pm_alloctor where
  "small_pool = \<lparr>pm_size = 2048, num_partition = 2, pm_start_address = 4096,
      partition_size = [1024, 1024] @ replicate 30 0, partition_start_address = [4096, 5120] @ replicate 30 0,
      partition_end_address = [5120, 6144] @ replicate 30 0, partition_cur_offset = replicate 32 0\<rparr>"

definition small_requests :: "(nat \<times> u64) list" where
  "small_requests = [(0, 1000), (1, 512), (0, 24), (1, 512)]"

lemma small_pool_new: "pm_alloctor_new 4096 raw_pool 2 2048 = Some small_pool"
  by code_simp

lemma small_pool_blocks:
  "blocks alloc_block small_requests small_pool = Some ([(4096, 1000), (5120, 512), (5096, 24), (5632, 512)],
     small_pool\<lparr>partition_cur_offset := [1024, 1024] @ replicate 30 0\<rparr>)"
  by code_simp

theorem pool_blocks_disjoint_witness:
  "disjoint_blocks [(4096, 1000), (5120, 512), (5096, 24), (5632, 512)] \<and> span 5096 24 \<subseteq> span 4096 2048"
  using pool_blocks_disjoint [OF _ _ _ _ _ _ _ _ _ _ small_pool_new small_pool_blocks]
  by (simp add: raw_pool_def small_requests_def)

theorem alloc_branches_witness:
  "alloc 0 1000 small_pool = Some (4096, small_pool\<lparr>partition_cur_offset := (replicate 32 0)[0 := 1000]\<rparr>) \<and>
   alloc 0 1025 small_pool = None"
proof -
  have inv: "alloc_inv 4096 1024 2 small_pool"
    unfolding alloc_inv_def by (simp add: small_pool_def atLeastLessThan_upt upt_rec)
  show ?thesis
    using alloc_branches [OF inv, of 0 1000] alloc_branches [OF inv, of 0 1025]
    by (simp add: small_pool_def)
qed

section \<open>Copying into persistent memory\<close>

text \<open>
  C9: \<open>nvmem_memcpy\<close> is a \<open>memmove\<close> that reaches memory, for every length from 1 on, every
  alignment and every overlap of the two ranges: the destination gets the bytes the source held
  before the call, no other byte changes, no byte of the destination is left in the cache, and
  no byte becomes dirty.
\<close>
theorem nvmem_memcpy_moves:
  assumes "copy_pre m dest src (unat len)" "1 \<le> unat len"
  shows "\<exists>m'. nvmem_memcpy m dest src len = Some m' \<and> bytes m' = memmove dest src (unat len) (bytes m) \<and>
    (\<forall>p. dirty m' p \<longrightarrow> dirty m p \<and> \<not> in_range dest (unat len) p)"
  using nvmem_memcpy_ok [OF assms] unfolding moved_def by blast

definition flat_mem :: nvmem where
  "flat_mem = \<lparr>bytes = (\<lambda>p. Some (ucast p)), dirty = (\<lambda>_. False)\<rparr>"

lemma flat_mapped [simp]: "mapped flat_mem a n"
  by (simp add: mapped_def flat_mem_def)

theorem nvmem_memcpy_moves_witness:
  "\<exists>m'. nvmem_memcpy flat_mem 100 90 37 = Some m' \<and> bytes m' 105 = Some 95 \<and> bytes m' 137 = Some 137 \<and> \<not> dirty m' 105"
proof -
  have l: "unat (37 :: u64) = 37" by simp
  have pre: "copy_pre flat_mem 100 90 (unat (37 :: u64))" unfolding l by (simp add: copy_pre_def)
  obtain m' where m': "nvmem_memcpy flat_mem 100 90 37 = Some m'" "bytes m' = memmove 100 90 37 (bytes flat_mem)"
      "\<forall>p. dirty m' p \<longrightarrow> dirty flat_mem p"
    using nvmem_memcpy_moves [OF pre] unfolding l by auto
  moreover have "memmove 100 90 37 (bytes flat_mem) 105 = Some 95" "memmove 100 90 37 (bytes flat_mem) 137 = Some 137"
    by (simp_all add: memmove_def in_range_def flat_mem_def)
  ultimately show ?thesis by (auto simp: flat_mem_def)
qed

text \<open>
  A length of zero is not a no-op: when the destination is not at the start of a cache line,
  \<open>nvmem_memcpy\<close> writes one byte there, the first one of the source.
\<close>
theorem nvmem_memcpy_zero_writes:
  assumes "unat dest mod 64 \<noteq> 0" "copy_pre m dest src 1"
  shows "\<exists>m'. nvmem_memcpy m dest src 0 = Some m' \<and> bytes m' = (bytes m)(dest := bytes m src)"
  by (rule nvmem_memcpy_zero [OF assms])

theorem nvmem_memcpy_zero_writes_witness:
  "\<exists>m'. nvmem_memcpy flat_mem 100 200 0 = Some m' \<and> bytes m' 100 = Some 200"
proof -
  have "\<exists>m'. nvmem_memcpy flat_mem 100 200 0 = Some m' \<and> bytes m' = (bytes flat_mem)(100 := bytes flat_mem 200)"
    by (rule nvmem_memcpy_zero_writes) (simp_all add: copy_pre_def)
  then show ?thesis by (auto simp: flat_mem_def)
qed

section \<open>The log\<close>

text \<open>
  C10: One append. It returns the address of the next item; the item holds the key and the value
  that were passed and has reached memory; the offset has moved by one item for this partition
  and not at all for the others; and every region that does not meet the item reads as before,
  is mapped as before and is as durable as before.
\<close>
theorem plog_append_durable:
  assumes "append_pre num pid key val lg m"
  shows "\<exists>lg' m'. plog_append pid key val lg m = Some (next_item pid lg, lg', m') \<and> log_ok num lg' \<and>
    mem_load m' (next_item pid lg) 64 = mem_load m key 64 \<and>
    mem_load m' (next_item pid lg + 64) 256 = mem_load m val 256 \<and> clean m' (next_item pid lg) 320 \<and>
    unat (plog_partition_cur_offset lg' ! pid) = unat (plog_partition_cur_offset lg ! pid) + 320 \<and>
    (\<forall>i. i \<noteq> pid \<longrightarrow> plog_partition_cur_offset lg' ! i = plog_partition_cur_offset lg ! i) \<and>
    (\<forall>a n. apart a n (next_item pid lg) 320 \<and> unat a + n \<le> 2 ^ 64 \<longrightarrow>
       mem_load m' a n = mem_load m a n \<and> mapped m' a n = mapped m a n \<and> (clean m a n \<longrightarrow> clean m' a n))"
  by (rule plog_append_ok [OF assms]) blast

definition one_log :: plog where
  "one_log = \<lparr>plog_num_partition = 1, plog_partition_size = replicate 32 4800,
     plog_partition_start_address = replicate 32 4096, plog_partition_cur_offset = replicate 32 320\<rparr>"

lemma one_log_append: "append_pre 1 0 65536 131072 one_log flat_mem" "next_item 0 one_log = 4416"
  by (simp_all add: append_pre_def log_ok_def one_log_def next_item_def apart_def)

theorem plog_append_durable_witness:
  "\<exists>lg' m'. plog_append 0 65536 131072 one_log flat_mem = Some (4416, lg', m') \<and>
     mem_load m' 4416 64 = mem_load flat_mem 65536 64 \<and> clean m' 4416 320"
  using plog_append_durable [OF one_log_append(1)] unfolding one_log_append(2) by blast

end
