(* ===== verification/KV_HashFacts.thy ===== *)
theory KV_HashFacts
  imports KV_Hash
begin

text \<open>
  The properties of the hash index: the first accepted put of a key wins, an insert is rejected
  exactly when both buckets are full, and keys that share a signature are one key to the table.
  The two concrete keys at the end share both of theirs.
\<close>

section \<open>Concrete keys\<close>

definition key_a :: "byte list" where
  "key_a = replicate 64 1"

definition key_b :: "byte list" where
  "key_b = [72, 190, 90, 89, 115, 215, 177, 251, 171, 171, 171, 43, 1, 1, 169, 171,
     1, 1, 1, 1, 1, 1, 1, 1, 1, 1, 1, 1, 1, 1, 1, 1, 2, 1, 1, 1, 1, 1, 1, 1,
     1, 1, 1, 1, 1, 1, 1, 1, 40, 144, 249, 189, 206, 18, 100, 24, 27, 216, 13, 205, 9, 12, 211, 57]"

definition key_c :: "byte list" where
  "key_c = replicate 64 2"

lemma key_hashes:
  "hash1 key_a = Some 11060263337653166570" "hash2 key_a = Some 9501256149962151878"
  "hash1 key_c = Some 15869871728638909906" "hash2 key_c = Some 5851052827041924959"
  by code_simp+

lemma key_b_hash: "CityHash64 key_b 64 = CityHash64 key_a 64"
  by code_simp

lemma length_keys [simp]: "length key_a = 64" "length key_b = 64" "length key_c = 64"
  by (simp_all add: key_a_def key_b_def key_c_def)

lemma sig_values: "sig1 key_a = 11060263337653166570" "sig2 key_a = 9501256149962151878"
  "sig1 key_c = 15869871728638909906" "sig2 key_c = 5851052827041924959"
  by (simp_all add: sig1_def sig2_def key_hashes)

lemma ac_told_apart: "told_apart {key_a, key_c}"
  by (simp add: told_apart_def access_simps sig_values)

section \<open>The table as a map\<close>

text \<open>
  C14: The hash index from its constructor on. For keys that the hashes tell apart, every
  sequence of \<open>insert\<close> calls on a partition returns, and \<open>search\<close> then returns the address of the
  first accepted insert of the key, or 0 when none was accepted. A later insert of the same key
  does not replace the address.
\<close>
theorem ht_first_put_wins:
  assumes "unat np \<le> length mem" "0 < unat nb" "unat nb < 2 ^ 31" "pid < unat np" "told_apart K"
    and "\<forall>x \<in> set xs. fst x \<in> K" "k \<in> K"
  shows "\<exists>t0 fs t. hash_table_new np nb None mem = Some (t0, None) \<and> run_flagged (ht_insert pid) xs t0 = Some (fs, t) \<and>
    length fs = length xs \<and>
    ht_search pid k t = Some (case map_of (accepted fs xs) k of None \<Rightarrow> 0 | Some v \<Rightarrow> v)"
proof -
  obtain t0 where t0: "hash_table_new np nb None mem = Some (t0, None)" "table_state (uint nb) pid K t0"
    "\<forall>k \<in> K. table_look (uint nb) pid t0 k = None"
    by (rule new_table_state [OF assms(1-5)])
  obtain fs t where t: "run_flagged (ht_insert pid) xs t0 = Some (fs, t)" "table_state (uint nb) pid K t"
    "length fs = length xs" "table_look (uint nb) pid t k = map_of (accepted fs xs) k"
    using table.run_flagged_ok [OF t0(2) assms(6)] t0(3) assms(7) by auto
  then show ?thesis using t0(1) table_search [OF t(2) assms(7)] by simp
qed

definition three_puts :: "(byte list \<times> u64) list" where
  "three_puts = [(key_a, 320), (key_c, 640), (key_a, 960)]"

theorem ht_first_put_wins_witness:
  "\<exists>t0 fs t. hash_table_new 1 8 None (replicate 32 []) = Some (t0, None) \<and>
    run_flagged (ht_insert 0) three_puts t0 = Some (fs, t) \<and> length fs = length three_puts \<and>
    ht_search 0 key_a t = Some (case map_of (accepted fs three_puts) key_a of None \<Rightarrow> 0 | Some v \<Rightarrow> v)"
  by (rule ht_first_put_wins [OF _ _ _ _ ac_told_apart]) (simp_all add: three_puts_def)

lemma ex_pair: "(\<exists>x. x \<in> (\<Union>i \<in> {..<n :: nat}. {f i, g i}) \<and> P x) \<longleftrightarrow> (\<exists>i < n. P (f i) \<or> P (g i))"
  by auto

text \<open>
  C17: When an insert is rejected. On a well-formed partition \<open>insert\<close> always returns; it answers
  false exactly when all four slots of both of the key's buckets are in use, and then the table is
  unchanged.
\<close>
theorem ht_insert_rejects:
  assumes "KEY_LENGTH \<le> length key" "0 < num_bucket t" "num_bucket t < 2 ^ 31" "pid < length (partition t)"
    and "buckets_ok (nat (num_bucket t)) (partition t ! pid)"
  shows "\<exists>flag t'. ht_insert pid key v t = Some (flag, t') \<and>
    (flag = False \<longleftrightarrow> (\<forall>i < 4. signature (partition t ! pid ! unat (sig1 key mod word_of_int (num_bucket t))) ! i \<noteq> 0 \<and>
       signature (partition t ! pid ! unat (sig2 key mod word_of_int (num_bucket t))) ! i \<noteq> 0)) \<and>
    (flag = False \<longrightarrow> t' = t)"
proof -
  let ?p = "partition t ! pid"
  note b = bucket_in [OF assms(2,3)]
  let ?b1 = "unat (sig1 key mod word_of_int (num_bucket t))" and ?b2 = "unat (sig2 key mod word_of_int (num_bucket t))"
  let ?ps = "probes (sig1 key) (sig2 key) ?b1 ?b2 0 NUM_SLOT"
  have ins: "ht_insert pid key v t = Some (case find (free ?p) ?ps of
        None \<Rightarrow> (False, t\<lparr>partition := (partition t)[pid := ?p]\<rparr>)
      | Some pr \<Rightarrow> (True, t\<lparr>partition := (partition t)[pid := set_slot ?p pr v]\<rparr>))"
    using hash_total [OF assms(1)] assms(4) insert_slots_ok [OF assms(5) b(2) b(2), of 0 NUM_SLOT "sig1 key" "sig2 key"]
    by (auto simp: ht_insert_def b(1) access_simps split: option.splits)
  have full: "find (free ?p) ?ps = None \<longleftrightarrow> (\<forall>i < 4. signature (?p ! ?b1) ! i \<noteq> 0 \<and> signature (?p ! ?b2) ! i \<noteq> 0)"
  proof -
    have "set ?ps = (\<Union>i \<in> {..<4}. {(?b1, i, sig1 key), (?b2, i, sig2 key)})"
      by (auto simp: probes_def access_simps)
    then have "(\<exists>pr. pr \<in> set ?ps \<and> free ?p pr) \<longleftrightarrow>
        (\<exists>i < 4. free ?p (?b1, i, sig1 key) \<or> free ?p (?b2, i, sig2 key))" by (simp only: ex_pair)
    then show ?thesis unfolding find_None_iff by (auto simp: free_def sig_at_def)
  qed
  show ?thesis
  proof (cases "find (free ?p) ?ps")
    case None
    then have "ht_insert pid key v t = Some (False, t)" using ins by simp
    then show ?thesis using None full by (intro exI [of _ False] exI [of _ t]) simp
  next
    case (Some pr)
    then have "\<not> (\<forall>i < 4. signature (?p ! ?b1) ! i \<noteq> 0 \<and> signature (?p ! ?b2) ! i \<noteq> 0)" using full by simp
    then show ?thesis using ins Some by auto
  qed
qed

definition full_table :: hash_table where
  "full_table = \<lparr>ht_num_partition = 1, num_bucket = 1,
     partition = [[\<lparr>signature = [1, 2, 3, 4], addr = [320, 640, 960, 1280]\<rparr>]]\<rparr>"

theorem ht_insert_rejects_witness: "ht_insert 0 key_a 1600 full_table = Some (False, full_table)"
proof -
  have full: "signature (partition full_table ! 0 ! 0) ! i \<noteq> 0" if i: "i < 4" for i
  proof -
    consider "i = 0" | "i = 1" | "i = 2" | "i = 3" using i by linarith
    then show ?thesis by cases (simp_all add: full_table_def)
  qed
  show ?thesis
    using ht_insert_rejects [of key_a full_table 0 1600] full
    by (auto simp: full_table_def buckets_ok_def access_simps)
qed

section \<open>Keys the table cannot tell apart\<close>

text \<open>
  The second seed adds nothing: two keys have the same first signature exactly when they
  have the same second signature, so probing a second bucket with a second signature does not
  separate keys that the first one confuses.
\<close>
theorem seeds_not_independent:
  assumes "length k = KEY_LENGTH" "length k' = KEY_LENGTH"
  shows "hash1 k = hash1 k' \<longleftrightarrow> hash2 k = hash2 k'"
  by (rule signatures_collide_together [OF assms])

theorem seeds_not_independent_witness: "hash1 key_a \<noteq> hash1 key_c \<and> hash2 key_a \<noteq> hash2 key_c"
  using seeds_not_independent [of key_a key_c] key_hashes by (simp add: access_simps)

text \<open>
  C18: Two different 64-byte keys that are one key to the table: \<open>search\<close> returns the same address
  for both and \<open>insert\<close> does the same to every table, for every partition.
\<close>
theorem distinct_keys_collide:
  "key_a \<noteq> key_b \<and> length key_a = KEY_LENGTH \<and> length key_b = KEY_LENGTH \<and>
   ht_search pid key_a t = ht_search pid key_b t \<and> ht_insert pid key_a v t = ht_insert pid key_b v t"
proof -
  have "hash1 key_a = hash1 key_b" "hash2 key_a = hash2 key_b"
    using key_b_hash by (simp_all add: hash1_def hash2_def CityHash64WithSeed_def CityHash64WithSeeds_def access_simps)
  moreover have "key_a ! 0 \<noteq> key_b ! 0" by (simp add: key_a_def key_b_def)
  then have "key_a \<noteq> key_b" by metis
  ultimately show ?thesis by (simp add: ht_search_def ht_insert_def access_simps)
qed

end
