(* ===== verification/KV_Crash.thy ===== *)
theory KV_Crash
  imports KV_HashFacts
begin

text \<open>
  The hash index in persistent memory: \<open>insert\<close> of \<open>bufferevent_single/Hikv/obj/hashtable.h\<close> as it is
  compiled with \<open>PERSIST_HASHTABLE\<close> (the target \<open>use_pmdk\<close> of the makefile). A store to a slot first
  changes the cached copy of an 8-byte word; it reaches the memory when \<open>persist_data\<close> flushes it, or
  earlier when its cache line happens to be evicted. A crash keeps what has reached the memory. The
  partitions share no memory, so the state is that of one partition.
\<close>

section \<open>Words of a partition\<close>

text \<open>A word of a bucket array: the bucket, the slot, and which of the two arrays of the bucket.\<close>

datatype half = Addr_word | Sig_word

type_synonym cell = "nat \<times> nat \<times> half"

fun half_words :: "half \<Rightarrow> hash_bucket \<Rightarrow> u64 list" where
  "half_words Addr_word bk = addr bk"
| "half_words Sig_word bk = signature bk"

fun set_half :: "half \<Rightarrow> u64 list \<Rightarrow> hash_bucket \<Rightarrow> hash_bucket" where
  "set_half Addr_word ws bk = bk\<lparr>addr := ws\<rparr>"
| "set_half Sig_word ws bk = bk\<lparr>signature := ws\<rparr>"

fun get_cell :: "hash_bucket list \<Rightarrow> cell \<Rightarrow> u64 option" where
  "get_cell p (b, i, h) = do { bk \<leftarrow> rd p b; rd (half_words h bk) i }"

fun set_cell :: "hash_bucket list \<Rightarrow> cell \<Rightarrow> u64 \<Rightarrow> hash_bucket list option" where
  "set_cell p (b, i, h) v =
     do { bk \<leftarrow> rd p b; ws \<leftarrow> wr (half_words h bk) i v; wr p b (set_half h ws bk) }"

section \<open>The persisting insert\<close>

text \<open>
  What an insert does to the memory: stores, and flushes of the word stored. \<open>persist_data\<close> flushes
  the whole cache line of the word; the other words of the line count as evicted.
\<close>

datatype pm_op = Write cell u64 | Persist cell

definition slot_ops :: "nat \<Rightarrow> nat \<Rightarrow> u64 \<Rightarrow> u64 \<Rightarrow> pm_op list" where
  "slot_ops b i sig v =
     [Write (b, i, Addr_word) v, Persist (b, i, Addr_word), Write (b, i, Sig_word) sig, Persist (b, i, Sig_word)]"

fun insert_slots_ops :: "u64 \<Rightarrow> u64 \<Rightarrow> nat \<Rightarrow> nat \<Rightarrow> u64 \<Rightarrow> nat \<Rightarrow> nat \<Rightarrow> hash_bucket list \<Rightarrow> (bool \<times> pm_op list) option" where
  "insert_slots_ops h1 h2 b1 b2 v i 0 p = Some (False, [])"
| "insert_slots_ops h1 h2 b1 b2 v i (Suc k) p =
     do { bk1 \<leftarrow> rd p b1;
          s1 \<leftarrow> rd (signature bk1) i;
          if s1 = 0 then Some (True, slot_ops b1 i h1 v)
          else do {
            bk2 \<leftarrow> rd p b2;
            s2 \<leftarrow> rd (signature bk2) i;
            if \<not> (b1 = b2) \<and> s2 = 0 then Some (True, slot_ops b2 i h2 v)
            else insert_slots_ops h1 h2 b1 b2 v (i + 1) k p } }"

definition insert_ops :: "int \<Rightarrow> byte list \<Rightarrow> u64 \<Rightarrow> hash_bucket list \<Rightarrow> (bool \<times> pm_op list) option" where
  "insert_ops nb key v p =
     do { h1 \<leftarrow> hash1 key;
          h2 \<leftarrow> hash2 key;
          b1 \<leftarrow> bucket_id h1 nb;
          b2 \<leftarrow> bucket_id h2 nb;
          insert_slots_ops h1 h2 b1 b2 v 0 NUM_SLOT p }"

text \<open>The partition as the processor sees it, as the memory holds it, and what is left of the insert.\<close>

record pm_index =
  cached :: "hash_bucket list"
  durable :: "hash_bucket list"
  todo :: "pm_op list"

definition write_back :: "cell \<Rightarrow> pm_index \<Rightarrow> pm_index option" where
  "write_back c x = do { v \<leftarrow> get_cell (cached x) c; d \<leftarrow> set_cell (durable x) c v; Some (x\<lparr>durable := d\<rparr>) }"

fun run_op :: "pm_op \<Rightarrow> pm_index \<Rightarrow> pm_index option" where
  "run_op (Write c v) x = do { p \<leftarrow> set_cell (cached x) c v; Some (x\<lparr>cached := p\<rparr>) }"
| "run_op (Persist c) x = write_back c x"

text \<open>
  The puts so far, each with its answer, and the partition. An insert starts when the one before it
  is through, does its operations one by one, and any word may be written back at any time.
\<close>

type_synonym answered = "(bool \<times> byte list \<times> u64) list"

inductive pm_step :: "int \<Rightarrow> byte list set \<Rightarrow> pm_index \<times> answered \<Rightarrow> pm_index \<times> answered \<Rightarrow> bool" for nb K where
  start: "todo x = [] \<Longrightarrow> k \<in> K \<Longrightarrow> insert_ops nb k v (cached x) = Some (f, os) \<Longrightarrow>
     pm_step nb K (x, hs) (x\<lparr>todo := os\<rparr>, hs @ [(f, k, v)])"
| run: "todo x = e # os \<Longrightarrow> run_op e x = Some x' \<Longrightarrow> pm_step nb K (x, hs) (x'\<lparr>todo := os\<rparr>, hs)"
| evict: "write_back c x = Some x' \<Longrightarrow> pm_step nb K (x, hs) (x', hs)"

inductive_cases pm_stepE: "pm_step nb K (x, hs) y"

definition pm_reached :: "int \<Rightarrow> byte list set \<Rightarrow> hash_bucket list \<Rightarrow> pm_index \<times> answered \<Rightarrow> bool" where
  "pm_reached nb K p0 = (pm_step nb K)\<^sup>*\<^sup>* (\<lparr>cached = p0, durable = p0, todo = []\<rparr>, [])"

text \<open>The table with the buckets of one partition replaced, as a restart finds them.\<close>

definition with_partition :: "nat \<Rightarrow> hash_bucket list \<Rightarrow> hash_table \<Rightarrow> hash_table" where
  "with_partition pid p t = t\<lparr>partition := (partition t)[pid := p]\<rparr>"

definition kept_puts :: "answered \<Rightarrow> (byte list \<times> u64) list" where
  "kept_puts hs = map snd (filter fst hs)"

section \<open>Reading and writing words\<close>

lemma half_words_set_half [simp]: "half_words h (set_half h' ws bk) = (if h = h' then ws else half_words h bk)"
  by (cases h; cases h') simp_all

lemma set_half_same [simp]: "set_half h (half_words h bk) bk = bk"
  by (cases h) simp_all

lemma set_half_twice [simp]: "set_half h ws' (set_half h ws bk) = set_half h ws' bk"
  by (cases h) simp_all

lemma set_cell_Some:
  "set_cell p (b, i, h) v = Some p' \<longleftrightarrow> b < length p \<and> i < length (half_words h (p ! b)) \<and>
     p' = p[b := set_half h ((half_words h (p ! b))[i := v]) (p ! b)]"
  by (auto simp: rd_def wr_def)

lemma get_cell_Some:
  "get_cell p (b, i, h) = Some v \<longleftrightarrow> b < length p \<and> i < length (half_words h (p ! b)) \<and> v = half_words h (p ! b) ! i"
  by (auto simp: rd_def)

text \<open>Writing back the value that is there changes nothing; writing back after a store repeats it.\<close>

lemma set_cell_same: "get_cell p c = Some v \<Longrightarrow> set_cell p c v = Some p"
  by (cases c) (auto simp: get_cell_Some set_cell_Some simp del: get_cell.simps set_cell.simps)

lemma get_set_cell:
  assumes "set_cell p c v = Some p'"
  shows "get_cell p' c = Some v" "c' \<noteq> c \<Longrightarrow> get_cell p' c' = get_cell p c'"
  using assms
  by (cases c; cases c'; auto simp: set_cell_Some rd_def nth_list_update simp del: set_cell.simps)+

lemma set_cell_again: "set_cell p c v = Some p' \<Longrightarrow> set_cell p' c v = Some p'"
  using get_set_cell(1) set_cell_same by blast

lemma write_back_clean:
  "durable x = cached x \<Longrightarrow> write_back c x = Some x' \<Longrightarrow> x' = x"
  by (auto simp: write_back_def set_cell_same split: Option.bind_splits)

lemma write_back_one:
  assumes "set_cell (durable x) c v = Some (cached x)" "write_back c' x = Some x'"
  shows "x' = x \<or> x' = x\<lparr>durable := cached x\<rparr>"
proof -
  obtain w d where w: "get_cell (cached x) c' = Some w" "set_cell (durable x) c' w = Some d" "x' = x\<lparr>durable := d\<rparr>"
    using assms(2) by (auto simp: write_back_def split: Option.bind_splits)
  show ?thesis
  proof (cases "c' = c")
    case True
    then have "d = cached x" using w get_set_cell(1) [OF assms(1)] assms(1) by simp
    then show ?thesis using w by simp
  next
    case False
    then have "get_cell (durable x) c' = Some w" using w(1) get_set_cell(2) [OF assms(1)] by simp
    then have "d = durable x" using w(2) set_cell_same by fastforce
    then show ?thesis using w by simp
  qed
qed

section \<open>What an insert changes\<close>

lemma insert_slots_ops_ok:
  assumes ok: "buckets_ok nb p" and b: "b1 < nb" "b2 < nb" and i: "i + k \<le> 4"
  shows "insert_slots_ops h1 h2 b1 b2 v i k p =
     Some (case find (free p) (probes h1 h2 b1 b2 i k) of
             None \<Rightarrow> (False, []) | Some pr \<Rightarrow> (True, slot_ops (fst pr) (fst (snd pr)) (snd (snd pr)) v))"
  using i
proof (induction k arbitrary: i)
  case 0
  then show ?case by (simp add: probes_0)
next
  case (Suc k)
  have len: "b1 < length p" "b2 < length p" "i < length (signature (p ! b1))" "i < length (signature (p ! b2))" "i < 4"
    using ok b Suc.prems by (auto simp: buckets_ok_def access_simps)
  note IH = Suc.IH [of "i + 1"]
  show ?case using len IH Suc.prems by (auto simp: access_simps probes_Suc free_def sig_at_def)
qed

lemma insert_ops_ok:
  assumes "table_ok nb K p" "told_apart K" "k \<in> K"
  shows "insert_ops nb k v p = Some (case find (free p) (key_probes nb k) of
     None \<Rightarrow> (False, []) | Some pr \<Rightarrow> (True, slot_ops (fst pr) (fst (snd pr)) (snd (snd pr)) v))"
proof -
  have nb: "0 < nb" "nb < 2 ^ 31" "buckets_ok (nat nb) p" using assms(1) by (auto simp: table_ok_def)
  note b = bucket_in [OF nb(1,2)]
  have "KEY_LENGTH \<le> length k" using assms(2,3) by (simp add: told_apart_def)
  then show ?thesis
    using hash_total [of k] insert_slots_ops_ok [OF nb(3) b(2) b(2), of 0 NUM_SLOT "sig1 k" "sig2 k"]
    by (simp add: insert_ops_def b(1) access_simps key_probes_def Let_def)
qed

text \<open>A slot is filled by two stores; the first leaves the signature alone.\<close>

lemma set_slot_cells:
  assumes "buckets_ok nb p" "b < nb" "i < 4"
  shows "set_cell p (b, i, Addr_word) v = Some (set_slot p (b, i, sig_at p (b, i, s)) v)"
    "set_cell (set_slot p (b, i, sig_at p (b, i, s)) v) (b, i, Sig_word) s = Some (set_slot p (b, i, s) v)"
proof -
  have l: "b < length p" "i < length (addr (p ! b))" "i < length (signature (p ! b))"
    using assms by (auto simp: buckets_ok_def access_simps)
  show "set_cell p (b, i, Addr_word) v = Some (set_slot p (b, i, sig_at p (b, i, s)) v)"
    using l unfolding set_cell_Some by (simp add: set_slot_def sig_at_def Let_def)
  show "set_cell (set_slot p (b, i, sig_at p (b, i, s)) v) (b, i, Sig_word) s = Some (set_slot p (b, i, s) v)"
    using l unfolding set_cell_Some by (simp add: set_slot_def sig_at_def Let_def)
qed

lemma lookup_half_written:
  assumes ok: "table_ok nb K p" "told_apart K" "k \<in> K" and fr: "free p (b, i, s)" and b: "b < nat nb" "i < 4"
  shows "lookup nb (set_slot p (b, i, sig_at p (b, i, s)) v) k = lookup nb p k"
proof -
  let ?m = "set_slot p (b, i, sig_at p (b, i, s)) v"
  have nb: "0 < nb" "nb < 2 ^ 31" "buckets_ok (nat nb) p" using ok by (auto simp: table_ok_def)
  have q: "hit ?m q = hit p q" "hit p q \<Longrightarrow> addr_at ?m q = addr_at p q" if "q \<in> set (key_probes nb k)" for q
  proof -
    note qi = probe_in [OF nb(1,2) that]
    have "snd (snd q) \<noteq> 0" using qi told_apartD(2,3) [OF ok(2,3)] by auto
    then show "hit ?m q = hit p q" "hit p q \<Longrightarrow> addr_at ?m q = addr_at p q"
      using nth_set_slot [OF nb(3), of "(b, i, sig_at p (b, i, s))" q] b qi fr
      by (auto simp: hit_def free_def sig_at_def)
  qed
  have f: "find (hit ?m) (key_probes nb k) = find (hit p) (key_probes nb k)" by (rule find_cong_set) (rule q(1))
  show ?thesis
  proof (cases "find (hit p) (key_probes nb k)")
    case (Some pr)
    then have "pr \<in> set (key_probes nb k)" "hit p pr" using find_split by fastforce+
    then show ?thesis using Some f q(2) by (simp add: lookup_def)
  qed (simp add: lookup_def f)
qed

text \<open>A partition that holds the given puts.\<close>

definition holds_puts :: "int \<Rightarrow> byte list set \<Rightarrow> hash_bucket list \<Rightarrow> answered \<Rightarrow> bool" where
  "holds_puts nb K p hs \<longleftrightarrow> table_ok nb K p \<and> (\<forall>k \<in> K. lookup nb p k = map_of (kept_puts hs) k)"

text \<open>The three states of the partition during an accepted insert: before, half written, after.\<close>

definition adding :: "int \<Rightarrow> byte list set \<Rightarrow> answered \<Rightarrow> hash_bucket list \<Rightarrow> hash_bucket list \<Rightarrow> hash_bucket list \<Rightarrow>
    nat \<Rightarrow> nat \<Rightarrow> u64 \<Rightarrow> u64 \<Rightarrow> bool" where
  "adding nb K hs p0 p1 p2 b i s v \<longleftrightarrow>
     holds_puts nb K p0 (butlast hs) \<and> holds_puts nb K p2 hs \<and> hs \<noteq> [] \<and>
     buckets_ok (nat nb) p1 \<and> (\<forall>k \<in> K. lookup nb p1 k = lookup nb p0 k) \<and>
     set_cell p0 (b, i, Addr_word) v = Some p1 \<and> set_cell p1 (b, i, Sig_word) s = Some p2"

lemma insert_begins:
  assumes h: "holds_puts nb K p hs" and ta: "told_apart K" and k: "k \<in> K" and ins: "insert_ops nb k v p = Some (f, os)"
  shows "f = False \<and> os = [] \<and> holds_puts nb K p (hs @ [(f, k, v)]) \<or>
    (\<exists>p1 p2 b i s. f = True \<and> os = slot_ops b i s v \<and> adding nb K (hs @ [(f, k, v)]) p p1 p2 b i s v)"
proof (cases "find (free p) (key_probes nb k)")
  case None
  then show ?thesis using h insert_ops_ok [OF _ ta k, of nb p v] ins by (auto simp: holds_puts_def kept_puts_def)
next
  case (Some pr)
  obtain b i s where pr: "pr = (b, i, s)" by (cases pr) auto
  have ok: "table_ok nb K p" using h by (simp add: holds_puts_def)
  then have nb: "0 < nb" "nb < 2 ^ 31" "buckets_ok (nat nb) p" by (auto simp: table_ok_def)
  obtain xs ys where sp: "key_probes nb k = xs @ pr # ys" "free p pr" "\<forall>x \<in> set xs. \<not> free p x"
    using find_split [OF Some] by blast
  then have "pr \<in> set (key_probes nb k)" by simp
  then have b: "b < nat nb" "i < 4" using probe_in [OF nb(1,2)] pr by fastforce+
  have os: "f = True" "os = slot_ops b i s v" using ins insert_ops_ok [OF ok ta k, of v] Some pr by auto
  have p2: "holds_puts nb K (set_slot p pr v) (hs @ [(True, k, v)])"
    using put_table [OF ok ta k sp] h by (auto simp: holds_puts_def kept_puts_def map_add_def split: option.splits)
  have "adding nb K (hs @ [(True, k, v)]) p (set_slot p (b, i, sig_at p (b, i, s)) v) (set_slot p pr v) b i s v"
    unfolding adding_def using h p2 set_slot_cells [OF nb(3) b] buckets_ok_set_slot [OF nb(3)]
      lookup_half_written [OF ok ta _ _ b] sp(2) pr by simp
  then show ?thesis using os by blast
qed

section \<open>The invariant\<close>

definition in_phase :: "hash_bucket list \<Rightarrow> hash_bucket list \<Rightarrow> hash_bucket list \<Rightarrow> pm_op list \<Rightarrow> pm_index \<Rightarrow> bool" where
  "in_phase p0 p1 p2 os x \<longleftrightarrow>
     todo x = os \<and> cached x = p0 \<and> durable x = p0 \<or>
     todo x = tl os \<and> cached x = p1 \<and> (durable x = p0 \<or> durable x = p1) \<or>
     todo x = tl (tl os) \<and> cached x = p1 \<and> durable x = p1 \<or>
     todo x = tl (tl (tl os)) \<and> cached x = p2 \<and> (durable x = p1 \<or> durable x = p2)"

definition pm_ok :: "int \<Rightarrow> byte list set \<Rightarrow> pm_index \<times> answered \<Rightarrow> bool" where
  "pm_ok nb K y \<longleftrightarrow> (case y of (x, hs) \<Rightarrow>
     todo x = [] \<and> durable x = cached x \<and> holds_puts nb K (cached x) hs \<or>
     (\<exists>p0 p1 p2 b i s v. adding nb K hs p0 p1 p2 b i s v \<and> in_phase p0 p1 p2 (slot_ops b i s v) x))"

lemma pm_okI:
  "adding nb K hs p0 p1 p2 b i s v \<Longrightarrow> in_phase p0 p1 p2 (slot_ops b i s v) x \<Longrightarrow> pm_ok nb K (x, hs)"
  "todo x = [] \<Longrightarrow> durable x = cached x \<Longrightarrow> holds_puts nb K (cached x) hs \<Longrightarrow> pm_ok nb K (x, hs)"
  unfolding pm_ok_def by auto

lemma adding_after: "adding nb K hs p0 p1 p2 b i s v \<Longrightarrow> holds_puts nb K p2 hs"
  by (simp add: adding_def)

lemma persist_after_write:
  assumes "set_cell (durable x) c v = Some (cached x) \<or> durable x = cached x" "get_cell (cached x) c = Some v"
  shows "write_back c x = Some (x\<lparr>durable := cached x\<rparr>)"
  using assms set_cell_same [OF assms(2)] by (auto simp: write_back_def)

lemma run_phase:
  assumes a: "adding nb K hs p0 p1 p2 b i s v" and ph: "in_phase p0 p1 p2 (slot_ops b i s v) x"
    and e: "todo x = e # os"
  shows "\<exists>x'. run_op e x = Some x' \<and>
    (in_phase p0 p1 p2 (slot_ops b i s v) (x'\<lparr>todo := os\<rparr>) \<or> os = [] \<and> cached x' = p2 \<and> durable x' = p2)"
proof -
  have c: "set_cell p0 (b, i, Addr_word) v = Some p1" "set_cell p1 (b, i, Sig_word) s = Some p2"
    "get_cell p1 (b, i, Addr_word) = Some v" "get_cell p2 (b, i, Sig_word) = Some s"
    using a get_set_cell(1) by (auto simp: adding_def simp del: set_cell.simps get_cell.simps)
  note [simp del] = set_cell.simps get_cell.simps
  consider (1) "todo x = slot_ops b i s v" "cached x = p0" "durable x = p0"
    | (2) "todo x = tl (slot_ops b i s v)" "cached x = p1" "durable x = p0 \<or> durable x = p1"
    | (3) "todo x = tl (tl (slot_ops b i s v))" "cached x = p1" "durable x = p1"
    | (4) "todo x = tl (tl (tl (slot_ops b i s v)))" "cached x = p2" "durable x = p1 \<or> durable x = p2"
    using ph unfolding in_phase_def by blast
  then show ?thesis
  proof cases
    case 1
    then show ?thesis using e c(1) by (auto simp: slot_ops_def in_phase_def)
  next
    case 2
    then have "write_back (b, i, Addr_word) x = Some (x\<lparr>durable := p1\<rparr>)"
      using persist_after_write [of x "(b, i, Addr_word)" v] c by auto
    then show ?thesis using 2 e by (auto simp: slot_ops_def in_phase_def)
  next
    case 3
    then show ?thesis using e c(2) by (auto simp: slot_ops_def in_phase_def)
  next
    case 4
    then have "write_back (b, i, Sig_word) x = Some (x\<lparr>durable := p2\<rparr>)"
      using persist_after_write [of x "(b, i, Sig_word)" s] c by auto
    then show ?thesis using 4 e by (auto simp: slot_ops_def)
  qed
qed

lemma evict_phase:
  assumes a: "adding nb K hs p0 p1 p2 b i s v" and ph: "in_phase p0 p1 p2 (slot_ops b i s v) x"
    and w: "write_back c x = Some x'"
  shows "in_phase p0 p1 p2 (slot_ops b i s v) x'"
proof -
  have c: "set_cell p0 (b, i, Addr_word) v = Some p1" "set_cell p1 (b, i, Sig_word) s = Some p2"
    using a by (simp_all add: adding_def del: set_cell.simps)
  show ?thesis
  proof (cases "durable x = cached x")
    case True
    then show ?thesis using write_back_clean [OF _ w] ph by simp
  next
    case False
    then have "set_cell (durable x) (b, i, Addr_word) v = Some (cached x) \<or> set_cell (durable x) (b, i, Sig_word) s = Some (cached x)"
      using ph c by (auto simp: in_phase_def simp del: set_cell.simps)
    then have "x' = x \<or> x' = x\<lparr>durable := cached x\<rparr>" using write_back_one w by blast
    then show ?thesis using ph by (auto simp: in_phase_def)
  qed
qed

lemma pm_step_ok:
  assumes "pm_step nb K y y'" "told_apart K" "pm_ok nb K y"
  shows "pm_ok nb K y'"
  using assms(1)
proof (cases rule: pm_step.cases)
  case (start x k v f os hs)
  have ph: "\<not> in_phase p0 p1 p2 (slot_ops b i s v) x" for p0 p1 p2 b i s v
    using start(3) by (auto simp: in_phase_def slot_ops_def)
  have "durable x = cached x" "holds_puts nb K (cached x) hs" 
    using assms(3) start(1) ph by (auto simp: pm_ok_def)
  then show ?thesis
    using insert_begins [OF _ assms(2) start(4,5)] start(1,2) by (fastforce simp: pm_ok_def in_phase_def)
next
  case (run x e os x' hs)
  obtain p0 p1 p2 b i s v where a: "adding nb K hs p0 p1 p2 b i s v" "in_phase p0 p1 p2 (slot_ops b i s v) x"
    using assms(3) run by (auto simp: pm_ok_def)
  show ?thesis
    using run_phase [OF a run(3)] run(1,2,4) pm_okI(1) [OF a(1)] pm_okI(2) [of "x'\<lparr>todo := os\<rparr>" nb K hs] adding_after [OF a(1)] by auto
next
  case (evict c x x' hs)
  show ?thesis
  proof (cases "todo x = [] \<and> durable x = cached x \<and> holds_puts nb K (cached x) hs")
    case True
    then have "x' = x" using write_back_clean evict(3) by blast
    then show ?thesis using assms(3) evict by simp
  next
    case False
    then obtain p0 p1 p2 b i s v where a: "adding nb K hs p0 p1 p2 b i s v" "in_phase p0 p1 p2 (slot_ops b i s v) x"
      using assms(3) evict(1) by (auto simp: pm_ok_def)
    show ?thesis using pm_okI(1) [OF a(1) evict_phase [OF a evict(3)]] evict(2) by simp
  qed
qed

lemma pm_reached_ok:
  assumes "pm_reached nb K p0 y" "told_apart K" "table_ok nb K p0" "\<forall>k \<in> K. lookup nb p0 k = None"
  shows "pm_ok nb K y"
  using assms(1) unfolding pm_reached_def
proof (induction rule: rtranclp_induct)
  case base
  show ?case using assms(3,4) by (simp add: pm_ok_def holds_puts_def kept_puts_def)
next
  case (step y z)
  then show ?case using pm_step_ok assms(2) by blast
qed

section \<open>What a restart finds\<close>

lemma search_partition:
  assumes "buckets_ok (nat nb) p" "0 < nb" "nb < 2 ^ 31" "num_bucket t = nb" "pid < length (partition t)" "KEY_LENGTH \<le> length k"
  shows "ht_search pid k (with_partition pid p t) = Some (case lookup nb p k of None \<Rightarrow> 0 | Some a \<Rightarrow> a)"
proof -
  note b = bucket_in [OF assms(2,3)]
  show ?thesis
    using hash_total [OF assms(6)] assms(4,5) search_slots_ok [OF assms(1) b(2) b(2), of 0 NUM_SLOT "sig1 k" "sig2 k"]
    by (auto simp: ht_search_def with_partition_def b(1) access_simps lookup_def key_probes_def Let_def split: option.splits)
qed

lemma holds_search:
  assumes "holds_puts nb K q hs" "buckets_ok (nat nb) p" "\<forall>k \<in> K. lookup nb p k = lookup nb q k" "told_apart K"
    and "num_bucket t = nb" "pid < length (partition t)" "k \<in> K"
  shows "ht_search pid k (with_partition pid p t) = Some (case map_of (kept_puts hs) k of None \<Rightarrow> 0 | Some a \<Rightarrow> a)"
proof -
  have "0 < nb" "nb < 2 ^ 31" using assms(1) by (auto simp: holds_puts_def table_ok_def)
  moreover have "KEY_LENGTH \<le> length k" using assms(4,7) by (simp add: told_apart_def)
  ultimately show ?thesis using search_partition [OF assms(2)] assms(1,3,5-7) by (simp add: holds_puts_def)
qed

lemma durable_search:
  assumes "pm_ok nb K (x, hs)" "told_apart K" "num_bucket t = nb" "pid < length (partition t)"
  shows "\<exists>n. (n = length hs \<or> todo x \<noteq> [] \<and> n + 1 = length hs) \<and>
    (\<forall>k \<in> K. ht_search pid k (with_partition pid (durable x) t)
       = Some (case map_of (kept_puts (take n hs)) k of None \<Rightarrow> 0 | Some a \<Rightarrow> a))"
proof (cases "todo x = [] \<and> durable x = cached x \<and> holds_puts nb K (cached x) hs")
  case True
  then have "buckets_ok (nat nb) (durable x)" by (auto simp: holds_puts_def table_ok_def)
  then show ?thesis using holds_search [of nb K "durable x" hs "durable x"] True assms(2-4) by (intro exI [of _ "length hs"]) simp
next
  case False
  then obtain p0 p1 p2 b i s v where a: "adding nb K hs p0 p1 p2 b i s v" and ph: "in_phase p0 p1 p2 (slot_ops b i s v) x"
    using assms(1) by (auto simp: pm_ok_def)
  have t: "todo x \<noteq> []" using ph by (auto simp: in_phase_def slot_ops_def)
  have h: "holds_puts nb K p0 (butlast hs)" "holds_puts nb K p2 hs" "hs \<noteq> []" "buckets_ok (nat nb) p1"
    "\<forall>k \<in> K. lookup nb p1 k = lookup nb p0 k" using a by (simp_all add: adding_def)
  then have ok: "buckets_ok (nat nb) p0" "buckets_ok (nat nb) p2" by (auto simp: holds_puts_def table_ok_def)
  have n: "take (length hs - 1) hs = butlast hs" by (simp add: butlast_conv_take)
  consider "durable x = p0" | "durable x = p1" | "durable x = p2" using ph by (auto simp: in_phase_def)
  then show ?thesis
  proof cases
    case 1
    then show ?thesis using holds_search [OF h(1) ok(1)] assms(2-4) t h(3) n by (intro exI [of _ "length hs - 1"]) simp
  next
    case 2
    then show ?thesis using holds_search [OF h(1,4,5)] assms(2-4) t h(3) n by (intro exI [of _ "length hs - 1"]) simp
  next
    case 3
    then show ?thesis using holds_search [OF h(2) ok(2)] assms(2-4) by (intro exI [of _ "length hs"]) simp
  qed
qed

text \<open>The operations that are left always run, and then everything is in the memory.\<close>

fun run_ops :: "pm_op list \<Rightarrow> pm_index \<Rightarrow> pm_index option" where
  "run_ops [] x = Some x"
| "run_ops (e # os) x = do { x' \<leftarrow> run_op e x; run_ops os (x'\<lparr>todo := os\<rparr>) }"

lemma run_ops_ok:
  assumes "pm_ok nb K (x, hs)"
  shows "\<exists>x'. run_ops (todo x) x = Some x' \<and> todo x' = [] \<and> durable x' = cached x' \<and> holds_puts nb K (cached x') hs"
  using assms
proof (induction "todo x" arbitrary: x)
  case Nil
  then have "\<not> in_phase p0 p1 p2 (slot_ops b i s v) x" for p0 p1 p2 b i s v by (auto simp: in_phase_def slot_ops_def)
  then show ?case using Nil by (auto simp: pm_ok_def)
next
  case (Cons e os)
  then obtain p0 p1 p2 b i s v where a: "adding nb K hs p0 p1 p2 b i s v" "in_phase p0 p1 p2 (slot_ops b i s v) x"
    by (auto simp: pm_ok_def)
  obtain x' where x': "run_op e x = Some x'"
    "in_phase p0 p1 p2 (slot_ops b i s v) (x'\<lparr>todo := os\<rparr>) \<or> os = [] \<and> cached x' = p2 \<and> durable x' = p2"
    using run_phase [OF a Cons.hyps(2) [symmetric]] by blast
  then have "pm_ok nb K (x'\<lparr>todo := os\<rparr>, hs)"
    using pm_okI(1) [OF a(1)] pm_okI(2) [of "x'\<lparr>todo := os\<rparr>" nb K hs] adding_after [OF a(1)] by auto
  then show ?case using Cons.hyps(1) [of "x'\<lparr>todo := os\<rparr>"] x'(1) by (simp flip: Cons.hyps(2))
qed

text \<open>On a partition at rest an insert does what \<open>ht_insert\<close> does to the table.\<close>

lemma insert_ops_table:
  assumes ok: "table_ok nb K p" "told_apart K" "k \<in> K" and t: "num_bucket t = nb" "pid < length (partition t)" "partition t ! pid = p"
    and x: "cached x = p" "durable x = p"
  shows "\<exists>f os x'. insert_ops nb k v p = Some (f, os) \<and> run_ops os x = Some x' \<and>
    ht_insert pid k v t = Some (f, with_partition pid (cached x') t) \<and> durable x' = cached x'"
proof -
  have nb: "0 < nb" "nb < 2 ^ 31" "buckets_ok (nat nb) p" using ok by (auto simp: table_ok_def)
  note b = bucket_in [OF nb(1,2)]
  have "KEY_LENGTH \<le> length k" using ok by (simp add: told_apart_def)
  then have ins: "ht_insert pid k v t = Some (case find (free p) (key_probes nb k) of
        None \<Rightarrow> (False, with_partition pid p t) | Some pr \<Rightarrow> (True, with_partition pid (set_slot p pr v) t))"
    using hash_total [of k] t insert_slots_ok [OF nb(3) b(2) b(2), of 0 NUM_SLOT "sig1 k" "sig2 k"]
    by (auto simp: ht_insert_def with_partition_def b(1) access_simps key_probes_def Let_def split: option.splits)
  show ?thesis
  proof (cases "find (free p) (key_probes nb k)")
    case None
    then show ?thesis using ins insert_ops_ok [OF ok, of v] x by (intro exI [of _ False] exI [of _ "[]"] exI [of _ x]) simp
  next
    case (Some pr)
    obtain c i s where pr: "pr = (c, i, s)" by (cases pr) auto
    have "pr \<in> set (key_probes nb k)" using find_split [OF Some] by force
    then have ci: "c < nat nb" "i < 4" using probe_in [OF nb(1,2)] pr by fastforce+
    let ?m = "set_slot p (c, i, sig_at p (c, i, s)) v" and ?e = "set_slot p pr v"
    have cells: "set_cell p (c, i, Addr_word) v = Some ?m" "set_cell ?m (c, i, Sig_word) s = Some ?e"
      using set_slot_cells [OF nb(3) ci] by (simp_all add: pr del: set_cell.simps)
    note [simp del] = set_cell.simps get_cell.simps
    have "write_back (c, i, Addr_word) (x\<lparr>cached := ?m, todo := os\<rparr>) = Some (x\<lparr>cached := ?m, todo := os, durable := ?m\<rparr>)" for os
      using persist_after_write [of "x\<lparr>cached := ?m, todo := os\<rparr>" "(c, i, Addr_word)" v]
        cells get_set_cell(1) [OF cells(1)] x by simp
    moreover have "write_back (c, i, Sig_word) (x\<lparr>durable := ?m, cached := ?e, todo := os\<rparr>) =
        Some (x\<lparr>durable := ?e, cached := ?e, todo := os\<rparr>)" for os
      using persist_after_write [of "x\<lparr>durable := ?m, cached := ?e, todo := os\<rparr>" "(c, i, Sig_word)" s]
        cells get_set_cell(1) [OF cells(2)] x by simp
    ultimately have "\<exists>x'. run_ops (slot_ops c i s v) x = Some x' \<and> cached x' = ?e \<and> durable x' = ?e"
      using cells x by (simp add: slot_ops_def)
    then show ?thesis using ins insert_ops_ok [OF ok, of v] Some pr by auto
  qed
qed

definition index_answers :: "nat \<Rightarrow> byte list set \<Rightarrow> hash_table \<Rightarrow> answered \<Rightarrow> bool" where
  "index_answers pid K t hs \<longleftrightarrow>
     (\<forall>k \<in> K. ht_search pid k t = Some (case map_of (kept_puts hs) k of None \<Rightarrow> 0 | Some a \<Rightarrow> a))"

text \<open>
  C16: A crash loses at most the insert in progress, and never half of one. Start from a cleared
  partition of the persistent hash index and run any inserts of keys that the hashes tell apart,
  with cache lines evicted at any time. At every moment, what has reached the memory answers every
  search as the table does after some \<open>n\<close> of the inserts: all that have returned, with or without
  the one that has not. The insert in progress can always go on to its end, and then the memory
  holds all of them.
\<close>
theorem crash_keeps_inserts:
  assumes "pm_reached nb K (replicate (nat nb) zero_bucket) (x, hs)" "0 < nb" "nb < 2 ^ 31" "told_apart K"
    and "num_bucket t = nb" "pid < length (partition t)"
  shows "(\<exists>n \<le> length hs. length hs \<le> n + (if todo x = [] then 0 else 1) \<and>
      index_answers pid K (with_partition pid (durable x) t) (take n hs)) \<and>
    (\<exists>x'. run_ops (todo x) x = Some x' \<and> index_answers pid K (with_partition pid (durable x') t) hs)"
proof
  have ok: "pm_ok nb K (x, hs)"
    using pm_reached_ok [OF assms(1,4) zero_table_ok(1) [OF assms(2,3)]] zero_table_ok(2) [OF assms(2,3,4)] by blast
  show "\<exists>n \<le> length hs. length hs \<le> n + (if todo x = [] then 0 else 1) \<and>
      index_answers pid K (with_partition pid (durable x) t) (take n hs)"
  proof -
    obtain n where "n = length hs \<or> todo x \<noteq> [] \<and> n + 1 = length hs"
      "index_answers pid K (with_partition pid (durable x) t) (take n hs)"
      using durable_search [OF ok assms(4-6)] unfolding index_answers_def by blast
    then show ?thesis by (intro exI [of _ n]) auto
  qed
  obtain x' where x': "run_ops (todo x) x = Some x'" "durable x' = cached x'" "holds_puts nb K (cached x') hs"
    using run_ops_ok [OF ok] by blast
  have "buckets_ok (nat nb) (durable x')" using x'(2,3) by (auto simp: holds_puts_def table_ok_def)
  then show "\<exists>x'. run_ops (todo x) x = Some x' \<and> index_answers pid K (with_partition pid (durable x') t) hs"
    using holds_search [of nb K "durable x'" hs "durable x'"] x' assms(4-6) by (auto simp: index_answers_def)
qed

text \<open>The crash in the witness comes when the signature is stored and not yet flushed.\<close>

definition crashed :: pm_index where
  "crashed = \<lparr>cached = [zero_bucket, zero_bucket, \<lparr>signature = [11060263337653166570, 0, 0, 0], addr = [320, 0, 0, 0]\<rparr>, zero_bucket],
     durable = [zero_bucket, zero_bucket, \<lparr>signature = [0, 0, 0, 0], addr = [320, 0, 0, 0]\<rparr>, zero_bucket],
     todo = [Persist (2, 0, Sig_word)]\<rparr>"

lemma pm_runI:
  "todo x = e # tl (todo x) \<Longrightarrow> run_op e x = Some (y\<lparr>todo := todo x\<rparr>) \<Longrightarrow> todo y = tl (todo x) \<Longrightarrow> pm_step nb K (x, hs) (y, hs)"
  using pm_step.run [of x e "tl (todo x)" "y\<lparr>todo := todo x\<rparr>" nb K hs] by (cases y) simp

lemma crashed_ops: "insert_slots_ops 11060263337653166570 9501256149962151878 2 2 320 0 4 [zero_bucket, zero_bucket, zero_bucket, zero_bucket]
    = Some (True, slot_ops 2 0 11060263337653166570 320)"
  by code_simp

lemma four_zero: "replicate (nat 4) zero_bucket = [zero_bucket, zero_bucket, zero_bucket, zero_bucket]"
  by (simp add: numeral_eq_Suc)

lemma crashed_reached:
  "pm_reached 4 {key_a, key_c} (replicate (nat 4) zero_bucket) (crashed, [(True, key_a, 320)])"
proof -
  let ?z = "[zero_bucket, zero_bucket, zero_bucket, zero_bucket]" and ?hs = "[(True, key_a, 320 :: u64)]"
  let ?os = "slot_ops 2 0 11060263337653166570 320" and ?m = "[zero_bucket, zero_bucket, \<lparr>signature = [0, 0, 0, 0], addr = [320, 0, 0, 0]\<rparr>, zero_bucket]"
  have z: "zero_bucket = \<lparr>signature = [0, 0, 0, 0], addr = [0, 0, 0, 0]\<rparr>" by (simp add: zero_bucket_def NUM_SLOT_def numeral_eq_Suc)
  have ins: "insert_ops 4 key_a 320 ?z = Some (True, ?os)"
    by (simp add: insert_ops_def key_hashes bucket_id_def access_simps crashed_ops del: insert_slots_ops.simps)
  have "pm_step 4 {key_a, key_c} (\<lparr>cached = ?z, durable = ?z, todo = []\<rparr>, []) (\<lparr>cached = ?z, durable = ?z, todo = ?os\<rparr>, ?hs)"
    using pm_step.start [where x = "\<lparr>cached = ?z, durable = ?z, todo = []\<rparr>" and hs = "[]" and K = "{key_a, key_c}" and nb = 4] ins by simp
  moreover have "pm_step 4 {key_a, key_c} (\<lparr>cached = ?z, durable = ?z, todo = ?os\<rparr>, ?hs) (\<lparr>cached = ?m, durable = ?z, todo = tl ?os\<rparr>, ?hs)"
    by (rule pm_runI [where e = "Write (2, 0, Addr_word) 320"]) (simp_all add: slot_ops_def rd_def wr_def z)
  moreover have "pm_step 4 {key_a, key_c} (\<lparr>cached = ?m, durable = ?z, todo = tl ?os\<rparr>, ?hs) (\<lparr>cached = ?m, durable = ?m, todo = tl (tl ?os)\<rparr>, ?hs)"
    by (rule pm_runI [where e = "Persist (2, 0, Addr_word)"]) (simp_all add: slot_ops_def rd_def wr_def z write_back_def)
  moreover have "pm_step 4 {key_a, key_c} (\<lparr>cached = ?m, durable = ?m, todo = tl (tl ?os)\<rparr>, ?hs) (crashed, ?hs)"
    by (rule pm_runI [where e = "Write (2, 0, Sig_word) 11060263337653166570"]) (simp_all add: slot_ops_def rd_def wr_def z crashed_def)
  ultimately show ?thesis unfolding pm_reached_def four_zero by (meson rtranclp.rtrancl_refl rtranclp.rtrancl_into_rtrancl)
qed

theorem crash_keeps_inserts_witness:
  "(\<exists>n. n \<le> 1 \<and> index_answers 0 {key_a, key_c} (with_partition 0 (durable crashed) \<lparr>ht_num_partition = 1, num_bucket = 4, partition = [[]]\<rparr>)
       (take n [(True, key_a, 320)])) \<and>
   (\<exists>x'. run_ops (todo crashed) crashed = Some x' \<and>
     index_answers 0 {key_a, key_c} (with_partition 0 (durable x') \<lparr>ht_num_partition = 1, num_bucket = 4, partition = [[]]\<rparr>) [(True, key_a, 320)])"
  using crash_keeps_inserts [OF crashed_reached _ _ ac_told_apart, of "\<lparr>ht_num_partition = 1, num_bucket = 4, partition = [[]]\<rparr>" 0] by auto

end
