(* ===== verification/KV_City128.thy ===== *)
theory KV_City128
  imports KV_City
begin

text \<open>
  The other hashes of \<open>lib/city.cc\<close>: \<open>CityHash32\<close>, the 128-bit hashes and those over the CRC
  instruction, whose effect on two words is the argument \<open>crc\<close>. They share the conventions of
  the 64-bit hash: a string is the bytes its pointer may read, a read past them is \<open>None\<close>.
\<close>

section \<open>32 bits\<close>

definition c1 :: u32 where "c1 = 0xcc9e2d51"
definition c2 :: u32 where "c2 = 0x1b873593"

definition bswap_32 :: "u32 \<Rightarrow> u32" where
  "bswap_32 x = le_word (rev (map (\<lambda>i. ucast (drop_bit (8 * i) x)) [0..<4]))"

definition fmix :: "u32 \<Rightarrow> u32" where
  "fmix h =
     (let h = xor h (drop_bit 16 h);
          h = h * 0x85ebca6b;
          h = xor h (drop_bit 13 h);
          h = h * 0xc2b2ae35
      in xor h (drop_bit 16 h))"

definition Rotate32 :: "u32 \<Rightarrow> nat \<Rightarrow> u32" where
  "Rotate32 val shift = (if shift = 0 then val else or (drop_bit shift val) (push_bit (32 - shift) val))"

definition Mur :: "u32 \<Rightarrow> u32 \<Rightarrow> u32" where
  "Mur a h =
     (let a = a * c1;
          a = Rotate32 a 17;
          a = a * c2;
          h = xor h a;
          h = Rotate32 h 19
      in h * 5 + 0xe6546b64)"

definition Hash32Len13to24 :: "byte list \<Rightarrow> nat \<Rightarrow> u32 option" where
  "Hash32Len13to24 s len =
     do { a \<leftarrow> Fetch32 s (len div 2 - 4);
          b \<leftarrow> Fetch32 s 4;
          c \<leftarrow> Fetch32 s (len - 8);
          d \<leftarrow> Fetch32 s (len div 2);
          e \<leftarrow> Fetch32 s 0;
          f \<leftarrow> Fetch32 s (len - 4);
          Some (fmix (Mur f (Mur e (Mur d (Mur c (Mur b (Mur a (of_nat len)))))))) }"

fun len0to4_loop :: "byte list \<Rightarrow> nat \<Rightarrow> nat \<Rightarrow> u32 \<Rightarrow> u32 \<Rightarrow> (u32 \<times> u32) option" where
  "len0to4_loop s i 0 b c = Some (b, c)"
| "len0to4_loop s i (Suc n) b c =
     do { v \<leftarrow> rd s i;
          let b = b * c1 + scast v;
          len0to4_loop s (i + 1) n b (xor c b) }"

definition Hash32Len0to4 :: "byte list \<Rightarrow> nat \<Rightarrow> u32 option" where
  "Hash32Len0to4 s len =
     do { (b, c) \<leftarrow> len0to4_loop s 0 len 0 9;
          Some (fmix (Mur b (Mur (of_nat len) c))) }"

definition Hash32Len5to12 :: "byte list \<Rightarrow> nat \<Rightarrow> u32 option" where
  "Hash32Len5to12 s len =
     do { s0 \<leftarrow> Fetch32 s 0;
          e \<leftarrow> Fetch32 s (len - 4);
          m \<leftarrow> Fetch32 s (and (len div 2) 4);
          let d = of_nat len * 5;
          let a = of_nat len + s0;
          let b = d + e;
          let c = 9 + m;
          Some (fmix (Mur c (Mur b (Mur a d)))) }"

text \<open>One step of the three accumulators, and the loop over 20-byte chunks.\<close>

definition mix32 :: "u32 \<Rightarrow> nat \<Rightarrow> u32 \<Rightarrow> u32" where
  "mix32 h r a = Rotate32 (xor h a) r * 5 + 0xe6546b64"

fun city32_loop :: "byte list \<Rightarrow> nat \<Rightarrow> nat \<Rightarrow> u32 \<Rightarrow> u32 \<Rightarrow> u32 \<Rightarrow> (u32 \<times> u32 \<times> u32) option" where
  "city32_loop s i 0 f g h = Some (f, g, h)"
| "city32_loop s i (Suc iters) f g h =
     do { s0 \<leftarrow> Fetch32 s i;
          a1 \<leftarrow> Fetch32 s (i + 4);
          s8 \<leftarrow> Fetch32 s (i + 8);
          s12 \<leftarrow> Fetch32 s (i + 12);
          a4 \<leftarrow> Fetch32 s (i + 16);
          let a0 = Rotate32 (s0 * c1) 17 * c2;
          let a2 = Rotate32 (s8 * c1) 17 * c2;
          let a3 = Rotate32 (s12 * c1) 17 * c2;
          let h = mix32 h 18 a0;
          let f = Rotate32 (f + a1) 19 * c1;
          let g = Rotate32 (g + a2) 18 * 5 + 0xe6546b64;
          let h = mix32 h 19 (a3 + a1);
          let g = bswap_32 (xor g a4) * 5;
          let h = bswap_32 (h + a4 * 5);
          let f = f + a0;
          city32_loop s (i + 20) iters g h f }"

definition city32_tail :: "byte list \<Rightarrow> nat \<Rightarrow> nat \<Rightarrow> u32 option" where
  "city32_tail s len k = map_option (\<lambda>w. Rotate32 (w * c1) 17 * c2) (Fetch32 s (len - k))"

definition CityHash32 :: "byte list \<Rightarrow> nat \<Rightarrow> u32 option" where
  "CityHash32 s len =
     (if len \<le> 24
      then (if len \<le> 12 then (if len \<le> 4 then Hash32Len0to4 s len else Hash32Len5to12 s len) else Hash32Len13to24 s len)
      else do {
        a0 \<leftarrow> city32_tail s len 4;
        a1 \<leftarrow> city32_tail s len 8;
        a2 \<leftarrow> city32_tail s len 16;
        a3 \<leftarrow> city32_tail s len 12;
        a4 \<leftarrow> city32_tail s len 20;
        let g = c1 * of_nat len;
        let f = g;
        let h = mix32 (mix32 (of_nat len) 19 a0) 19 a2;
        let g = mix32 (mix32 g 19 a1) 19 a3;
        let f = Rotate32 (f + a4) 19 * 5 + 0xe6546b64;
        (f, g, h) \<leftarrow> city32_loop s 0 ((len - 1) div 20) f g h;
        let g = Rotate32 (Rotate32 g 11 * c1) 17 * c1;
        let f = Rotate32 (Rotate32 f 11 * c1) 17 * c1;
        let h = Rotate32 (h + g) 19 * 5 + 0xe6546b64;
        let h = Rotate32 h 17 * c1;
        let h = Rotate32 (h + f) 19 * 5 + 0xe6546b64;
        Some (Rotate32 h 17 * c1) })"

section \<open>128 bits\<close>

text \<open>A hash of 128 bits is the pair of its low and its high word.\<close>

fun murmur_loop :: "nat \<Rightarrow> byte list \<Rightarrow> nat \<Rightarrow> int \<Rightarrow> u64 \<times> u64 \<times> u64 \<times> u64 \<Rightarrow> (u64 \<times> u64 \<times> u64 \<times> u64) option" where
  "murmur_loop 0 s i l st = None"
| "murmur_loop (Suc fuel) s i l (a, b, c, d) =
     do { s0 \<leftarrow> Fetch64 s i;
          s8 \<leftarrow> Fetch64 s (i + 8);
          let a = xor a (ShiftMix (s0 * k1) * k1) * k1;
          let b = xor b a;
          let c = xor c (ShiftMix (s8 * k1) * k1) * k1;
          let d = xor d c;
          if l - 16 > 0 then murmur_loop fuel s (i + 16) (l - 16) (a, b, c, d) else Some (a, b, c, d) }"

definition CityMurmur :: "byte list \<Rightarrow> nat \<Rightarrow> u64 \<times> u64 \<Rightarrow> (u64 \<times> u64) option" where
  "CityMurmur s len seed =
     do { let a = fst seed;
          let b = snd seed;
          let l = int len - 16;
          (a, b, c, d) \<leftarrow>
            (if l \<le> 0
             then do { let a = ShiftMix (a * k1) * k1;
                       h \<leftarrow> HashLen0to16 s len;
                       let c = b * k1 + h;
                       e \<leftarrow> (if len \<ge> 8 then Fetch64 s 0 else Some c);
                       Some (a, b, c, ShiftMix (a + e)) }
             else do { e8 \<leftarrow> Fetch64 s (len - 8);
                       let c = HashLen16 (e8 + k1) a;
                       e16 \<leftarrow> Fetch64 s (len - 16);
                       let d = HashLen16 (b + of_nat len) (c + e16);
                       murmur_loop len s 0 l (a + d, b, c, d) });
          let a = HashLen16 a c;
          let b = HashLen16 d b;
          Some (xor a b, HashLen16 b a) }"

type_synonym city_state = "(u64 \<times> u64) \<times> (u64 \<times> u64) \<times> u64 \<times> u64 \<times> u64"

definition city128_step :: "byte list \<Rightarrow> nat \<Rightarrow> city_state \<Rightarrow> city_state option" where
  "city128_step s i st =
     (case st of (v, w, x, y, z) \<Rightarrow>
      do { s8 \<leftarrow> Fetch64 s (i + 8);
           s48 \<leftarrow> Fetch64 s (i + 48);
           s40 \<leftarrow> Fetch64 s (i + 40);
           s16 \<leftarrow> Fetch64 s (i + 16);
           let x = Rotate (x + y + fst v + s8) 37 * k1;
           let y = Rotate (y + snd v + s48) 42 * k1;
           let x = xor x (snd w);
           let y = y + (fst v + s40);
           let z = Rotate (z + fst w) 33 * k1;
           v \<leftarrow> WeakHashLen32WithSeeds_at s i (snd v * k1) (x + fst w);
           w \<leftarrow> WeakHashLen32WithSeeds_at s (i + 32) (z + snd w) (y + s16);
           Some (v, w, z, y, x) })"

function city128_loop :: "byte list \<Rightarrow> nat \<Rightarrow> nat \<Rightarrow> city_state \<Rightarrow> (nat \<times> nat \<times> city_state) option" where
  "city128_loop s i len st =
     do { st \<leftarrow> city128_step s i st;
          st \<leftarrow> city128_step s (i + 64) st;
          if len - 128 \<ge> 128 then city128_loop s (i + 128) (len - 128) st else Some (i + 128, len - 128, st) }"
  by pat_completeness auto
termination by (relation "measure (\<lambda>(s, i, len, _). len)") auto

declare city128_loop.simps [simp del]

text \<open>The tail: up to 4 chunks of 32 bytes from the end; \<open>n\<close> bounds the rounds left.\<close>

fun city128_tail :: "nat \<Rightarrow> byte list \<Rightarrow> nat \<Rightarrow> nat \<Rightarrow> nat \<Rightarrow> city_state \<Rightarrow> city_state option" where
  "city128_tail 0 s i len tail_done st = (if tail_done < len then None else Some st)"
| "city128_tail (Suc n) s i len tail_done (v, w, x, y, z) =
     (if tail_done < len
      then do { let tail_done = tail_done + 32;
                let p = i + len - tail_done;
                let y = Rotate (x + y) 42 * k0 + snd v;
                e16 \<leftarrow> Fetch64 s (p + 16);
                let w = (fst w + e16, snd w);
                let x = x * k0 + fst w;
                e0 \<leftarrow> Fetch64 s p;
                let z = z + (snd w + e0);
                let w = (fst w, snd w + fst v);
                v \<leftarrow> WeakHashLen32WithSeeds_at s p (fst v + z) (snd v);
                city128_tail n s i len tail_done ((fst v * k0, snd v), w, x, y, z) }
      else Some (v, w, x, y, z))"

definition CityHash128WithSeed :: "byte list \<Rightarrow> nat \<Rightarrow> u64 \<times> u64 \<Rightarrow> (u64 \<times> u64) option" where
  "CityHash128WithSeed s len seed =
     (if len < 128 then CityMurmur s len seed
      else do {
        let x = fst seed;
        let y = snd seed;
        let z = of_nat len * k1;
        s0 \<leftarrow> Fetch64 s 0;
        s8 \<leftarrow> Fetch64 s 8;
        s88 \<leftarrow> Fetch64 s 88;
        let v1 = Rotate (xor y k1) 49 * k1 + s0;
        let v2 = Rotate v1 42 * k1 + s8;
        let w1 = Rotate (y + z) 35 * k1 + x;
        let w2 = Rotate (x + s88) 53 * k1;
        (i, len, v, w, x, y, z) \<leftarrow> city128_loop s 0 len ((v1, v2), (w1, w2), x, y, z);
        let x = x + Rotate (fst v + z) 49 * k0;
        let y = y * k0 + Rotate (snd w) 37;
        let z = z * k0 + Rotate (fst w) 27;
        (v, w, x, y, z) \<leftarrow> city128_tail 4 s i len 0 ((fst v * k0, snd v), (fst w * 9, snd w), x, y, z);
        let x = HashLen16 x (fst v);
        let y = HashLen16 (y + z) (fst w);
        Some (HashLen16 (x + snd v) (snd w) + y, HashLen16 (x + snd w) (y + snd v)) })"

definition CityHash128 :: "byte list \<Rightarrow> nat \<Rightarrow> (u64 \<times> u64) option" where
  "CityHash128 s len =
     (if len \<ge> 16
      then do { s0 \<leftarrow> Fetch64 s 0; s8 \<leftarrow> Fetch64 s 8; CityHash128WithSeed (drop 16 s) (len - 16) (s0, s8 + k0) }
      else CityHash128WithSeed s len (k0, k1))"

section \<open>Over the CRC instruction\<close>

record crc_state =
  va :: u64
  vb :: u64
  vc :: u64
  vd :: u64
  ve :: u64
  vf :: u64
  vg :: u64
  vh :: u64
  vx :: u64
  vy :: u64
  vz :: u64

text \<open>The macro \<open>PERMUTE3\<close> on the three triples it is used with, and the macro \<open>CHUNK\<close>.\<close>

definition chunk :: "(u64 \<Rightarrow> u64 \<Rightarrow> u64) \<Rightarrow> byte list \<Rightarrow> nat \<Rightarrow> nat \<Rightarrow> crc_state \<Rightarrow> crc_state option" where
  "chunk crc s r i t =
     do { s0 \<leftarrow> Fetch64 s i;
          s8 \<leftarrow> Fetch64 s (i + 8);
          s16 \<leftarrow> Fetch64 s (i + 16);
          s24 \<leftarrow> Fetch64 s (i + 24);
          s32 \<leftarrow> Fetch64 s (i + 32);
          let (x, z, y) = (vy t, vx t, vz t);
          let b = vb t + s0;
          let c = vc t + s8;
          let d = vd t + s16;
          let e = ve t + s24;
          let f = vf t + s32;
          let a = va t + b;
          let h = vh t + f;
          let b = b + c;
          let f = f + d;
          let g = vg t + e;
          let e = e + z;
          let g = g + x;
          let z = crc z (b + g);
          let y = crc y (e + h);
          let x = crc x (f + a);
          let e = Rotate e r;
          let c = c + e;
          Some \<lparr>va = a, vb = b, vc = c, vd = d, ve = e, vf = f, vg = g, vh = h, vx = x, vy = y, vz = z\<rparr> }"

fun crc_rounds :: "(u64 \<Rightarrow> u64 \<Rightarrow> u64) \<Rightarrow> byte list \<Rightarrow> nat \<Rightarrow> nat \<Rightarrow> crc_state \<Rightarrow> (nat \<times> crc_state) option" where
  "crc_rounds crc s i 0 t = Some (i, t)"
| "crc_rounds crc s i (Suc iters) t =
     do { t \<leftarrow> chunk crc s 0 i t;
          let t = t\<lparr>va := vc t, vh := va t, vc := vh t\<rparr>;
          t \<leftarrow> chunk crc s 33 (i + 40) t;
          let t = t\<lparr>va := vf t, vh := va t, vf := vh t\<rparr>;
          t \<leftarrow> chunk crc s 0 (i + 80) t;
          let t = t\<lparr>vb := vf t, vh := vb t, vf := vh t\<rparr>;
          t \<leftarrow> chunk crc s 42 (i + 120) t;
          let t = t\<lparr>vb := vd t, vh := vb t, vd := vh t\<rparr>;
          t \<leftarrow> chunk crc s 0 (i + 160) t;
          let t = t\<lparr>vb := ve t, vh := vb t, ve := vh t\<rparr>;
          t \<leftarrow> chunk crc s 33 (i + 200) t;
          let t = t\<lparr>va := ve t, vh := va t, ve := vh t\<rparr>;
          crc_rounds crc s (i + 240) iters t }"

fun crc_forties :: "(u64 \<Rightarrow> u64 \<Rightarrow> u64) \<Rightarrow> byte list \<Rightarrow> nat \<Rightarrow> nat \<Rightarrow> crc_state \<Rightarrow> (nat \<times> crc_state) option" where
  "crc_forties crc s i 0 t = Some (i, t)"
| "crc_forties crc s i (Suc n) t =
     do { t \<leftarrow> chunk crc s 29 i t;
          let t = t\<lparr>ve := xor (ve t) (Rotate (va t) 20), vh := vh t + Rotate (vb t) 30,
                    vg := xor (vg t) (Rotate (vc t) 40), vf := vf t + Rotate (vd t) 34\<rparr>;
          crc_forties crc s (i + 40) n (t\<lparr>vc := vg t, vh := vc t, vg := vh t\<rparr>) }"

definition crc_rest :: "(u64 \<Rightarrow> u64 \<Rightarrow> u64) \<Rightarrow> byte list \<Rightarrow> nat \<Rightarrow> nat \<Rightarrow> crc_state \<Rightarrow> crc_state option" where
  "crc_rest crc s i len t =
     (if len > 0
      then do { t \<leftarrow> chunk crc s 33 (i + len - 40) t;
                Some (t\<lparr>ve := xor (ve t) (Rotate (va t) 43), vh := vh t + Rotate (vb t) 42,
                        vg := xor (vg t) (Rotate (vc t) 41), vf := vf t + Rotate (vd t) 40\<rparr>) }
      else Some t)"

text \<open>The four words of the result from the state and the first two words before the loop.\<close>

definition crc_finish :: "crc_state \<Rightarrow> u64 \<Rightarrow> u64 \<Rightarrow> u64 \<times> u64 \<times> u64 \<times> u64" where
  "crc_finish t r0 r1 =
     (let r0 = xor r0 (vh t);
          r1 = xor r1 (vg t);
          g = vg t + vh t;
          a = HashLen16 (va t) (g + vz t);
          x = vx t + push_bit 32 (vy t);
          b = vb t + x;
          c = HashLen16 (vc t) (vz t) + vh t;
          d = HashLen16 (vd t) (ve t + r0);
          g = g + ve t;
          h = vh t + HashLen16 x (vf t);
          e = HashLen16 a d + g;
          z = HashLen16 b c + a;
          y = HashLen16 g h + c;
          r0 = e + z + y + x;
          a = ShiftMix ((a + y) * k0) * k0 + b;
          r1 = r1 + (a + r0);
          a = ShiftMix (a * k0) * k0 + c;
          r2 = a + r1;
          a = ShiftMix ((a + e) * k0) * k0
      in (r0, r1, r2, a + r2))"

definition CityHashCrc256Long ::
  "(u64 \<Rightarrow> u64 \<Rightarrow> u64) \<Rightarrow> byte list \<Rightarrow> nat \<Rightarrow> u32 \<Rightarrow> (u64 \<times> u64 \<times> u64 \<times> u64) option" where
  "CityHashCrc256Long crc s len seed =
     do { s56 \<leftarrow> Fetch64 s 56;
          s96 \<leftarrow> Fetch64 s 96;
          s120 \<leftarrow> Fetch64 s 120;
          s184 \<leftarrow> Fetch64 s 184;
          let b = s96 + k0;
          let c = HashLen16 b (of_nat len);
          let d = s120 * k0 + of_nat len;
          (i, t) \<leftarrow> crc_rounds crc s 0 (len div 240)
            \<lparr>va = s56 + k0, vb = b, vc = c, vd = d, ve = s184 + ucast seed, vf = 0, vg = 0, vh = c + d,
             vx = ucast seed, vy = 0, vz = 0\<rparr>;
          let rest = len - len div 240 * 240;
          (i, t) \<leftarrow> crc_forties crc s i (rest div 40) t;
          t \<leftarrow> crc_rest crc s i (rest mod 40) t;
          Some (crc_finish t c d) }"

definition CityHashCrc256Short :: "(u64 \<Rightarrow> u64 \<Rightarrow> u64) \<Rightarrow> byte list \<Rightarrow> nat \<Rightarrow> (u64 \<times> u64 \<times> u64 \<times> u64) option" where
  "CityHashCrc256Short crc s len =
     (if length s < len then None
      else CityHashCrc256Long crc (take len s @ replicate (240 - len) 0) 240 (not (of_nat len)))"

definition CityHashCrc256 :: "(u64 \<Rightarrow> u64 \<Rightarrow> u64) \<Rightarrow> byte list \<Rightarrow> nat \<Rightarrow> (u64 \<times> u64 \<times> u64 \<times> u64) option" where
  "CityHashCrc256 crc s len = (if len \<ge> 240 then CityHashCrc256Long crc s len 0 else CityHashCrc256Short crc s len)"

definition CityHashCrc128WithSeed :: "(u64 \<Rightarrow> u64 \<Rightarrow> u64) \<Rightarrow> byte list \<Rightarrow> nat \<Rightarrow> u64 \<times> u64 \<Rightarrow> (u64 \<times> u64) option" where
  "CityHashCrc128WithSeed crc s len seed =
     (if len \<le> 900 then CityHash128WithSeed s len seed
      else do { (r0, r1, r2, r3) \<leftarrow> CityHashCrc256 crc s len;
                let u = snd seed + r0;
                let v = fst seed + r1;
                Some (HashLen16 u (v + r2), HashLen16 (Rotate v 32) (u * k0 + r3)) })"

definition CityHashCrc128 :: "(u64 \<Rightarrow> u64 \<Rightarrow> u64) \<Rightarrow> byte list \<Rightarrow> nat \<Rightarrow> (u64 \<times> u64) option" where
  "CityHashCrc128 crc s len =
     (if len \<le> 900 then CityHash128 s len
      else do { (r0, r1, r2, r3) \<leftarrow> CityHashCrc256 crc s len; Some (r2, r3) })"

end
