(* ===== verification/KV_CityFacts.thy ===== *)
theory KV_CityFacts
  imports KV_City128
begin

text \<open>The other hashes return on every string and read only inside it.\<close>

section \<open>32 bits\<close>

lemma len0to4_in: "i + n \<le> length s \<Longrightarrow> len0to4_loop s i n b c \<noteq> None"
  by (induction n arbitrary: i b c) (auto simp: access_simps Let_def simp del: not_None_eq)

lemma city32_loop_in: "i + 20 * n \<le> length s \<Longrightarrow> city32_loop s i n f g h \<noteq> None"
proof (induction n arbitrary: i f g h)
  case (Suc n)
  have "i + 20 + 20 * n \<le> length s" using Suc.prems by simp
  then have "city32_loop s (i + 20) n f g h \<noteq> None" for f g h by (rule Suc.IH)
  moreover obtain w0 w4 w8 w12 w16 where "Fetch32 s i = Some w0" "Fetch32 s (i + 4) = Some w4" "Fetch32 s (i + 8) = Some w8"
      "Fetch32 s (i + 12) = Some w12" "Fetch32 s (i + 16) = Some w16"
    using Suc.prems by (simp add: Fetch32_def)
  ultimately show ?case by (simp add: Let_def del: not_None_eq)
qed simp

lemma city32_in: "CityHash32 s (length s) \<noteq> None"
proof -
  let ?n = "length s"
  consider "?n \<le> 4" | "4 < ?n \<and> ?n \<le> 12" | "12 < ?n \<and> ?n \<le> 24" | "24 < ?n" by linarith
  then show ?thesis
  proof cases
    case 1
    then show ?thesis using len0to4_in [of 0 ?n s 0 9]
      by (auto simp: CityHash32_def Hash32Len0to4_def)
  next
    case 2
    have "\<forall>n \<in> set [5..<13]. and (n div 2) 4 + 4 \<le> (n :: nat)" by code_simp
    then have "and (?n div 2) 4 + 4 \<le> ?n" by (rule bspec) (use 2 in auto)
    then show ?thesis using 2 by (simp add: CityHash32_def Hash32Len5to12_def Fetch32_def Let_def)
  next
    case 3
    then have "?n div 2 + 4 \<le> ?n" "?n div 2 - 4 + 4 \<le> ?n" by linarith+
    then show ?thesis using 3 by (simp add: CityHash32_def Hash32Len13to24_def Fetch32_def Let_def)
  next
    case 4
    have t: "city32_tail s ?n k \<noteq> None" if "4 \<le> k" "k \<le> 20" for k
      using that 4 by (simp add: city32_tail_def Fetch32_def)
    have "20 * ((?n - 1) div 20) \<le> ?n" using div_times_less_eq_dividend [of "?n - 1" 20] by linarith
    then have l: "city32_loop s 0 ((?n - 1) div 20) f g h \<noteq> None" for f g h by (intro city32_loop_in) simp
    obtain a0 a1 a2 a3 a4 where "city32_tail s ?n 4 = Some a0" "city32_tail s ?n 8 = Some a1" "city32_tail s ?n 16 = Some a2"
        "city32_tail s ?n 12 = Some a3" "city32_tail s ?n 20 = Some a4"
      using t [of 4] t [of 8] t [of 16] t [of 12] t [of 20] by auto
    then show ?thesis using 4 l by (auto simp: CityHash32_def Let_def simp del: not_None_eq split: Option.bind_splits)
  qed
qed

section \<open>128 bits\<close>

lemma step_in: "i + 64 \<le> length s \<Longrightarrow> city128_step s i st \<noteq> None"
proof -
  assume i: "i + 64 \<le> length s"
  obtain f8 f48 f40 f16 where f: "Fetch64 s (i + 8) = Some f8" "Fetch64 s (i + 48) = Some f48"
      "Fetch64 s (i + 40) = Some f40" "Fetch64 s (i + 16) = Some f16"
    using i by (simp add: Fetch64_def)
  have wk: "WeakHashLen32WithSeeds_at s i a b \<noteq> None" "WeakHashLen32WithSeeds_at s (i + 32) a b \<noteq> None"
    for a b by (rule Weak_in, use i in simp)+
  obtain v w x y z where "st = (v, w, x, y, z)" by (cases st)
  then show ?thesis using wk by (auto simp: city128_step_def f Let_def simp del: not_None_eq split: Option.bind_splits)
qed

lemma city128_loop_in:
  assumes "128 \<le> len" "i + len \<le> length s"
  shows "\<exists>j r st'. city128_loop s i len st = Some (j, r, st') \<and> r < 128 \<and> j + r = i + len \<and> 128 \<le> j"
  using assms
proof (induction len arbitrary: i st rule: less_induct)
  case (less len)
  obtain s1 where s1: "city128_step s i st = Some s1" using step_in [of i s st] less.prems by auto
  obtain s2 where s2: "city128_step s (i + 64) s1 = Some s2" using step_in [of "i + 64" s s1] less.prems by auto
  show ?case
  proof (cases "len - 128 \<ge> 128")
    case True
    have "\<exists>j r st'. city128_loop s (i + 128) (len - 128) s2 = Some (j, r, st') \<and> r < 128 \<and> j + r = i + 128 + (len - 128) \<and> 128 \<le> j"
      by (rule less.IH) (use True less.prems in auto)
    then show ?thesis using True s1 s2 less.prems by (subst city128_loop.simps) auto
  next
    case False
    then have "city128_loop s i len st = Some (i + 128, len - 128, s2)" using s1 s2 by (subst city128_loop.simps) simp
    then show ?thesis using False less.prems by (intro exI [of _ "i + 128"] exI [of _ "len - 128"] exI [of _ s2]) auto
  qed
qed

lemma city128_tail_in:
  assumes "len \<le> tail_done + 32 * n" "i + len \<le> length s" "128 \<le> i" "tail_done \<le> 128" "n \<le> 4" "tail_done + 32 * n \<le> 128"
  shows "city128_tail n s i len tail_done st \<noteq> None"
  using assms
proof (induction n arbitrary: tail_done st)
  case (Suc n)
  obtain v w x y z where st: "st = (v, w, x, y, z)" by (cases st)
  show ?case
  proof (cases "tail_done < len")
    case True
    let ?t = "tail_done + 32" and ?p = "i + len - (tail_done + 32)"
    have p: "?p + 32 \<le> length s" using True Suc.prems by linarith
    obtain f16 f0 where f: "Fetch64 s (?p + 16) = Some f16" "Fetch64 s ?p = Some f0" using p by (simp add: Fetch64_def)
    have wk: "WeakHashLen32WithSeeds_at s ?p a b \<noteq> None" for a b by (rule Weak_in) (rule p)
    have "city128_tail n s i len ?t st' \<noteq> None" for st'
      by (rule Suc.IH) (use Suc.prems in auto)
    then show ?thesis using True wk by (auto simp: st f Let_def simp del: not_None_eq split: Option.bind_splits)
  qed (simp add: st)
qed simp

lemma murmur_loop_in:
  assumes "int i + l \<le> int (length s)" "l \<le> 16 * int fuel" "0 < l" "i + 16 \<le> length s" "int i + 16 * ((l + 15) div 16) \<le> int (length s)"
  shows "murmur_loop fuel s i l st \<noteq> None"
  using assms
proof (induction fuel arbitrary: i l st)
  case (Suc fuel)
  obtain a b c d where st: "st = (a, b, c, d)" by (cases st)
  obtain f0 f8 where f: "Fetch64 s i = Some f0" "Fetch64 s (i + 8) = Some f8" using Suc.prems(4) by (simp add: Fetch64_def)
  show ?case
  proof (cases "l - 16 > 0")
    case True
    have d: "(l + 15) div 16 = (l - 16 + 15) div 16 + 1" using True by simp
    have "1 \<le> (l - 16 + 15) div 16" using True by presburger
    then have "murmur_loop fuel s (i + 16) (l - 16) st' \<noteq> None" for st'
      by (intro Suc.IH) (use Suc.prems True d in auto)
    then show ?thesis using True by (simp add: st f Let_def del: not_None_eq)
  next
    case False
    then show ?thesis by (simp add: st f Let_def)
  qed
qed simp

lemma murmur_in: "len = length s \<Longrightarrow> CityMurmur s len seed \<noteq> None"
proof -
  assume len: "len = length s"
  have h16: "HashLen0to16 s len \<noteq> None" if "len \<le> 16"
    using that len by (auto simp: HashLen0to16_def Fetch64_def Fetch32_def access_simps Let_def)
  show ?thesis
  proof (cases "int len - 16 \<le> 0")
    case True
    then have "len \<le> 16" by linarith
    then show ?thesis using h16 len True by (auto simp: CityMurmur_def Fetch64_def Let_def)
  next
    case False
    then have l: "16 < len" by linarith
    have "16 * ((int len - 16 + 15) div 16) \<le> int len" by presburger
    then have lp: "murmur_loop len s 0 (int len - 16) st \<noteq> None" for st
      by (intro murmur_loop_in) (use l len in auto)
    obtain e8 e16 where "Fetch64 s (len - 8) = Some e8" "Fetch64 s (len - 16) = Some e16"
      using l len by (simp add: Fetch64_def)
    then show ?thesis using False lp by (auto simp: CityMurmur_def Let_def simp del: not_None_eq split: Option.bind_splits)
  qed
qed

lemma city128_seed_in: "CityHash128WithSeed s (length s) seed \<noteq> None"
proof (cases "length s < 128")
  case True
  then show ?thesis using murmur_in [of "length s" s seed] by (simp add: CityHash128WithSeed_def)
next
  case False
  then have n: "128 \<le> length s" by simp
  obtain s0 s8 s88 where f: "Fetch64 s 0 = Some s0" "Fetch64 s 8 = Some s8" "Fetch64 s 88 = Some s88"
    using n by (simp add: Fetch64_def)
  have lp: "\<exists>j r st'. city128_loop s 0 (length s) st = Some (j, r, st') \<and> r < 128 \<and> j + r = length s \<and> 128 \<le> j" for st
    using city128_loop_in [of "length s" 0 s st] n by simp
  have tl: "city128_tail 4 s j r 0 st \<noteq> None" if "r < 128" "j + r = length s" "128 \<le> j" for j r st
    by (rule city128_tail_in) (use that in auto)
  show ?thesis
  proof
    assume "CityHash128WithSeed s (length s) seed = None"
    moreover obtain j r v w x y z where "city128_loop s 0 (length s)
       ((Rotate (xor (snd seed) k1) 49 * k1 + s0, Rotate (Rotate (xor (snd seed) k1) 49 * k1 + s0) 42 * k1 + s8),
        (Rotate (snd seed + of_nat (length s) * k1) 35 * k1 + fst seed, Rotate (fst seed + s88) 53 * k1),
        fst seed, snd seed, of_nat (length s) * k1) = Some (j, r, v, w, x, y, z)" "r < 128" "j + r = length s" "128 \<le> j"
      using lp by (metis prod.exhaust)
    moreover have "city128_tail 4 s j r 0 st \<noteq> None" for st using calculation(3-5) by (rule tl)
    ultimately show False using False f
      by (auto simp: CityHash128WithSeed_def Let_def simp del: not_None_eq split: Option.bind_splits prod.splits)
  qed
qed

lemma city128_in: "CityHash128 s (length s) \<noteq> None"
proof (cases "16 \<le> length s")
  case True
  obtain s0 s8 where "Fetch64 s 0 = Some s0" "Fetch64 s 8 = Some s8" using True by (simp add: Fetch64_def)
  moreover have "CityHash128WithSeed (drop 16 s) (length s - 16) seed \<noteq> None" for seed
    using city128_seed_in [of "drop 16 s" seed] by simp
  ultimately show ?thesis using True by (simp add: CityHash128_def del: not_None_eq)
next
  case False
  then show ?thesis using city128_seed_in [of s] by (simp add: CityHash128_def del: not_None_eq)
qed

section \<open>Over the CRC instruction\<close>

lemma chunk_in: "i + 40 \<le> length s \<Longrightarrow> chunk crc s r i t \<noteq> None"
proof -
  assume i: "i + 40 \<le> length s"
  obtain s0 s8 s16 s24 s32 where "Fetch64 s i = Some s0" "Fetch64 s (i + 8) = Some s8" "Fetch64 s (i + 16) = Some s16"
      "Fetch64 s (i + 24) = Some s24" "Fetch64 s (i + 32) = Some s32"
    using i by (simp add: Fetch64_def)
  then show ?thesis by (simp add: chunk_def Let_def)
qed

lemma crc_rounds_in: "i + 240 * n \<le> length s \<Longrightarrow> \<exists>t'. crc_rounds crc s i n t = Some (i + 240 * n, t')"
proof (induction n arbitrary: i t)
  case (Suc n)
  have c: "\<exists>t'. chunk crc s r (i + k) t = Some t'" if "k \<le> 200" for r k t
    using chunk_in [of "i + k" s crc r t] that Suc.prems by simp
  have r: "\<exists>t'. crc_rounds crc s (i + 240) n t = Some (i + 240 + 240 * n, t')" for t
    by (rule Suc.IH) (use Suc.prems in simp)
  obtain t1 where t1: "chunk crc s 0 i t = Some t1" using c [of 0 0 t] by auto
  obtain t2 where t2: "chunk crc s 33 (i + 40) (t1\<lparr>va := vc t1, vh := va t1, vc := vh t1\<rparr>) = Some t2" using c by force
  obtain t3 where t3: "chunk crc s 0 (i + 80) (t2\<lparr>va := vf t2, vh := va t2, vf := vh t2\<rparr>) = Some t3" using c by force
  obtain t4 where t4: "chunk crc s 42 (i + 120) (t3\<lparr>vb := vf t3, vh := vb t3, vf := vh t3\<rparr>) = Some t4" using c by force
  obtain t5 where t5: "chunk crc s 0 (i + 160) (t4\<lparr>vb := vd t4, vh := vb t4, vd := vh t4\<rparr>) = Some t5" using c by force
  obtain t6 where t6: "chunk crc s 33 (i + 200) (t5\<lparr>vb := ve t5, vh := vb t5, ve := vh t5\<rparr>) = Some t6" using c by force
  obtain t' where "crc_rounds crc s (i + 240) n (t6\<lparr>va := ve t6, vh := va t6, ve := vh t6\<rparr>) = Some (i + 240 + 240 * n, t')"
    using r by blast
  then show ?case using t1 t2 t3 t4 t5 t6 by (simp add: Let_def)
qed simp

lemma crc_forties_in: "i + 40 * n \<le> length s \<Longrightarrow> \<exists>t'. crc_forties crc s i n t = Some (i + 40 * n, t')"
proof (induction n arbitrary: i t)
  case (Suc n)
  obtain t1 where t1: "chunk crc s 29 i t = Some t1" using chunk_in [of i s crc 29 t] Suc.prems by auto
  have "\<exists>t'. crc_forties crc s (i + 40) n t = Some (i + (40 + 40 * n), t')" for t
    using Suc.IH [of "i + 40" t] Suc.prems by (simp add: add.assoc)
  then show ?case using t1 by (simp add: Let_def)
qed simp

lemma crc256_long_in:
  assumes "len = length s" "240 \<le> len"
  shows "CityHashCrc256Long crc s len seed \<noteq> None"
proof -
  define q r p m where "q = len div 240" and "r = len - len div 240 * 240" and "p = r div 40" and "m = r mod 40"
  have sum: "240 * q + r = length s" unfolding q_def r_def using assms(1) by (simp add: minus_div_mult_eq_mod)
  have fr: "40 * p + m = r" by (simp add: p_def m_def)
  have q: "1 \<le> q" unfolding q_def using assms(2) by (simp add: Suc_le_eq div_greater_zero_iff)
  have f: "\<exists>w. Fetch64 s k = Some w" if "k \<le> 184" for k using that assms by (simp add: Fetch64_def)
  obtain s56 s96 s120 s184 where fs: "Fetch64 s 56 = Some s56" "Fetch64 s 96 = Some s96" "Fetch64 s 120 = Some s120" "Fetch64 s 184 = Some s184"
    using f [of 56] f [of 96] f [of 120] f [of 184] by auto
  have a: "\<exists>t'. crc_rounds crc s 0 q t = Some (240 * q, t')" for t
    using crc_rounds_in [of 0 q s crc t] sum by simp
  have b: "\<exists>t'. crc_forties crc s (240 * q) p t = Some (240 * q + 40 * p, t')" for t
    by (rule crc_forties_in) (use sum fr in linarith)
  have c: "\<exists>t'. crc_rest crc s (240 * q + 40 * p) m t = Some t'" for t
  proof -
    have "240 * q + 40 * p + m - 40 + 40 \<le> length s" using sum fr q by linarith
    then have "\<exists>t'. chunk crc s 33 (240 * q + 40 * p + m - 40) t = Some t'" using chunk_in by (metis not_None_eq)
    then show ?thesis by (auto simp: crc_rest_def)
  qed
  obtain t1 where t1: "crc_rounds crc s 0 q \<lparr>va = s56 + k0, vb = s96 + k0, vc = HashLen16 (s96 + k0) (of_nat len),
      vd = s120 * k0 + of_nat len, ve = s184 + ucast seed, vf = 0, vg = 0,
      vh = HashLen16 (s96 + k0) (of_nat len) + (s120 * k0 + of_nat len), vx = ucast seed, vy = 0, vz = 0\<rparr> = Some (240 * q, t1)"
    using a by blast
  obtain t2 where t2: "crc_forties crc s (240 * q) p t1 = Some (240 * q + 40 * p, t2)" using b by blast
  obtain t3 where t3: "crc_rest crc s (240 * q + 40 * p) m t2 = Some t3" using c by blast
  show ?thesis
    using fs t1 t2 t3 unfolding CityHashCrc256Long_def Let_def r_def [symmetric]
    unfolding q_def [symmetric] p_def [symmetric] m_def [symmetric] by simp
qed

lemma crc256_in: "CityHashCrc256 crc s (length s) \<noteq> None"
  using crc256_long_in [of "length s" s crc 0]
    crc256_long_in [of 240 "s @ replicate (240 - length s) 0" crc "not (of_nat (length s))"]
  by (auto simp: CityHashCrc256_def CityHashCrc256Short_def)

text \<open>
  C19: Every hash of the library returns on every string, and reads only inside it: the 32-bit, the
  64-bit, the 128-bit and the CRC hashes, whatever the CRC instruction computes.
\<close>
theorem city_hashes_in_bounds:
  "(\<exists>h. CityHash32 s (length s) = Some h) \<and> (\<exists>h. CityHash64 s (length s) = Some h) \<and>
   (\<exists>h. CityHash128 s (length s) = Some h) \<and> (\<exists>h. CityHash128WithSeed s (length s) seed = Some h) \<and>
   (\<exists>h. CityHashCrc256 crc s (length s) = Some h) \<and> (\<exists>h. CityHashCrc128 crc s (length s) = Some h) \<and>
   (\<exists>h. CityHashCrc128WithSeed crc s (length s) seed = Some h)"
proof -
  have "CityHashCrc128 crc s (length s) \<noteq> None" "CityHashCrc128WithSeed crc s (length s) seed \<noteq> None"
    using crc256_in [of crc s] city128_in [of s] city128_seed_in [of s seed]
    by (auto simp: CityHashCrc128_def CityHashCrc128WithSeed_def Let_def)
  then show ?thesis
    using city32_in [of s] city64_in [of s] city128_in [of s] city128_seed_in [of s seed] crc256_in [of crc s] by blast
qed

end
