(* ===== verification/KV_TaskQueue.thy ===== *)
theory KV_TaskQueue
  imports KV_Tree KV_Key KV_Mem
begin

text \<open>
  The queues between the server threads and the background threads: \<open>struct queue_task\<close> and
  \<open>struct task_queue\<close> of \<open>bufferevent_single/Hikv/obj/threadpool.h\<close> and \<open>threadpool.cc\<close>. One
  \<open>tbb::concurrent_queue\<close> per background thread; it is the list of what was pushed and not yet
  popped, oldest first, which is what that container promises for one producer and one consumer.
  Waiting in a loop for room is \<open>None\<close>: the call does not return in this state.
\<close>

section \<open>Tasks and queues\<close>

definition MAX_BACKEND_THREAD :: nat where "MAX_BACKEND_THREAD = 16"
definition TASK_BTREE_INSERT :: int where "TASK_BTREE_INSERT = 1"
definition TASK_BTREE_DELETE :: int where "TASK_BTREE_DELETE = 2"
definition MAX_QUEUE_SIZE :: nat where "MAX_QUEUE_SIZE = 2 ^ 16"

record queue_task =
  task_type :: int
  task_argv :: "u64 list"

text \<open>The constructor copies all eight arguments, set or not.\<close>

fun copy_argv :: "u64 list \<Rightarrow> nat list \<Rightarrow> u64 list option" where
  "copy_argv argv [] = Some []"
| "copy_argv argv (i # is) = do { a \<leftarrow> rd argv i; as \<leftarrow> copy_argv argv is; Some (a # as) }"

definition queue_task_new :: "int \<Rightarrow> u64 list \<Rightarrow> queue_task option" where
  "queue_task_new ty argv = do { as \<leftarrow> copy_argv argv [0..<8]; Some \<lparr>task_type = ty, task_argv = as\<rparr> }"

record task_queue =
  num_queue :: u64
  num_server_thread :: u64
  num_backend_thread :: u64
  s_tbb_queue :: "queue_task list list"

definition task_queue_new :: "u64 \<Rightarrow> u64 \<Rightarrow> task_queue" where
  "task_queue_new ns nb = \<lparr>num_queue = nb, num_server_thread = ns, num_backend_thread = nb,
     s_tbb_queue = replicate MAX_BACKEND_THREAD []\<rparr>"

text \<open>The numbers of the threads that \<open>init\<close> starts; it stores their handles in an array of 16.\<close>

definition init_queues :: "task_queue \<Rightarrow> nat list option" where
  "init_queues tq = (if unat (num_queue tq) \<le> MAX_BACKEND_THREAD then Some [0..<unat (num_queue tq)] else None)"

definition add_task :: "nat \<Rightarrow> int \<Rightarrow> u64 list \<Rightarrow> task_queue \<Rightarrow> (bool \<times> task_queue) option" where
  "add_task tid ty argv tq =
     do { q \<leftarrow> rd (s_tbb_queue tq) tid;
          if length q < MAX_QUEUE_SIZE
          then do { t \<leftarrow> queue_task_new ty argv;
                    qs \<leftarrow> wr (s_tbb_queue tq) tid (q @ [t]);
                    Some (True, tq\<lparr>s_tbb_queue := qs\<rparr>) }
          else None }"

fun queues_empty :: "queue_task list list \<Rightarrow> nat list \<Rightarrow> bool option" where
  "queues_empty qs [] = Some True"
| "queues_empty qs (i # is) = do { q \<leftarrow> rd qs i; if length q > 0 then Some False else queues_empty qs is }"

definition all_queue_empty :: "task_queue \<Rightarrow> bool option" where
  "all_queue_empty tq = queues_empty (s_tbb_queue tq) [0..<unat (num_queue tq)]"

text \<open>
  One round of a background thread's loop. The key is copied out of the log item the task points
  to before the task's type is looked at. The tree is the one object all tasks point to.
\<close>

definition thread_pool_task_handler ::
  "(nat \<Rightarrow> ptr) \<Rightarrow> nat \<Rightarrow> nvmem \<Rightarrow> task_queue \<Rightarrow> entry_key_t btree \<Rightarrow> (task_queue \<times> entry_key_t btree) option" where
  "thread_pool_task_handler mal tid m tq bt =
     do { q \<leftarrow> rd (s_tbb_queue tq) tid;
          (case q of
             [] \<Rightarrow> Some (tq, bt)
           | t # ts \<Rightarrow>
               do { qs \<leftarrow> wr (s_tbb_queue tq) tid ts;
                    a \<leftarrow> rd (task_argv t) 1;
                    k \<leftarrow> mem_load m a KEY_LENGTH;
                    bt' \<leftarrow> (if task_type t = TASK_BTREE_INSERT then tree_put mal tid (Key k) a bt else Some bt);
                    Some (tq\<lparr>s_tbb_queue := qs\<rparr>, bt') }) }"

section \<open>What they do\<close>

lemma MAX_BACKEND_THREAD_val [access_simps]: "MAX_BACKEND_THREAD = 16"
  by (simp add: MAX_BACKEND_THREAD_def)

lemma copy_argv_in: "\<forall>i \<in> set is. i < length argv \<Longrightarrow> copy_argv argv is = Some (map ((!) argv) is)"
  by (induction "is") (auto simp: access_simps)

lemma queue_task_new_ok: "length argv = 8 \<Longrightarrow> queue_task_new ty argv = Some \<lparr>task_type = ty, task_argv = argv\<rparr>"
  using map_nth [of argv] by (simp add: queue_task_new_def copy_argv_in del: upt_rec_numeral)

lemma add_task_ok:
  assumes "tid < length (s_tbb_queue tq)" "length (s_tbb_queue tq ! tid) < MAX_QUEUE_SIZE" "length argv = 8"
  shows "add_task tid ty argv tq = Some (True,
    tq\<lparr>s_tbb_queue := (s_tbb_queue tq)[tid := s_tbb_queue tq ! tid @ [\<lparr>task_type = ty, task_argv = argv\<rparr>]]\<rparr>)"
  using assms by (simp add: add_task_def access_simps queue_task_new_ok)

lemma queues_empty_iff:
  "\<forall>i \<in> set is. i < length qs \<Longrightarrow> queues_empty qs is = Some (\<forall>i \<in> set is. qs ! i = [])"
  by (induction "is") (auto simp: access_simps)

lemma all_queue_empty_ok:
  assumes "unat (num_queue tq) \<le> length (s_tbb_queue tq)"
  shows "all_queue_empty tq = Some (\<forall>i < unat (num_queue tq). s_tbb_queue tq ! i = [])"
  using queues_empty_iff [of "[0..<unat (num_queue tq)]" "s_tbb_queue tq"] assms
  by (auto simp: all_queue_empty_def)

end
