(* ===== verification/KV_Hikv.thy ===== *)
theory KV_Hikv
  imports KV_TaskQueue KV_Hash KV_Plog
begin

text \<open>
  The store: \<open>struct hikv\<close> of \<open>bufferevent_single/Hikv/obj/hikv.h\<close>. A record lives in the log; the
  hash index maps its key to its offset in the partition, the B+-tree holds its address under its
  key. In the committed configuration (\<open>HIKV_ASYNC\<close>) an insert only queues the tree insert, which
  a background thread makes later; the synchronous variant is the same function with \<open>async\<close>
  false. Neither \<open>PM_USED\<close> nor the persistent indexes are configured.
\<close>

section \<open>State and constructor\<close>

record hikv =
  h_allocator :: pm_alloctor
  h_bt :: "entry_key_t btree"
  h_ht :: hash_table
  h_log :: plog
  h_tq :: "task_queue option"
  h_mem :: nvmem

text \<open>What the memory of the objects held before their constructors ran.\<close>

record raw_memory =
  raw_alloctor :: pm_alloctor
  raw_buckets :: "hash_bucket list list"
  raw_page_count :: "u64 list"
  raw_num_kv :: "u64 list"
  raw_log :: plog

definition hikv_new ::
  "(nat \<Rightarrow> ptr) \<Rightarrow> ptr \<Rightarrow> raw_memory \<Rightarrow> bool \<Rightarrow> u64 \<Rightarrow> u64 \<Rightarrow> u64 \<Rightarrow> u64 \<Rightarrow> nvmem \<Rightarrow> hikv option" where
  "hikv_new mal dest raw async pm_size_arg num_server num_backend num_kv_arg m =
     do { al \<leftarrow> pm_alloctor_new dest (raw_alloctor raw) num_server pm_size_arg;
          let num_partition_arg = num_server;
          if num_partition_arg * of_nat NUM_SLOT = 0 then None
          else do {
            let nb = (num_kv_arg * 4) div (num_partition_arg * of_nat NUM_SLOT);
            (ht, _) \<leftarrow> hash_table_new num_partition_arg nb None (raw_buckets raw);
            bt \<leftarrow> btree_new mal (raw_page_count raw) (raw_num_kv raw);
            (lg, al') \<leftarrow> plog_new (\<lambda>_. 0) (raw_log raw) num_partition_arg num_kv_arg (Some al);
            al'' \<leftarrow> al';
            Some \<lparr>h_allocator = al'', h_bt = bt, h_ht = ht, h_log = lg,
                  h_tq = (if async then Some (task_queue_new num_server num_backend) else None), h_mem = m\<rparr> } }"

section \<open>Operations\<close>

text \<open>
  The arguments of a queued insert: the tree, the address of the item, and six words of the
  caller's stack that were never set (\<open>rest\<close>).
\<close>

definition insert_argv :: "ptr \<Rightarrow> ptr \<Rightarrow> u64 list \<Rightarrow> u64 list" where
  "insert_argv bt_addr a rest = bt_addr # a # rest"

definition hikv_insert ::
  "(nat \<Rightarrow> ptr) \<Rightarrow> ptr \<Rightarrow> u64 list \<Rightarrow> nat \<Rightarrow> ptr \<Rightarrow> ptr \<Rightarrow> hikv \<Rightarrow> (bool \<times> hikv) option" where
  "hikv_insert mal bt_addr rest tid key val s =
     do { (a, lg, m) \<leftarrow> plog_append tid key val (h_log s) (h_mem s);
          k \<leftarrow> mem_load m key KEY_LENGTH;
          st \<leftarrow> rd (plog_partition_start_address lg) tid;
          (res, ht) \<leftarrow> ht_insert tid k (a - st) (h_ht s);
          let s' = s\<lparr>h_log := lg, h_mem := m, h_ht := ht\<rparr>;
          (case h_tq s of
             Some tq \<Rightarrow>
               do { (_, tq') \<leftarrow> add_task tid TASK_BTREE_INSERT (insert_argv bt_addr a rest) tq;
                    Some (res, s'\<lparr>h_tq := Some tq'\<rparr>) }
           | None \<Rightarrow>
               do { bt \<leftarrow> tree_put mal tid (Key k) a (h_bt s); Some (res, s'\<lparr>h_bt := bt\<rparr>) }) }"

text \<open>
  Where a search finds the item: \<open>None\<close> in the inner option is the code's \<open>false\<close>. An address of
  0 from the hash index means "not found", also when 0 is the offset of the first item.
\<close>

definition find_item :: "nat \<Rightarrow> ptr \<Rightarrow> hikv \<Rightarrow> ptr option option" where
  "find_item tid key s =
     do { k \<leftarrow> mem_load (h_mem s) key KEY_LENGTH;
          a \<leftarrow> ht_search tid k (h_ht s);
          if a \<noteq> 0
          then do { st \<leftarrow> rd (plog_partition_start_address (h_log s)) tid;
                    ik \<leftarrow> mem_load (h_mem s) (a + st) KEY_LENGTH;
                    Some (if memcmp ik k = 0 then Some (a + st) else None) }
          else Some None }"

definition hikv_search :: "nat \<Rightarrow> ptr \<Rightarrow> ptr \<Rightarrow> hikv \<Rightarrow> (bool \<times> hikv) option" where
  "hikv_search tid key val s =
     do { r \<leftarrow> find_item tid key s;
          (case r of
             None \<Rightarrow> Some (False, s)
           | Some item \<Rightarrow>
               do { v \<leftarrow> mem_load (h_mem s) (item + of_nat KEY_LENGTH) VALUE_LENGTH;
                    m \<leftarrow> mem_store (h_mem s) val v;
                    Some (True, s\<lparr>h_mem := m\<rparr>) }) }"

text \<open>The bound is checked with 64-bit arithmetic, so it can wrap; a failed assertion aborts.\<close>

definition hikv_search_part :: "nat \<Rightarrow> ptr \<Rightarrow> ptr \<Rightarrow> u64 \<Rightarrow> u64 \<Rightarrow> hikv \<Rightarrow> (bool \<times> hikv) option" where
  "hikv_search_part tid key val off sz s =
     do { r \<leftarrow> find_item tid key s;
          (case r of
             None \<Rightarrow> Some (False, s)
           | Some item \<Rightarrow>
               if off + sz \<le> of_nat VALUE_LENGTH
               then do { v \<leftarrow> mem_load (h_mem s) (item + of_nat KEY_LENGTH + off) (unat sz);
                         m \<leftarrow> mem_store (h_mem s) val v;
                         Some (True, s\<lparr>h_mem := m\<rparr>) }
               else None) }"

text \<open>The loop after the tree's search reads the value of every item found and drops it.\<close>

fun read_items :: "nvmem \<Rightarrow> ptr list \<Rightarrow> unit option" where
  "read_items m [] = Some ()"
| "read_items m (a # as) =
     do { _ \<leftarrow> mem_load m (a + of_nat KEY_LENGTH) VALUE_LENGTH; read_items m as }"

text \<open>The addresses go to the caller's buffer, whose size the function does not know.\<close>

definition range_scan :: "ptr \<Rightarrow> ptr \<Rightarrow> hikv \<Rightarrow> ptr list option" where
  "range_scan lower_key upper_key s =
     do { lo \<leftarrow> mem_load (h_mem s) lower_key KEY_LENGTH;
          hi \<leftarrow> mem_load (h_mem s) upper_key KEY_LENGTH;
          as \<leftarrow> btree_search_range (Key lo) (Key hi) (h_bt s);
          _ \<leftarrow> read_items (h_mem s) as;
          Some as }"

text \<open>One round of background thread \<open>tid\<close>.\<close>

definition background :: "(nat \<Rightarrow> ptr) \<Rightarrow> nat \<Rightarrow> hikv \<Rightarrow> hikv option" where
  "background mal tid s =
     (case h_tq s of
        None \<Rightarrow> Some s
      | Some tq \<Rightarrow> do { (tq', bt) \<leftarrow> thread_pool_task_handler mal tid (h_mem s) tq (h_bt s);
                       Some (s\<lparr>h_tq := Some tq', h_bt := bt\<rparr>) })"

section \<open>Rebuilding the tree from the hash index\<close>

text \<open>The three loops of \<open>bt_restore_by_ht_ptn\<close>: slots of a bucket, buckets of a partition.\<close>

fun restore_slots :: "(nat \<Rightarrow> ptr) \<Rightarrow> nat \<Rightarrow> nvmem \<Rightarrow> ptr \<Rightarrow> hash_bucket \<Rightarrow> nat list \<Rightarrow> entry_key_t btree \<Rightarrow> entry_key_t btree option" where
  "restore_slots mal tid m start bk [] bt = Some bt"
| "restore_slots mal tid m start bk (k # ks) bt =
     do { sg \<leftarrow> rd (signature bk) k;
          bt' \<leftarrow> (if sg \<noteq> 0
                 then do { off \<leftarrow> rd (addr bk) k;
                           let a = off + start;
                           if a \<noteq> 0
                           then do { kb \<leftarrow> mem_load m a KEY_LENGTH; tree_put mal tid (Key kb) a bt }
                           else Some bt }
                 else Some bt);
          restore_slots mal tid m start bk ks bt' }"

fun restore_buckets :: "(nat \<Rightarrow> ptr) \<Rightarrow> nat \<Rightarrow> nvmem \<Rightarrow> ptr \<Rightarrow> hash_bucket list \<Rightarrow> nat list \<Rightarrow> entry_key_t btree \<Rightarrow> entry_key_t btree option" where
  "restore_buckets mal tid m start p [] bt = Some bt"
| "restore_buckets mal tid m start p (j # js) bt =
     do { bk \<leftarrow> rd p j;
          bt' \<leftarrow> restore_slots mal tid m start bk [0..<NUM_SLOT] bt;
          restore_buckets mal tid m start p js bt' }"

definition bt_restore_by_ht_ptn :: "(nat \<Rightarrow> ptr) \<Rightarrow> nat \<Rightarrow> hikv \<Rightarrow> hikv option" where
  "bt_restore_by_ht_ptn mal i s =
     do { p \<leftarrow> rd (partition (h_ht s)) i;
          st \<leftarrow> rd (plog_partition_start_address (h_log s)) i;
          bt \<leftarrow> restore_buckets mal i (h_mem s) st p [0..<nat (num_bucket (h_ht s))] (h_bt s);
          Some (s\<lparr>h_bt := bt\<rparr>) }"

text \<open>One thread per partition, joined before it returns; here they run one after the other.\<close>

fun restore_partitions :: "(nat \<Rightarrow> ptr) \<Rightarrow> nat list \<Rightarrow> hikv \<Rightarrow> hikv option" where
  "restore_partitions mal [] s = Some s"
| "restore_partitions mal (i # is) s = do { s' \<leftarrow> bt_restore_by_ht_ptn mal i s; restore_partitions mal is s' }"

definition bt_restore_by_ht :: "(nat \<Rightarrow> ptr) \<Rightarrow> hikv \<Rightarrow> hikv option" where
  "bt_restore_by_ht mal s = restore_partitions mal [0..<nat (ht_num_partition (h_ht s))] s"

end
