(* ===== verification/KV_Store.thy ===== *)
theory KV_Store
  imports KV_Hikv
begin

text \<open>
  The store as a state machine. Server threads put and get, background threads move queued
  records into the tree, and the rest of the process writes to memory outside the logs; the steps
  interleave in any order. A state is the store together with what has happened to it: per
  partition the puts with their replies, and how many of them a background thread has moved. The
  invariant ties the log, the hash index, the queues and the tree to that history.
\<close>

section \<open>Configuration and history\<close>

text \<open>
  \<open>c_items\<close> is the number of items a partition of the log has room for, \<open>c_keys\<close> the keys in use,
  \<open>c_cap\<close> the number of pages \<open>malloc\<close> can supply.
\<close>

record config =
  c_num :: nat
  c_nb :: int
  c_keys :: "byte list set"
  c_mal :: "nat \<Rightarrow> ptr"
  c_cap :: nat
  c_items :: nat
  c_start :: "nat \<Rightarrow> ptr"

type_synonym history = "nat \<Rightarrow> (bool \<times> byte list \<times> byte list) list"

definition item :: "config \<Rightarrow> nat \<Rightarrow> nat \<Rightarrow> ptr" where
  "item c p i = c_start c p + of_nat (320 * i)"

definition layout :: "config \<Rightarrow> bool" where
  "layout c \<longleftrightarrow> c_num c \<le> 16 \<and>
     (\<forall>p < c_num c. unat (c_start c p) mod 16 = 0 \<and> unat (c_start c p) + 320 * c_items c + 64 \<le> 2 ^ 64) \<and>
     (\<forall>p < c_num c. \<forall>q < c_num c. p \<noteq> q \<longrightarrow> apart (c_start c p) (320 * c_items c) (c_start c q) (320 * c_items c)) \<and>
     (\<forall>p < c_num c. \<forall>i < c_items c. value_addr (c_mal c) (c_cap c) (item c p i))"

text \<open>A buffer of the caller: mapped, and away from the logs.\<close>

definition buffer_ok :: "config \<Rightarrow> nvmem \<Rightarrow> ptr \<Rightarrow> nat \<Rightarrow> bool" where
  "buffer_ok c m a n \<longleftrightarrow> mapped m a n \<and> unat a + n \<le> 2 ^ 64 \<and>
     (\<forall>p < c_num c. apart a n (c_start c p) (320 * c_items c))"

section \<open>The invariant\<close>

definition log_part :: "config \<Rightarrow> history \<Rightarrow> plog \<Rightarrow> bool" where
  "log_part c h lg \<longleftrightarrow> log_ok (c_num c) lg \<and>
     (\<forall>p < c_num c. plog_partition_start_address lg ! p = c_start c p \<and>
        unat (plog_partition_cur_offset lg ! p) = 320 * length (h p) \<and> length (h p) \<le> c_items c)"

definition mem_part :: "config \<Rightarrow> history \<Rightarrow> nvmem \<Rightarrow> bool" where
  "mem_part c h m \<longleftrightarrow> (\<forall>p < c_num c. mapped m (c_start c p) (320 * c_items c) \<and>
     (\<forall>i < length (h p). mem_load m (item c p i) 64 = Some (fst (snd (h p ! i))) \<and>
        mem_load m (item c p i + 64) 256 = Some (snd (snd (h p ! i)))))"

text \<open>The keys and offsets of a partition's puts, and the first accepted put of a key.\<close>

definition offsets :: "(bool \<times> byte list \<times> byte list) list \<Rightarrow> (byte list \<times> u64) list" where
  "offsets hs = map (\<lambda>i. (fst (snd (hs ! i)), of_nat (320 * i))) [0..<length hs]"

definition first_put :: "(bool \<times> byte list \<times> byte list) list \<Rightarrow> byte list \<Rightarrow> nat option" where
  "first_put hs k = find (\<lambda>i. fst (hs ! i) \<and> fst (snd (hs ! i)) = k) [0..<length hs]"

definition hash_part :: "config \<Rightarrow> history \<Rightarrow> hash_table \<Rightarrow> bool" where
  "hash_part c h t \<longleftrightarrow> (\<forall>p < c_num c. table_state (c_nb c) p (c_keys c) t \<and>
     (\<forall>k \<in> c_keys c. table_look (c_nb c) p t k = map_of (accepted (map fst (h p)) (offsets (h p))) k))"

definition queue_part :: "config \<Rightarrow> history \<Rightarrow> (nat \<Rightarrow> nat) \<Rightarrow> task_queue \<Rightarrow> bool" where
  "queue_part c h d tq \<longleftrightarrow> length (s_tbb_queue tq) = 16 \<and>
     (\<forall>p < c_num c. d p \<le> length (h p) \<and> (\<forall>t \<in> set (s_tbb_queue tq ! p). length (task_argv t) = 8) \<and>
        map (\<lambda>t. (task_type t, task_argv t ! 1)) (s_tbb_queue tq ! p)
          = map (\<lambda>i. (TASK_BTREE_INSERT, item c p i)) [d p..<length (h p)])"

definition moved_recs :: "config \<Rightarrow> history \<Rightarrow> (nat \<Rightarrow> nat) \<Rightarrow> nat \<Rightarrow> (entry_key_t \<times> ptr) multiset" where
  "moved_recs c h d p = mset (map (\<lambda>i. (Key (fst (snd (h p ! i))), item c p i)) [0..<d p])"

definition room :: "config \<Rightarrow> (nat \<Rightarrow> nat) \<Rightarrow> nat" where
  "room c d = (\<Sum>p < c_num c. c_items c - d p)"

definition tree_part :: "config \<Rightarrow> history \<Rightarrow> (nat \<Rightarrow> nat) \<Rightarrow> entry_key_t btree \<Rightarrow> bool" where
  "tree_part c h d bt \<longleftrightarrow> (\<forall>p < c_num c. tree_usable (c_mal c) (c_cap c) p (room c d) bt) \<and>
     mset (records_of bt) = (\<Sum>p < c_num c. moved_recs c h d p)"

definition store_ok :: "config \<Rightarrow> hikv \<times> history \<times> (nat \<Rightarrow> nat) \<Rightarrow> bool" where
  "store_ok c = (\<lambda>(s, h, d). layout c \<and> log_part c h (h_log s) \<and> mem_part c h (h_mem s) \<and> hash_part c h (h_ht s) \<and>
     (\<exists>tq. h_tq s = Some tq \<and> queue_part c h d tq) \<and> tree_part c h d (h_bt s))"

section \<open>Memory\<close>

lemma mapped_less: "mapped m a n \<longleftrightarrow> (\<forall>i < n. bytes m (a + of_nat i) \<noteq> None)"
  by (auto simp: mapped_def)

lemma mapped_add: "mapped m a (n + k) \<longleftrightarrow> mapped m a n \<and> mapped m (a + of_nat n) k"
proof -
  have "(\<forall>i < n + k. bytes m (a + of_nat i) \<noteq> None) \<longleftrightarrow>
      (\<forall>i < n. bytes m (a + of_nat i) \<noteq> None) \<and> (\<forall>i < k. bytes m (a + of_nat (n + i)) \<noteq> None)"
    (is "?l \<longleftrightarrow> ?r")
  proof
    assume ?l
    then show ?r by (metis nat_add_left_cancel_less trans_less_add1)
  next
    assume r: ?r
    show ?l
    proof (intro allI impI)
      fix i assume "i < n + k"
      show "bytes m (a + of_nat i) \<noteq> None"
      proof (cases "i < n")
        case False
        then have "i - n < k" "n + (i - n) = i" using \<open>i < n + k\<close> by auto
        then show ?thesis using r by metis
      qed (use r in blast)
    qed
  qed
  then show ?thesis unfolding mapped_less by (simp only: of_nat_add add.assoc)
qed

lemma mapped_load: "mem_load m a n \<noteq> None \<longleftrightarrow> mapped m a n"
  by (simp add: mem_load_def)

lemma unat_item:
  assumes "layout c" "p < c_num c" "i \<le> c_items c"
  shows "unat (item c p i) = unat (c_start c p) + 320 * i"
proof -
  have b: "unat (c_start c p) + 320 * c_items c + 64 \<le> 2 ^ 64" using assms by (simp add: layout_def)
  have "320 * i \<le> 320 * c_items c" using assms(3) by simp
  then show ?thesis unfolding item_def
    by (intro unat_offset [of _ "320 * i + 1"]) (use b in auto)
qed

text \<open>A memory that agrees on the logs keeps the memory part.\<close>

definition same_logs :: "config \<Rightarrow> nvmem \<Rightarrow> nvmem \<Rightarrow> bool" where
  "same_logs c m m' \<longleftrightarrow> (\<forall>p < c_num c. \<forall>x. in_range (c_start c p) (320 * c_items c) x \<longrightarrow> bytes m' x = bytes m x)"

lemma item_bytes:
  assumes "layout c" "p < c_num c" "i < c_items c" "j < 320"
  shows "in_range (c_start c p) (320 * c_items c) (item c p i + of_nat j)"
proof -
  have b: "unat (c_start c p) + 320 * c_items c + 64 \<le> 2 ^ 64" using assms by (simp add: layout_def)
  have le: "320 * i + 320 \<le> 320 * c_items c" using assms(3) by simp
  have u: "unat (item c p i) = unat (c_start c p) + 320 * i" using unat_item assms by simp
  have "unat (item c p i + of_nat j) = unat (item c p i) + j"
    by (rule unat_offset [of _ 320]) (use u le b assms(4) in auto)
  then show ?thesis using u le assms(4) b by (subst in_range_iff) auto
qed

lemma same_logs_mem:
  assumes ly: "layout c" and sl: "same_logs c m m'" and lens: "\<forall>p < c_num c. length (h p) \<le> c_items c" and mp: "mem_part c h m"
  shows "mem_part c h m'"
  unfolding mem_part_def
proof (intro allI impI conjI)
  fix p assume p: "p < c_num c"
  have b: "unat (c_start c p) + 320 * c_items c \<le> 2 ^ 64" using ly p by (auto simp: layout_def)
  show "mapped m' (c_start c p) (320 * c_items c)"
  proof -
    have "mapped m (c_start c p) (320 * c_items c)" using mp p by (simp add: mem_part_def)
    then show ?thesis using sl p unfolding same_logs_def mapped_iff [OF b] by simp
  qed
  fix i assume i: "i < length (h p)"
  then have ii: "i < c_items c" using lens p by (meson order.strict_trans2)
  have same: "bytes m' (item c p i + of_nat j) = bytes m (item c p i + of_nat j)" if "j < 320" for j
    using sl p item_bytes [OF ly p ii that] by (auto simp: same_logs_def)
  have "mem_load m' (item c p i) 64 = mem_load m (item c p i) 64"
    by (rule load_cong(1)) (use same in auto)
  moreover have "mem_load m' (item c p i + 64) 256 = mem_load m (item c p i + 64) 256"
  proof (rule load_cong(1))
    fix j :: nat assume "j < 256"
    then show "bytes m' (item c p i + 64 + of_nat j) = bytes m (item c p i + 64 + of_nat j)"
      using same [of "64 + j"] by (simp add: add.assoc)
  qed
  ultimately show "mem_load m' (item c p i) 64 = Some (fst (snd (h p ! i)))"
      "mem_load m' (item c p i + 64) 256 = Some (snd (snd (h p ! i)))"
    using mp p i by (simp_all add: mem_part_def)
qed

lemma store_same_logs:
  assumes "mem_store m a bs = Some m'" "buffer_ok c m a (length bs)" "layout c"
  shows "same_logs c m m'"
  unfolding same_logs_def
proof (intro allI impI)
  fix p x assume p: "p < c_num c" and x: "in_range (c_start c p) (320 * c_items c) x"
  have b: "unat (c_start c p) + 320 * c_items c \<le> 2 ^ 64" "unat a + length bs \<le> 2 ^ 64"
      "apart a (length bs) (c_start c p) (320 * c_items c)"
    using assms(2,3) p by (auto simp: layout_def buffer_ok_def)
  have "\<not> in_range a (length bs) x"
    using x b(3) unfolding in_range_iff [OF b(1)] in_range_iff [OF b(2)] apart_def by auto
  then show "bytes m' x = bytes m x"
    using assms(1) by (auto simp: mem_store_def write_bytes_def split: if_splits)
qed

section \<open>Histories\<close>

lemma offsets_snoc: "offsets (hs @ [x]) = offsets hs @ [(fst (snd x), of_nat (320 * length hs))]"
  by (simp add: offsets_def nth_append)

lemma length_offsets [simp]: "length (offsets hs) = length hs"
  by (simp add: offsets_def)

lemma accepted_append:
  "length fs = length xs \<Longrightarrow> accepted (fs @ gs) (xs @ ys) = accepted fs xs @ accepted gs ys"
  by (simp add: accepted_def)

lemma find_last: "find P (xs @ [x]) = (case find P xs of Some y \<Rightarrow> Some y | None \<Rightarrow> if P x then Some x else None)"
  by (induction xs) auto

lemma first_put_snoc:
  "first_put (hs @ [x]) k = (case first_put hs k of Some i \<Rightarrow> Some i
     | None \<Rightarrow> if fst x \<and> fst (snd x) = k then Some (length hs) else None)"
proof -
  have "find (\<lambda>i. fst ((hs @ [x]) ! i) \<and> fst (snd ((hs @ [x]) ! i)) = k) [0..<length hs] = first_put hs k"
    unfolding first_put_def by (rule find_cong_set) (simp add: nth_append)
  moreover have "first_put (hs @ [x]) k = (case find (\<lambda>i. fst ((hs @ [x]) ! i) \<and> fst (snd ((hs @ [x]) ! i)) = k) [0..<length hs] of
      Some i \<Rightarrow> Some i | None \<Rightarrow> if fst x \<and> fst (snd x) = k then Some (length hs) else None)"
    unfolding first_put_def
    by (auto simp: find_last simp del: upt_Suc simp add: upt_Suc_append split: option.split)
  ultimately show ?thesis by simp
qed

lemma accepted_offsets:
  "map_of (accepted (map fst hs) (offsets hs)) k = map_option (\<lambda>i. of_nat (320 * i)) (first_put hs k)"
proof (induction hs rule: rev_induct)
  case Nil
  then show ?case by (simp add: accepted_def offsets_def first_put_def)
next
  case (snoc x hs)
  then show ?case
    by (cases "fst x") (auto simp: offsets_snoc accepted_append first_put_snoc accepted_def map_add_def split: option.splits)
qed

lemma first_putD:
  "first_put hs k = Some i \<Longrightarrow> i < length hs \<and> fst (hs ! i) \<and> fst (snd (hs ! i)) = k"
  by (auto simp: first_put_def find_Some_iff)

end
