(* ===== verification/KV_StoreRun.thy ===== *)
theory KV_StoreRun
  imports KV_StoreStep
begin

text \<open>
  The remaining steps (a background round, a get, a write outside the logs), the step relation
  and its reachable states, and what a get and a scan return there.
\<close>

section \<open>A background round\<close>

lemma sum_bump:
  fixes f :: "nat \<Rightarrow> 'a::comm_monoid_add"
  assumes "p < n" "\<And>q. q < n \<Longrightarrow> g q = (if q = p then f q + x else f q)"
  shows "(\<Sum>q < n. g q) = (\<Sum>q < n. f q) + x"
proof -
  have "(\<Sum>q < n. g q) = (\<Sum>q < n. f q + (if q = p then x else 0))"
    by (rule sum.cong) (use assms(2) in auto)
  also have "\<dots> = (\<Sum>q < n. f q) + (\<Sum>q < n. if q = p then x else 0)" by (rule sum.distrib)
  finally show ?thesis using assms(1) by simp
qed

lemma room_bump:
  assumes "p < c_num c" "d p < c_items c"
  shows "room c d = Suc (room c (d(p := d p + 1)))"
proof -
  have "room c d = room c (d(p := d p + 1)) + 1"
    unfolding room_def by (rule sum_bump [OF assms(1)]) (use assms in auto)
  then show ?thesis by simp
qed

lemma moved_set: "set_mset (\<Sum>q < n. moved_recs c h d q) = (\<Union>q < n. (\<lambda>i. (Key (fst (snd (h q ! i))), item c q i)) ` {..<d q})"
proof (induction n)
  case (Suc n)
  then show ?case by (auto simp: moved_recs_def lessThan_Suc)
qed simp

lemma item_inj:
  assumes "layout c" "p < c_num c" "q < c_num c" "i < c_items c" "n < c_items c" "item c q i = item c p n"
  shows "q = p \<and> i = n"
proof (rule ccontr)
  assume "\<not> (q = p \<and> i = n)"
  then have "apart (item c q i) 320 (item c p n) 320" using apart_items [OF assms(1-5)] by blast
  then show False using assms(6) by (simp add: apart_def)
qed

lemma usable_other:
  assumes "tree_usable mal cap p n b" "q < length (page_count b)" "q < length (num_kv b)"
  shows "tree_usable mal cap q n b"
  using assms by (simp add: tree_usable_def)

lemma tree_drain:
  assumes ly: "layout c" and tp: "tree_part c h d bt" and p: "p < c_num c" and dl: "\<forall>q < c_num c. d q \<le> length (h q) \<and> length (h q) \<le> c_items c"
    and i: "d p < length (h p)"
  obtains bt' where "tree_put (c_mal c) p (Key (fst (snd (h p ! d p)))) (item c p (d p)) bt = Some bt'"
    "tree_part c h (d(p := d p + 1)) bt'"
proof -
  let ?a = "item c p (d p)" and ?k = "Key (fst (snd (h p ! d p)))" and ?d = "d(p := d p + 1)"
  have ii: "d p < c_items c" using dl p i by (meson order.strict_trans2)
  have nz: "?a \<noteq> 0" using ly p ii by (simp add: layout_def value_addr_def)
  have rec: "mset (records_of bt) = (\<Sum>q < c_num c. moved_recs c h d q)" using tp by (simp add: tree_part_def)
  have "?a \<notin> snd ` set (records_of bt)"
  proof
    assume "?a \<in> snd ` set (records_of bt)"
    then obtain k where "(k, ?a) \<in> set (records_of bt)" by auto
    then have "(k, ?a) \<in> set_mset (\<Sum>q < c_num c. moved_recs c h d q)" unfolding rec [symmetric] by simp
    then obtain q j where q: "q < c_num c" "j < d q" "?a = item c q j" unfolding moved_set by auto
    have "j < c_items c" using dl q by (meson order.strict_trans2)
    then have "q = p \<and> j = d p" by (rule item_inj [OF ly p q(1) _ ii q(3) [symmetric]])
    then show False using q(2) by simp
  qed
  moreover have us: "tree_usable (c_mal c) (c_cap c) q (Suc (room c ?d)) bt" if "q < c_num c" for q
    using tp that room_bump [of p c d, OF p ii] unfolding tree_part_def by metis
  ultimately obtain bt' where bt': "tree_put (c_mal c) p ?k ?a bt = Some bt'" "tree_usable (c_mal c) (c_cap c) p (room c ?d) bt'"
    "records_of bt' = ins_after ?k ?a (records_of bt)" "length (page_count bt') = length (page_count bt)"
    "length (num_kv bt') = length (num_kv bt)"
    using usable_put [OF us [OF p] nz] by metis
  have "tree_usable (c_mal c) (c_cap c) q (room c ?d) bt'" if "q < c_num c" for q
  proof (rule usable_other [OF bt'(2)])
    show "q < length (page_count bt')" "q < length (num_kv bt')"
      using us [OF that] bt'(4,5) by (simp_all add: tree_usable_def)
  qed
  moreover have "mset (records_of bt') = (\<Sum>q < c_num c. moved_recs c h ?d q)"
  proof -
    have "(\<Sum>q < c_num c. moved_recs c h ?d q) = (\<Sum>q < c_num c. moved_recs c h d q) + {#(?k, ?a)#}"
      by (rule sum_bump [OF p]) (simp add: moved_recs_def del: mset_map mset_upt)
    then show ?thesis using bt'(3) rec by (simp add: mset_ins_after)
  qed
  ultimately show ?thesis using that bt'(1) by (simp add: tree_part_def)
qed

lemma background_ok:
  assumes ok: "store_ok c (s, h, d)" and p: "p < c_num c" and i: "d p < length (h p)"
  shows "\<exists>s'. background (c_mal c) p s = Some s' \<and> store_ok c (s', h, d(p := d p + 1))"
proof -
  obtain tq where S: "layout c" "log_part c h (h_log s)" "mem_part c h (h_mem s)" "hash_part c h (h_ht s)"
    "h_tq s = Some tq" "queue_part c h d tq" "tree_part c h d (h_bt s)"
    using ok by (auto simp: store_ok_def)
  let ?q = "s_tbb_queue tq ! p"
  have dl: "\<forall>q < c_num c. d q \<le> length (h q) \<and> length (h q) \<le> c_items c"
    using S(2,6) by (auto simp: log_part_def queue_part_def)
  have p16: "p < 16" using S(1) p by (simp add: layout_def)
  have q: "length (s_tbb_queue tq) = 16" "\<forall>t \<in> set ?q. length (task_argv t) = 8"
    "map (\<lambda>t. (task_type t, task_argv t ! 1)) ?q = map (\<lambda>i. (TASK_BTREE_INSERT, item c p i)) [d p..<length (h p)]"
    using S(6) p by (auto simp: queue_part_def)
  have upt: "[d p..<length (h p)] = d p # [Suc (d p)..<length (h p)]" using i by (rule upt_conv_Cons)
  then obtain t ts where t: "?q = t # ts" "task_type t = TASK_BTREE_INSERT" "task_argv t ! 1 = item c p (d p)"
    "map (\<lambda>t. (task_type t, task_argv t ! 1)) ts = map (\<lambda>i. (TASK_BTREE_INSERT, item c p i)) [Suc (d p)..<length (h p)]"
    using q(3) by auto
  have ld: "mem_load (h_mem s) (item c p (d p)) KEY_LENGTH = Some (fst (snd (h p ! d p)))"
    using S(3) p i by (simp add: mem_part_def access_simps)
  obtain bt' where bt': "tree_put (c_mal c) p (Key (fst (snd (h p ! d p)))) (item c p (d p)) (h_bt s) = Some bt'"
    "tree_part c h (d(p := d p + 1)) bt'" by (rule tree_drain [OF S(1,7) p dl i])
  let ?tq = "tq\<lparr>s_tbb_queue := (s_tbb_queue tq)[p := ts]\<rparr>"
  have "background (c_mal c) p s = Some (s\<lparr>h_tq := Some ?tq, h_bt := bt'\<rparr>)"
    using S(5) q t ld bt'(1) p16
    by (simp add: background_def thread_pool_task_handler_def access_simps [simplified] rd_def wr_def)
  moreover have "queue_part c h (d(p := d p + 1)) ?tq"
    using S(6) q t p16 i unfolding queue_part_def by (auto simp: nth_list_update)
  ultimately show ?thesis using S bt'(2) by (intro exI conjI) (auto simp: store_ok_def)
qed

section \<open>A get\<close>

lemma write_ok:
  assumes "store_ok c (s, h, d)" "same_logs c (h_mem s) m'"
  shows "store_ok c (s\<lparr>h_mem := m'\<rparr>, h, d)"
  using assms same_logs_mem [of c "h_mem s" m' h] by (auto simp: store_ok_def log_part_def)

lemma find_item_ok:
  assumes ok: "store_ok c (s, h, d)" and p: "p < c_num c" and ld: "mem_load (h_mem s) key 64 = Some kb" and k: "kb \<in> c_keys c"
  shows "find_item p key s = Some (case first_put (h p) kb of None \<Rightarrow> None | Some i \<Rightarrow> if i = 0 then None else Some (item c p i))"
proof -
  have S: "layout c" "log_part c h (h_log s)" "mem_part c h (h_mem s)" "hash_part c h (h_ht s)"
    using ok by (auto simp: store_ok_def)
  have st: "table_state (c_nb c) p (c_keys c) (h_ht s)"
    "table_look (c_nb c) p (h_ht s) kb = map_option (\<lambda>i. of_nat (320 * i)) (first_put (h p) kb)"
    using S(4) p k by (auto simp: hash_part_def accepted_offsets)
  have hs: "ht_search p kb (h_ht s) = Some (case first_put (h p) kb of None \<Rightarrow> 0 | Some i \<Rightarrow> of_nat (320 * i))"
    using table_search [OF st(1) k] st(2) by (simp split: option.splits)
  have lg: "p < length (plog_partition_start_address (h_log s))" "plog_partition_start_address (h_log s) ! p = c_start c p"
    "length (h p) \<le> c_items c" using S(2) p by (auto simp: log_part_def log_ok_def)
  show ?thesis
  proof (cases "first_put (h p) kb")
    case None
    then show ?thesis using hs ld by (simp add: find_item_def access_simps)
  next
    case (Some i)
    note fp = first_putD [OF Some]
    have i: "i < c_items c" using fp lg(3) by simp
    have b: "unat (c_start c p) + 320 * c_items c + 64 \<le> 2 ^ 64" using S(1) p by (simp add: layout_def)
    have "320 * i < 2 ^ 64" using b i by linarith
    then have "unat (of_nat (320 * i) :: u64) = 320 * i" by (simp add: unat_of_nat take_bit_nat_eq_self del: of_nat_mult)
    then have z: "(of_nat (320 * i) :: u64) = 0 \<longleftrightarrow> i = 0"
      by (metis mult_eq_0_iff unat_0 unat_eq_zero zero_neq_numeral)
    have it: "of_nat (320 * i) + c_start c p = item c p i" by (simp add: item_def)
    have "mem_load (h_mem s) (item c p i) 64 = Some kb" using S(3) p fp by (simp add: mem_part_def)
    then show ?thesis
      using hs ld lg z Some it by (auto simp: find_item_def access_simps simp del: of_nat_mult)
  qed
qed

lemma get_ok:
  assumes ok: "store_ok c (s, h, d)" and p: "p < c_num c" and ld: "mem_load (h_mem s) key 64 = Some kb" and k: "kb \<in> c_keys c"
    and buf: "buffer_ok c (h_mem s) val 256"
  shows "\<exists>found s'. hikv_search p key val s = Some (found, s') \<and> store_ok c (s', h, d) \<and>
    (case first_put (h p) kb of
       None \<Rightarrow> \<not> found \<and> s' = s
     | Some i \<Rightarrow> if i = 0 then \<not> found \<and> s' = s else found \<and> mem_load (h_mem s') val 256 = Some (snd (snd (h p ! i))))"
proof -
  note fi = find_item_ok [OF ok p ld k]
  have none: ?thesis if "find_item p key s = Some None"
    "case first_put (h p) kb of None \<Rightarrow> True | Some i \<Rightarrow> i = 0"
    using that ok by (auto simp: hikv_search_def split: option.splits)
  show ?thesis
  proof (cases "first_put (h p) kb")
    case None
    then show ?thesis using none fi by simp
  next
    case (Some i)
    show ?thesis
    proof (cases "i = 0")
      case True
      then show ?thesis using none fi Some by simp
    next
      case False
      have S: "layout c" "mem_part c h (h_mem s)" using ok by (auto simp: store_ok_def)
      have v: "mem_load (h_mem s) (item c p i + 64) 256 = Some (snd (snd (h p ! i)))"
        using S(2) p first_putD [OF Some] by (simp add: mem_part_def)
      then have len: "length (snd (snd (h p ! i))) = 256" by (rule length_load)
      obtain m' where m': "mem_store (h_mem s) val (snd (snd (h p ! i))) = Some m'"
        using buf len by (simp add: buffer_ok_def mem_store_def)
      have nw: "unat val + 256 \<le> 2 ^ 64" using buf by (simp add: buffer_ok_def)
      have "mem_load m' val 256 = Some (snd (snd (h p ! i)))"
      proof -
        have bts: "bytes m' (val + of_nat j) = Some (snd (snd (h p ! i)) ! j)" if "j < 256" for j
        proof -
          have "unat (val + of_nat j) = unat val + j" by (rule unat_offset [OF nw that])
          moreover have "unat ((val + of_nat j) - val) = j"
            using that by (simp add: unat_of_nat take_bit_nat_eq_self)
          ultimately show ?thesis using m' len that
            by (auto simp: mem_store_def write_bytes_def in_range_def split: if_splits)
        qed
        then have "mapped m' val 256" by (simp add: mapped_less)
        then show ?thesis using len by (simp add: mem_load_def list_eq_iff_nth_eq bts)
      qed
      moreover have "same_logs c (h_mem s) m'"
        by (rule store_same_logs [OF m' _ S(1)]) (use buf len in simp)
      ultimately show ?thesis
        using fi Some False v m' write_ok [OF ok, of m']
        by (auto simp: hikv_search_def access_simps)
    qed
  qed
qed

section \<open>Steps and reachable states\<close>

inductive kv_step :: "config \<Rightarrow> hikv \<times> history \<times> (nat \<Rightarrow> nat) \<Rightarrow> hikv \<times> history \<times> (nat \<Rightarrow> nat) \<Rightarrow> bool"
  for c :: config where
  put: "p < c_num c \<Longrightarrow> length (h p) < c_items c \<Longrightarrow>
     buffer_ok c (h_mem s) key 64 \<Longrightarrow> buffer_ok c (h_mem s) val 256 \<Longrightarrow>
     mem_load (h_mem s) key 64 = Some kb \<Longrightarrow> mem_load (h_mem s) val 256 = Some vb \<Longrightarrow> kb \<in> c_keys c \<Longrightarrow>
     length (h p) - d p < MAX_QUEUE_SIZE \<Longrightarrow> length rest = 6 \<Longrightarrow>
     hikv_insert (c_mal c) bt_addr rest p key val s = Some (res, s') \<Longrightarrow>
     kv_step c (s, h, d) (s', h(p := h p @ [(res, kb, vb)]), d)"
| get: "p < c_num c \<Longrightarrow> mem_load (h_mem s) key 64 = Some kb \<Longrightarrow> kb \<in> c_keys c \<Longrightarrow>
     buffer_ok c (h_mem s) val 256 \<Longrightarrow> hikv_search p key val s = Some (found, s') \<Longrightarrow>
     kv_step c (s, h, d) (s', h, d)"
| move: "p < c_num c \<Longrightarrow> d p < length (h p) \<Longrightarrow> background (c_mal c) p s = Some s' \<Longrightarrow>
     kv_step c (s, h, d) (s', h, d(p := d p + 1))"
| other_write: "same_logs c (h_mem s) m' \<Longrightarrow> kv_step c (s, h, d) (s\<lparr>h_mem := m'\<rparr>, h, d)"

inductive_cases kv_stepE: "kv_step c x y"

lemma kv_step_ok:
  assumes "kv_step c x y" "store_ok c x"
  shows "store_ok c y"
  using assms
proof (induction rule: kv_step.induct)
  case (put p h s key val kb vb d rest bt_addr res s')
  then show ?case using put_ok [OF put.prems put.hyps(1-9), of "c_mal c" bt_addr] by auto
next
  case (get p s key kb val found s' h d)
  then show ?case using get_ok [OF get.prems get.hyps(1-4)] by simp
next
  case (move p d h s s')
  then show ?case using background_ok [OF move.prems move.hyps(1,2)] by simp
next
  case (other_write s m' h d)
  then show ?case using write_ok by blast
qed

lemma kv_reachable_ok:
  assumes "(kv_step c)\<^sup>*\<^sup>* x y" "store_ok c x"
  shows "store_ok c y"
  using assms by (induction rule: rtranclp_induct) (auto intro: kv_step_ok)

section \<open>Scans\<close>

lemma read_items_ok: "\<forall>a \<in> set as. mapped m (a + 64) 256 \<Longrightarrow> read_items m as = Some ()"
  by (induction as) (auto simp: access_simps mem_load_def)

lemma records_places:
  assumes ok: "store_ok c (s, h, d)" and e: "e \<in> set (records_of (h_bt s))"
  obtains p i where "p < c_num c" "i < d p" "i < length (h p)" "e = (Key (fst (snd (h p ! i))), item c p i)"
proof -
  have "mset (records_of (h_bt s)) = (\<Sum>q < c_num c. moved_recs c h d q)"
    using ok by (simp add: store_ok_def tree_part_def)
  then have "e \<in> set_mset (\<Sum>q < c_num c. moved_recs c h d q)" using e by (metis set_mset_mset)
  then obtain p i where pi: "p < c_num c" "i < d p" "e = (Key (fst (snd (h p ! i))), item c p i)"
    unfolding moved_set by auto
  moreover have "d p \<le> length (h p)" using ok pi(1) by (auto simp: store_ok_def queue_part_def)
  ultimately show ?thesis using that by simp
qed

lemma scan_ok:
  assumes ok: "store_ok c (s, h, d)" and n: "0 < c_num c"
    and ld: "mem_load (h_mem s) lower 64 = Some lo" "mem_load (h_mem s) upper 64 = Some hi"
  shows "range_scan lower upper s = Some (between (Key lo) (Key hi) (records_of (h_bt s)))"
proof -
  have t: "tree_ok (h_bt s)" using ok n by (auto simp: store_ok_def tree_part_def tree_usable_def)
  have "mapped (h_mem s) (a + 64) 256" if "a \<in> set (between (Key lo) (Key hi) (records_of (h_bt s)))" for a
  proof -
    have "a \<in> snd ` set (records_of (h_bt s))" using that by (auto simp: between_def)
    then obtain e where "e \<in> set (records_of (h_bt s))" "a = snd e" by blast
    then obtain p i where "p < c_num c" "i < length (h p)" "a = item c p i"
      using records_places [OF ok] by (metis snd_conv)
    then have "mem_load (h_mem s) (a + 64) 256 \<noteq> None" using ok by (simp add: store_ok_def mem_part_def)
    then show ?thesis unfolding mapped_load .
  qed
  then have "read_items (h_mem s) (between (Key lo) (Key hi) (records_of (h_bt s))) = Some ()"
    by (intro read_items_ok) blast
  then show ?thesis
    using ld btree_search_range_ok [OF t, of "Key lo" "Key hi"] by (simp add: range_scan_def access_simps)
qed

end
