(* ===== verification/KV_HikvNew.thy ===== *)
theory KV_HikvNew
  imports KV_StoreRun KV_TreeFacts
begin

text \<open>
  The constructor of the store: from a pool large enough for the logs, it builds a state that
  satisfies the invariant with an empty history.
\<close>

section \<open>The log's constructor\<close>

definition fresh_alloc :: "nat \<Rightarrow> nat \<Rightarrow> nat \<Rightarrow> nat \<Rightarrow> pm_alloctor \<Rightarrow> bool" where
  "fresh_alloc base p num i a \<longleftrightarrow> alloc_inv base p num a \<and> (\<forall>j. i \<le> j \<and> j < num \<longrightarrow> partition_cur_offset a ! j = 0)"

lemma plog_init_ok:
  assumes "fresh_alloc base p num i a" "i + k = num" "unat ps \<le> p"
    and "length (plog_partition_start_address lg) = 32" "length (plog_partition_cur_offset lg) = 32" "length (plog_partition_size lg) = 32"
  shows "\<exists>lg' a'. plog_init mal ps i k (Some a) lg = Some (lg', Some a') \<and>
     length (plog_partition_start_address lg') = 32 \<and> length (plog_partition_cur_offset lg') = 32 \<and> length (plog_partition_size lg') = 32 \<and>
     (\<forall>j < num. plog_partition_start_address lg' ! j
          = (if i \<le> j then align16 (partition_start_address a ! j) else plog_partition_start_address lg ! j) \<and>
        plog_partition_cur_offset lg' ! j = (if i \<le> j then 0 else plog_partition_cur_offset lg ! j))"
  using assms
proof (induction k arbitrary: i a lg)
  case 0
  then show ?case by auto
next
  case (Suc k)
  have inv: "alloc_inv base p num a" and z: "partition_cur_offset a ! i = 0" and i: "i < num"
    using Suc.prems by (auto simp: fresh_alloc_def)
  have i32: "i < 32" and p63: "p < 2 ^ 63" and lc: "length (partition_cur_offset a) = 32"
    using inv i by (auto simp: alloc_inv_def)
  have "unat ps < 2 ^ 63" using Suc.prems(3) p63 by (rule order.strict_trans1)
  then have al: "alloc i ps a = Some (partition_start_address a ! i, a\<lparr>partition_cur_offset := (partition_cur_offset a)[i := ps]\<rparr>)"
    using alloc_ok [OF inv i, of ps] Suc.prems(3) z by simp
  let ?a = "a\<lparr>partition_cur_offset := (partition_cur_offset a)[i := ps]\<rparr>"
  let ?lg = "lg\<lparr>plog_partition_start_address := (plog_partition_start_address lg)[i := align16 (partition_start_address a ! i)],
     plog_partition_cur_offset := (plog_partition_cur_offset lg)[i := 0], plog_partition_size := (plog_partition_size lg)[i := ps]\<rparr>"
  have "fresh_alloc base p num (i + 1) ?a"
    using Suc.prems(1,3) i i32 by (auto simp: fresh_alloc_def alloc_inv_def nth_list_update)
  then obtain lg' a' where R: "plog_init mal ps (i + 1) k (Some ?a) ?lg = Some (lg', Some a')"
     "length (plog_partition_start_address lg') = 32" "length (plog_partition_cur_offset lg') = 32" "length (plog_partition_size lg') = 32"
     "\<And>j. j < num \<Longrightarrow> plog_partition_start_address lg' ! j
          = (if i + 1 \<le> j then align16 (partition_start_address ?a ! j) else plog_partition_start_address ?lg ! j) \<and>
        plog_partition_cur_offset lg' ! j = (if i + 1 \<le> j then 0 else plog_partition_cur_offset ?lg ! j)"
    using Suc.IH [of "i + 1" ?a ?lg] Suc.prems by auto
  have "plog_init mal ps i (Suc k) (Some a) lg = Some (lg', Some a')"
    using R(1) al i32 Suc.prems(4-6) by (simp add: access_simps)
  moreover have "plog_partition_start_address lg' ! j
          = (if i \<le> j then align16 (partition_start_address a ! j) else plog_partition_start_address lg ! j) \<and>
        plog_partition_cur_offset lg' ! j = (if i \<le> j then 0 else plog_partition_cur_offset lg ! j)" if "j < num" for j
    using R(5) [OF that] i32 Suc.prems(4-6) by (cases "j = i") auto
  ultimately show ?case using R(2-4) by blast
qed

section \<open>The store's constructor\<close>

text \<open>The bytes of log a partition gets for \<open>n\<close> records over \<open>num\<close> partitions.\<close>

definition log_bytes :: "u64 \<Rightarrow> u64 \<Rightarrow> u64" where
  "log_bytes num n = n div num * of_nat sizeof_kv_item * 3 div 2"

definition new_config :: "(nat \<Rightarrow> ptr) \<Rightarrow> nat \<Rightarrow> nat \<Rightarrow> byte list set \<Rightarrow> ptr \<Rightarrow> u64 \<Rightarrow> u64 \<Rightarrow> u64 \<Rightarrow> config" where
  "new_config mal cap items K dest sz num n =
     \<lparr>c_num = unat num, c_nb = uint (n * 4 div (num * 4)), c_keys = K, c_mal = mal, c_cap = cap, c_items = items,
      c_start = (\<lambda>p. align16 (dest + of_nat (p * (unat sz div unat num))))\<rparr>"

definition raw_ok :: "raw_memory \<Rightarrow> bool" where
  "raw_ok raw \<longleftrightarrow>
     length (partition_start_address (raw_alloctor raw)) = 32 \<and> length (partition_end_address (raw_alloctor raw)) = 32 \<and>
     length (partition_size (raw_alloctor raw)) = 32 \<and> length (partition_cur_offset (raw_alloctor raw)) = 32 \<and>
     length (raw_buckets raw) = 32 \<and> length (raw_page_count raw) = 32 \<and> length (raw_num_kv raw) = 32 \<and>
     length (plog_partition_start_address (raw_log raw)) = 32 \<and> length (plog_partition_cur_offset (raw_log raw)) = 32 \<and>
     length (plog_partition_size (raw_log raw)) = 32"

text \<open>
  What the constructor needs: a pool of \<open>sz\<close> bytes at \<open>dest\<close>, 1 to 16 partitions, room in each
  for \<open>items\<close> items after rounding the start up, at least one hash bucket, page addresses for the
  tree that are different, not null and not in the logs.
\<close>

definition new_pre :: "(nat \<Rightarrow> ptr) \<Rightarrow> nat \<Rightarrow> nat \<Rightarrow> byte list set \<Rightarrow> ptr \<Rightarrow> u64 \<Rightarrow> u64 \<Rightarrow> u64 \<Rightarrow> raw_memory \<Rightarrow> nvmem \<Rightarrow> bool" where
  "new_pre mal cap items K dest sz num n raw m \<longleftrightarrow>
     raw_ok raw \<and> dest \<noteq> 0 \<and> 0 < unat num \<and> unat num \<le> 16 \<and> unat dest + unat sz + 64 \<le> 2 ^ 63 \<and>
     unat (log_bytes num n) \<le> unat sz div unat num \<and> 320 * items + 16 \<le> unat (log_bytes num n) \<and>
     0 < unat (n * 4 div (num * 4)) \<and> unat (n * 4 div (num * 4)) < 2 ^ 31 \<and> told_apart K \<and>
     inj_on mal {..<cap} \<and> (\<forall>i < cap. mal i \<noteq> 0) \<and> 1 + unat num * items * (unat num * items + 2) \<le> cap \<and>
     unat num * items + 1 < 2 ^ 32 \<and> mapped m dest (unat sz) \<and>
     (\<forall>i < cap. \<not> in_range dest (unat sz) (mal i))"

lemma new_starts:
  assumes "new_pre mal cap items K dest sz num n raw m" "p < unat num"
  defines "c \<equiv> new_config mal cap items K dest sz num n" and "q \<equiv> unat sz div unat num"
  shows "unat (dest + of_nat (p * q)) = unat dest + p * q" "unat (c_start c p) mod 16 = 0"
    "unat dest + p * q \<le> unat (c_start c p)" "unat (c_start c p) + 320 * items \<le> unat dest + p * q + q"
    "unat dest + p * q + q \<le> unat dest + unat sz"
proof -
  have P: "unat dest + unat sz + 64 \<le> 2 ^ 63" "320 * items + 16 \<le> q" "0 < unat num"
    using assms(1) unfolding new_pre_def q_def by auto
  have "unat num * q \<le> unat sz" unfolding q_def by simp
  then show top: "unat dest + p * q + q \<le> unat dest + unat sz"
    using partition_bound [OF assms(2), of "unat dest" q] by linarith
  show u: "unat (dest + of_nat (p * q)) = unat dest + p * q"
    by (rule unat_offset [of dest "unat sz + 1"]) (use top P in auto)
  have b: "unat (dest + of_nat (p * q)) + 16 \<le> 2 ^ 63" unfolding u using top P(1) by linarith
  note al = align16_ok [OF b]
  have cs: "c_start c p = align16 (dest + of_nat (p * q))" by (simp add: c_def new_config_def q_def)
  show "unat (c_start c p) mod 16 = 0" unfolding cs by (rule al(1))
  show "unat dest + p * q \<le> unat (c_start c p)" "unat (c_start c p) + 320 * items \<le> unat dest + p * q + q"
    unfolding cs using al(2,3) P(2) unfolding u by linarith+
qed

lemma new_layout:
  assumes pre: "new_pre mal cap items K dest sz num n raw m"
  shows "layout (new_config mal cap items K dest sz num n)"
proof -
  let ?c = "new_config mal cap items K dest sz num n" and ?q = "unat sz div unat num"
  have P: "unat num \<le> 16" "unat dest + unat sz + 64 \<le> 2 ^ 63" "dest \<noteq> 0" "\<forall>i < cap. \<not> in_range dest (unat sz) (mal i)"
    using pre by (auto simp: new_pre_def)
  note S = new_starts [OF pre]
  have pw: "(2 :: nat) ^ 63 \<le> 2 ^ 64" by simp
  have sel: "c_num ?c = unat num" "c_items ?c = items" "c_mal ?c = mal" "c_cap ?c = cap" by (simp_all add: new_config_def)
  have bd: "unat (c_start ?c p) + 320 * items + 64 \<le> 2 ^ 64" if "p < unat num" for p
    using S(4,5) [OF that] P(2) pw by linarith
  have ap: "apart (c_start ?c p) (320 * items) (c_start ?c r) (320 * items)" if pr: "p < unat num" "r < unat num" "p \<noteq> r" for p r
  proof -
    have step: "unat dest + x * ?q + ?q \<le> unat dest + y * ?q" if "x < y" for x y
      using partition_bound [OF that, of "unat dest" ?q] .
    consider "p < r" | "r < p" using pr(3) by linarith
    then show ?thesis
    proof cases
      case 1
      then show ?thesis using step [OF 1] S(4) [OF pr(1)] S(3) [OF pr(2)] unfolding apart_def by linarith
    next
      case 2
      then show ?thesis using step [OF 2] S(4) [OF pr(2)] S(3) [OF pr(1)] unfolding apart_def by linarith
    qed
  qed
  have va: "value_addr mal cap (item ?c p i)" if "p < unat num" "i < items" for p i
  proof -
    have le: "320 * i + 320 \<le> 320 * items" using that(2) by simp
    have u: "unat (item ?c p i) = unat (c_start ?c p) + 320 * i"
      unfolding item_def by (rule unat_offset [of _ "320 * items"]) (use bd [OF that(1)] le in auto)
    have dn: "unat dest + unat sz \<le> 2 ^ 64" using P(2) pw by linarith
    have "in_range dest (unat sz) (item ?c p i)"
      unfolding in_range_iff [OF dn] u using S(3-5) [OF that(1)] le by linarith
    moreover have "unat (item ?c p i) \<noteq> 0"
    proof -
      have "0 < unat dest" using P(3) by (simp add: unat_gt_0)
      then show ?thesis unfolding u using S(3) [OF that(1)] by linarith
    qed
    ultimately show ?thesis using P(4) by (auto simp: value_addr_def)
  qed
  show ?thesis
    unfolding layout_def sel using P(1) S(2) bd ap va by blast
qed

lemma plog_new_ok:
  assumes pre: "new_pre mal cap items K dest sz num n raw m" and inv: "fresh_alloc (unat dest) (unat sz div unat num) (unat num) 0 a"
  shows "\<exists>lg a'. plog_new ml (raw_log raw) num n (Some a) = Some (lg, Some a') \<and>
     log_part (new_config mal cap items K dest sz num n) (\<lambda>_. []) lg"
proof -
  let ?c = "new_config mal cap items K dest sz num n" and ?q = "unat sz div unat num"
  have P: "unat num \<le> 16" "0 < unat num" "unat (log_bytes num n) \<le> ?q" "raw_ok raw" using pre by (auto simp: new_pre_def)
  let ?lg = "(raw_log raw)\<lparr>plog_num_partition := num\<rparr>"
  obtain lg a' where R: "plog_init ml (log_bytes num n) 0 (unat num) (Some a) ?lg = Some (lg, Some a')"
     "length (plog_partition_start_address lg) = 32" "length (plog_partition_cur_offset lg) = 32" "length (plog_partition_size lg) = 32"
     "\<And>j. j < unat num \<Longrightarrow> plog_partition_start_address lg ! j = align16 (partition_start_address a ! j) \<and>
        plog_partition_cur_offset lg ! j = 0"
    using plog_init_ok [OF inv, of "unat num" "log_bytes num n" ?lg ml] P(3,4) by (auto simp: raw_ok_def)
  have st: "plog_partition_start_address lg ! j = c_start ?c j" if "j < unat num" for j
  proof -
    have "unat (partition_start_address a ! j) = unat dest + j * ?q"
      using inv that by (simp add: fresh_alloc_def alloc_inv_def)
    also have "\<dots> = unat (dest + of_nat (j * ?q))" using new_starts(1) [OF pre that] by simp
    finally have "partition_start_address a ! j = dest + of_nat (j * ?q)" by (simp add: word_unat_eq_iff)
    then show ?thesis using R(5) [OF that] by (simp add: new_config_def)
  qed
  have nz: "num \<noteq> 0" using P(2) by auto
  have "plog_new ml (raw_log raw) num n (Some a) = Some (lg, Some a')"
    using R(1) nz by (simp add: plog_new_def log_bytes_def Let_def)
  moreover have "log_part ?c (\<lambda>_. []) lg"
  proof -
    have "unat (plog_partition_start_address lg ! j) mod 16 = 0 \<and> unat (plog_partition_cur_offset lg ! j) mod 320 = 0"
      if "j < unat num" for j
      unfolding st [OF that] using new_starts(2) [OF pre that] R(5) [OF that] by simp
    then have "log_ok (unat num) lg" using R(2-4) P(1) by (simp add: log_ok_def)
    moreover have "c_num ?c = unat num" by (simp add: new_config_def)
    ultimately show ?thesis using st R(5) by (simp add: log_part_def)
  qed
  ultimately show ?thesis by blast
qed

lemma region_mapped:
  assumes pre: "new_pre mal cap items K dest sz num n raw m" and p: "p < unat num"
  shows "mapped m (c_start (new_config mal cap items K dest sz num n) p) (320 * items)"
proof -
  let ?s = "c_start (new_config mal cap items K dest sz num n) p"
  note S = new_starts [OF pre p]
  have P: "unat dest + unat sz + 64 \<le> 2 ^ 63" "mapped m dest (unat sz)" using pre by (auto simp: new_pre_def)
  have pw: "(2 :: nat) ^ 63 \<le> 2 ^ 64" by simp
  define k where "k = unat ?s - unat dest"
  have le: "unat dest \<le> unat ?s" using S(3) by linarith
  have kb: "k + 320 * items \<le> unat sz" unfolding k_def using S(4,5) le by linarith
  have "unat (dest + of_nat k) = unat dest + k"
    by (rule unat_offset [of dest "unat sz + 1"]) (use P(1) pw kb in auto)
  then have "unat (dest + of_nat k) = unat ?s" unfolding k_def using le by simp
  then have e: "dest + of_nat k = ?s" by (simp add: word_unat_eq_iff)
  have "unat dest + unat sz \<le> 2 ^ 64" using P(1) pw by linarith
  then show ?thesis using mapped_sub [of dest "unat sz" k "320 * items" m] P(2) kb unfolding e by simp
qed

lemma hikv_new_ok:
  assumes pre: "new_pre mal cap items K dest sz num n raw m"
  shows "\<exists>s. hikv_new mal dest raw True sz num nb n m = Some s \<and> h_mem s = m \<and>
    store_ok (new_config mal cap items K dest sz num n) (s, \<lambda>_. [], \<lambda>_. 0)"
proof -
  let ?c = "new_config mal cap items K dest sz num n" and ?h = "(\<lambda>_. []) :: history"
  have P: "raw_ok raw" "dest \<noteq> 0" "0 < unat num" "unat num \<le> 16" "unat dest + unat sz + 64 \<le> 2 ^ 63"
    "0 < unat (n * 4 div (num * 4))" "unat (n * 4 div (num * 4)) < 2 ^ 31" "told_apart K"
    "inj_on mal {..<cap}" "\<forall>i < cap. mal i \<noteq> 0" "1 + unat num * items * (unat num * items + 2) \<le> cap"
    "unat num * items + 1 < 2 ^ 32"
    using pre by (auto simp: new_pre_def)
  have pw: "(2 :: nat) ^ 63 \<le> 2 ^ 64" by simp
  have sz: "unat dest + unat sz \<le> 2 ^ 64" "unat sz < 2 ^ 63" using P(2,5) pw by linarith+
  obtain al where al: "pm_alloctor_new dest (raw_alloctor raw) num sz = Some al"
    "alloc_inv (unat dest) (unat sz div unat num) (unat num) al" "alloc_used (unat dest) (unat sz div unat num) (unat num) al = {}"
    by (rule pm_alloctor_new_ok [of dest num sz "raw_alloctor raw"]) (use P(1-4) sz in \<open>auto simp: raw_ok_def\<close>)
  have "partition_cur_offset al ! j = 0" if "j < unat num" for j
  proof -
    have "span (unat dest + j * (unat sz div unat num)) (unat (partition_cur_offset al ! j)) = {}"
      using al(3) that unfolding alloc_used_def by blast
    then show ?thesis by (simp add: unat_eq_zero)
  qed
  then have fr: "fresh_alloc (unat dest) (unat sz div unat num) (unat num) 0 al" using al(2) by (simp add: fresh_alloc_def)
  obtain lg al' where lg: "plog_new (\<lambda>_. 0) (raw_log raw) num n (Some al) = Some (lg, Some al')" "log_part ?c ?h lg"
    using plog_new_ok [OF pre fr] by blast
  have np32: "unat num \<le> length (raw_buckets raw)" using P(1,4) by (simp add: raw_ok_def)
  let ?nb = "n * 4 div (num * 4)"
  obtain t where t: "hash_table_new num ?nb None (raw_buckets raw) = Some (t, None)"
    and ht: "hash_part ?c ?h t"
  proof -
    obtain t where t: "hash_table_new num ?nb None (raw_buckets raw) = Some (t, None)"
      by (rule new_table_state [OF np32 P(6,7,3,8)])
    have "table_state (uint ?nb) p K t \<and> (\<forall>k \<in> K. table_look (uint ?nb) p t k = None)" if "p < unat num" for p
      using new_table_state [OF np32 P(6,7) that P(8)] t by (metis option.inject prod.inject)
    then have "hash_part ?c ?h t" by (simp add: hash_part_def new_config_def accepted_def offsets_def)
    then show ?thesis using that t by blast
  qed
  obtain bt where bt: "btree_new mal (raw_page_count raw) (raw_num_kv raw) = Some bt" and tp: "tree_part ?c ?h (\<lambda>_. 0) bt"
  proof -
    have rl: "0 < length (raw_page_count raw)" "length (raw_num_kv raw) = 32" using P(1) by (auto simp: raw_ok_def)
    obtain bt where bt: "btree_new mal (raw_page_count raw) (raw_num_kv raw) = Some bt" "records_of (bt :: entry_key_t btree) = []"
      by (rule fresh_usable [OF P(9-12) rl(1), of 0 "raw_num_kv raw"]) (use rl(2) in auto)
    have "tree_usable mal cap p (unat num * items) bt" if "p < unat num" for p
    proof -
      have p: "p < 32" "p < length (raw_num_kv raw)" using that P(4) rl(2) by linarith+
      obtain b where b: "btree_new mal (raw_page_count raw) (raw_num_kv raw) = Some b"
          "tree_usable mal cap p (unat num * items) (b :: entry_key_t btree)"
        by (rule fresh_usable [OF P(9-12) rl(1) p])
      then show ?thesis using bt(1) by simp
    qed
    then have "tree_part ?c ?h (\<lambda>_. 0) bt"
      using bt(2) by (simp add: tree_part_def room_def moved_recs_def new_config_def)
    then show ?thesis using that bt(1) by blast
  qed
  have nz: "num * 4 \<noteq> 0"
  proof
    assume "num * 4 = 0"
    then have "unat (n * 4 div (num * 4)) = 0" by simp
    then show False using P(6) by simp
  qed
  let ?s = "\<lparr>h_allocator = al', h_bt = bt, h_ht = t, h_log = lg, h_tq = Some (task_queue_new num nb), h_mem = m\<rparr>"
  have "hikv_new mal dest raw True sz num nb n m = Some ?s"
    using al(1) t bt lg(1) nz by (simp add: hikv_new_def NUM_SLOT_val Let_def)
  moreover have "mem_part ?c ?h m"
    using region_mapped [OF pre] by (simp add: mem_part_def new_config_def)
  moreover have "queue_part ?c ?h (\<lambda>_. 0) (task_queue_new num nb)"
    using P(4) by (simp add: queue_part_def task_queue_new_def access_simps new_config_def)
  ultimately show ?thesis
    using new_layout [OF pre] lg(2) ht tp by (intro exI [of _ ?s]) (simp add: store_ok_def)
qed

end
