(* ===== verification/KV_Reached.thy ===== *)
theory KV_Reached
  imports KV_HikvNew
begin

text \<open>
  The states the store reaches from its constructor, the history that only grows along the way,
  and what any fair sequence of background rounds does to the queues.
\<close>

section \<open>Reached states\<close>

text \<open>The states the store comes to after its constructor, with the configuration it was built with.\<close>

definition kv_started :: "config \<Rightarrow> hikv \<Rightarrow> bool" where
  "kv_started c s0 \<longleftrightarrow> (\<exists>mal cap items K dest sz num n raw m nb.
     new_pre mal cap items K dest sz num n raw m \<and> c = new_config mal cap items K dest sz num n \<and>
     hikv_new mal dest raw True sz num nb n m = Some s0)"

definition kv_reached :: "config \<Rightarrow> hikv \<times> history \<times> (nat \<Rightarrow> nat) \<Rightarrow> bool" where
  "kv_reached c x \<longleftrightarrow> (\<exists>s0. kv_started c s0 \<and> (kv_step c)\<^sup>*\<^sup>* (s0, \<lambda>_. [], \<lambda>_. 0) x)"

lemma started_ok:
  assumes "kv_started c s0"
  shows "store_ok c (s0, \<lambda>_. [], \<lambda>_. 0)" "0 < c_num c"
proof -
  obtain mal cap items K dest sz num n raw m nb where P: "new_pre mal cap items K dest sz num n raw m"
    "c = new_config mal cap items K dest sz num n" "hikv_new mal dest raw True sz num nb n m = Some s0"
    using assms unfolding kv_started_def by blast
  show "store_ok c (s0, \<lambda>_. [], \<lambda>_. 0)" using hikv_new_ok [OF P(1), of nb] P(2,3) by simp
  show "0 < c_num c" using P(1,2) by (simp add: new_pre_def new_config_def)
qed

lemma reached_ok: "kv_reached c x \<Longrightarrow> store_ok c x"
  unfolding kv_reached_def using started_ok(1) kv_reachable_ok by blast

lemma reached_num: "kv_reached c x \<Longrightarrow> 0 < c_num c"
  unfolding kv_reached_def using started_ok(2) by blast

lemma reached_step: "kv_reached c x \<Longrightarrow> kv_step c x y \<Longrightarrow> kv_reached c y"
  unfolding kv_reached_def by (meson rtranclp.rtrancl_into_rtrancl)

lemma reached_steps: "(kv_step c)\<^sup>*\<^sup>* x y \<Longrightarrow> kv_reached c x \<Longrightarrow> kv_reached c y"
  by (induction rule: rtranclp_induct) (auto intro: reached_step)

lemma reached_new:
  "new_pre mal cap items K dest sz num n raw m \<Longrightarrow> hikv_new mal dest raw True sz num nb n m = Some s0 \<Longrightarrow>
   kv_reached (new_config mal cap items K dest sz num n) (s0, \<lambda>_. [], \<lambda>_. 0)"
  unfolding kv_reached_def kv_started_def by blast

text \<open>A history only grows.\<close>

lemma step_history:
  assumes "kv_step c x y"
  shows "\<exists>xs. fst (snd y) p = fst (snd x) p @ xs"
  using assms by (cases rule: kv_step.cases) auto

lemma steps_history:
  assumes "(kv_step c)\<^sup>*\<^sup>* x y"
  shows "\<exists>xs. fst (snd y) p = fst (snd x) p @ xs"
  using assms
proof (induction rule: rtranclp_induct)
  case (step y z)
  then show ?case using step_history [OF step.hyps(2), of p] by fastforce
qed simp

lemma first_put_append: "first_put hs k = Some i \<Longrightarrow> first_put (hs @ xs) k = Some i"
proof (induction xs rule: rev_induct)
  case (snoc x xs)
  then show ?case using first_put_snoc [of "hs @ xs" x k] by simp
qed simp

section \<open>Draining the queues\<close>

text \<open>Rounds of the background threads, in the given order of their numbers.\<close>

fun rounds :: "(nat \<Rightarrow> ptr) \<Rightarrow> nat list \<Rightarrow> hikv \<Rightarrow> hikv option" where
  "rounds mal [] s = Some s"
| "rounds mal (p # ps) s = do { s' \<leftarrow> background mal p s; rounds mal ps s' }"

lemma background_idle:
  assumes ok: "store_ok c (s, h, d)" and p: "p < c_num c" and i: "\<not> d p < length (h p)"
  shows "background mal p s = Some s"
proof -
  obtain tq where S: "layout c" "h_tq s = Some tq" "queue_part c h d tq" using ok by (auto simp: store_ok_def)
  have q: "p < length (s_tbb_queue tq)" "map (\<lambda>t. (task_type t, task_argv t ! 1)) (s_tbb_queue tq ! p) = []"
    using S(1,3) p i by (auto simp: queue_part_def layout_def)
  then show ?thesis using S(2) by (simp add: background_def thread_pool_task_handler_def access_simps)
qed

lemma rounds_ok:
  assumes "store_ok c (s, h, d)" "\<forall>p \<in> set ps. p < c_num c"
  shows "\<exists>s' d'. rounds (c_mal c) ps s = Some s' \<and> store_ok c (s', h, d') \<and>
    (\<forall>p < c_num c. d' p = min (length (h p)) (d p + count_list ps p))"
  using assms
proof (induction ps arbitrary: s d)
  case Nil
  have "d p \<le> length (h p)" if "p < c_num c" for p using Nil(1) that by (auto simp: store_ok_def queue_part_def)
  then show ?case using Nil by (intro exI [of _ s] exI [of _ d]) auto
next
  case (Cons q ps)
  have le: "d p \<le> length (h p)" if "p < c_num c" for p using Cons.prems(1) that by (auto simp: store_ok_def queue_part_def)
  have q: "q < c_num c" using Cons.prems(2) by simp
  show ?case
  proof (cases "d q < length (h q)")
    case True
    obtain s1 where s1: "background (c_mal c) q s = Some s1" "store_ok c (s1, h, d(q := d q + 1))"
      using background_ok [OF Cons.prems(1) q True] by blast
    obtain s' d' where R: "rounds (c_mal c) ps s1 = Some s'" "store_ok c (s', h, d')"
      "\<forall>p < c_num c. d' p = min (length (h p)) ((d(q := d q + 1)) p + count_list ps p)"
      using Cons.IH [OF s1(2)] Cons.prems(2) by auto
    then show ?thesis using s1(1) by (intro exI [of _ s'] exI [of _ d']) auto
  next
    case False
    obtain s' d' where R: "rounds (c_mal c) ps s = Some s'" "store_ok c (s', h, d')"
      "\<forall>p < c_num c. d' p = min (length (h p)) (d p + count_list ps p)"
      using Cons.IH [OF Cons.prems(1)] Cons.prems(2) by auto
    have "d' p = min (length (h p)) (d p + count_list (q # ps) p)" if p: "p < c_num c" for p
      using R(3) p False le [OF p] by (cases "p = q") auto
    then show ?thesis using R(1,2) background_idle [OF Cons.prems(1) q False] by auto
  qed
qed

text \<open>All puts, in all partitions, as the records the tree will hold.\<close>

definition all_puts :: "config \<Rightarrow> history \<Rightarrow> (entry_key_t \<times> ptr) multiset" where
  "all_puts c h = (\<Sum>p < c_num c. moved_recs c h (\<lambda>p. length (h p)) p)"

section \<open>Operations in a reached state\<close>

lemma reached_put:
  assumes "kv_reached c (s, h, d)" "p < c_num c" "length (h p) < c_items c"
    "buffer_ok c (h_mem s) key 64" "buffer_ok c (h_mem s) val 256"
    "mem_load (h_mem s) key 64 = Some kb" "mem_load (h_mem s) val 256 = Some vb" "kb \<in> c_keys c"
    "length (h p) - d p < MAX_QUEUE_SIZE" "length rest = 6"
  shows "\<exists>res s'. hikv_insert (c_mal c) bt_addr rest p key val s = Some (res, s') \<and>
    kv_reached c (s', h(p := h p @ [(res, kb, vb)]), d)"
proof -
  obtain res s' where R: "hikv_insert (c_mal c) bt_addr rest p key val s = Some (res, s')"
    using put_ok [where h = h and d = d, OF reached_ok [OF assms(1)] assms(2-10)] by blast
  have "kv_step c (s, h, d) (s', h(p := h p @ [(res, kb, vb)]), d)"
    by (rule kv_step.put [where h = h and d = d, OF assms(2-10) R])
  then show ?thesis using R reached_step [OF assms(1)] by blast
qed

lemma reached_get:
  assumes "kv_reached c (s, h, d)" "p < c_num c" "mem_load (h_mem s) key 64 = Some kb" "kb \<in> c_keys c"
    "buffer_ok c (h_mem s) val 256"
  shows "\<exists>found s'. hikv_search p key val s = Some (found, s') \<and> kv_reached c (s', h, d) \<and>
    (case first_put (h p) kb of
       None \<Rightarrow> \<not> found \<and> s' = s
     | Some i \<Rightarrow> if i = 0 then \<not> found \<and> s' = s else found \<and> mem_load (h_mem s') val 256 = Some (snd (snd (h p ! i))))"
proof -
  obtain found s' where R: "hikv_search p key val s = Some (found, s')"
    "case first_put (h p) kb of
       None \<Rightarrow> \<not> found \<and> s' = s
     | Some i \<Rightarrow> if i = 0 then \<not> found \<and> s' = s else found \<and> mem_load (h_mem s') val 256 = Some (snd (snd (h p ! i)))"
    using get_ok [OF reached_ok [OF assms(1)] assms(2-5)] by blast
  have "kv_step c (s, h, d) (s', h, d)" by (rule kv_step.get [OF assms(2-5) R(1)])
  then show ?thesis using R reached_step [OF assms(1)] by blast
qed

lemma reached_scan:
  assumes "kv_reached c (s, h, d)" "mem_load (h_mem s) lower 64 = Some lo" "mem_load (h_mem s) upper 64 = Some hi"
  shows "\<exists>rs. range_scan lower upper s = Some (map snd rs) \<and> sorted (map fst rs) \<and>
    mset rs = filter_mset (\<lambda>e. Key lo < fst e \<and> fst e < Key hi) (\<Sum>p < c_num c. moved_recs c h d p)"
proof -
  let ?rs = "filter (\<lambda>e. Key lo < fst e \<and> fst e < Key hi) (records_of (h_bt s))"
  note ok = reached_ok [OF assms(1)]
  have T: "tree_ok (h_bt s)" "mset (records_of (h_bt s)) = (\<Sum>p < c_num c. moved_recs c h d p)"
    using ok reached_num [OF assms(1)] by (auto simp: store_ok_def tree_part_def tree_usable_def)
  have "range_scan lower upper s = Some (map snd ?rs)"
    using scan_ok [OF ok reached_num [OF assms(1)] assms(2,3)] by (simp add: between_def)
  moreover have "sorted (map fst (records_of (h_bt s)))" using records_sorted [OF T(1)] .
  then have "sorted (map fst ?rs)" by (rule sorted_filter)
  ultimately show ?thesis using T(2) by (intro exI [of _ ?rs]) simp
qed

end
