(* ===== verification/KV_HikvFacts.thy ===== *)
theory KV_HikvFacts
  imports KV_Reached KV_HashFacts
begin

text \<open>
  What the store promises, from its constructor through every interleaving of puts, gets,
  background rounds and other writes to memory; and two ways in which a record that was put is
  not found again.
\<close>

section \<open>A small store\<close>

definition demo_raw :: raw_memory where
  "demo_raw = \<lparr>raw_alloctor = \<lparr>pm_size = 0, num_partition = 0, pm_start_address = 0, partition_size = replicate 32 0,
       partition_start_address = replicate 32 0, partition_end_address = replicate 32 0, partition_cur_offset = replicate 32 0\<rparr>,
     raw_buckets = replicate 32 [], raw_page_count = replicate 32 0, raw_num_kv = replicate 32 0,
     raw_log = \<lparr>plog_num_partition = 0, plog_partition_size = replicate 32 0,
       plog_partition_start_address = replicate 32 0, plog_partition_cur_offset = replicate 32 0\<rparr>\<rparr>"

text \<open>Every address is mapped; there is \<open>key_a\<close> at 131072 and \<open>key_c\<close> at 131200.\<close>

definition demo_mem :: nvmem where
  "demo_mem = \<lparr>bytes = (\<lambda>p. Some (if p < 131200 then 1 else 2)), dirty = (\<lambda>_. False)\<rparr>"

definition demo_config :: config where
  "demo_config = new_config count_up 100 5 {key_a, key_c} 65536 4096 1 4"

lemma demo_mapped: "mapped demo_mem a n"
  by (simp add: mapped_def demo_mem_def)

lemma demo_words:
  "unat (log_bytes 1 4) = 1920" "unat ((4 :: u64) * 4 div (1 * 4)) = 4" "unat (4096 :: u64) = 4096" "unat (1 :: u64) = 1"
  "unat (65536 :: u64) = 65536"
proof -
  show a: "unat (65536 :: u64) = 65536" "unat (4096 :: u64) = 4096" "unat (1 :: u64) = 1" by simp_all
  show "unat ((4 :: u64) * 4 div (1 * 4)) = 4" by simp
  show "unat (log_bytes 1 4) = 1920" by (simp add: log_bytes_def access_simps)
qed

lemma demo_pre: "new_pre count_up 100 5 {key_a, key_c} 65536 4096 1 4 demo_raw demo_mem"
proof -
  note sup = count_up_supply [of 100]
  have "\<not> in_range 65536 4096 (count_up i)" if "i < 100" for i
    by (subst in_range_iff) (use unat_count_up [of i] that in auto)
  then show ?thesis
    unfolding new_pre_def demo_words using sup(1,2) ac_told_apart
    by (simp add: raw_ok_def demo_raw_def demo_mapped)
qed

lemma demo_new:
  obtains s0 where "hikv_new count_up 65536 demo_raw True 4096 1 1 4 demo_mem = Some s0" "h_mem s0 = demo_mem"
    "store_ok demo_config (s0, \<lambda>_. [], \<lambda>_. 0)"
  using hikv_new_ok [OF demo_pre, of 1] unfolding demo_config_def by blast

lemma demo_c: "c_num demo_config = 1" "c_items demo_config = 5" "c_keys demo_config = {key_a, key_c}" "c_mal demo_config = count_up"
  by (simp_all add: demo_config_def new_config_def)

lemma demo_load:
  "mem_load demo_mem 131072 64 = Some key_a" "mem_load demo_mem 131200 64 = Some key_c"
  "mem_load demo_mem 131500 256 = Some (replicate 256 2)"
proof -
  have ld: "mem_load demo_mem a n = Some (replicate n b)" if "\<And>i. i < n \<Longrightarrow> (if a + of_nat i < 131200 then 1 else 2) = b" for a n b
    using that demo_mapped [of a n] by (auto simp: mem_load_def demo_mem_def list_eq_iff_nth_eq)
  have lt: "a + of_nat i < 131200 \<longleftrightarrow> unat a + i < 131200" if "unat a + n \<le> 2 ^ 64" "i < n" for a :: ptr and i n
    using unat_offset [OF that] by (simp add: word_less_nat_alt)
  show "mem_load demo_mem 131072 64 = Some key_a" unfolding key_a_def by (rule ld) (simp add: lt [of _ 64])
  show "mem_load demo_mem 131200 64 = Some key_c" unfolding key_c_def by (rule ld) (simp add: lt [of _ 64])
  show "mem_load demo_mem 131500 256 = Some (replicate 256 2)" by (rule ld) (simp add: lt [of _ 256])
qed

text \<open>A memory that holds the demonstration keys and values outside the log.\<close>

definition demo_fits :: "nvmem \<Rightarrow> bool" where
  "demo_fits m \<longleftrightarrow> (\<forall>x. 131072 \<le> unat x \<longrightarrow> bytes m x = bytes demo_mem x)"

lemma demo_start: "p < 1 \<Longrightarrow> unat (c_start demo_config p) + 320 * 5 \<le> 131072"
proof -
  assume "p < 1"
  then have p: "p < unat (1 :: u64)" by simp
  show ?thesis using new_starts(4,5) [OF demo_pre p] unfolding demo_config_def demo_words by linarith
qed

lemma fits_at: "demo_fits m \<Longrightarrow> 131072 \<le> unat a \<Longrightarrow> unat a + n \<le> 2 ^ 64 \<Longrightarrow> i < n \<Longrightarrow>
  bytes m (a + of_nat i) = bytes demo_mem (a + of_nat i)"
proof -
  assume a: "demo_fits m" "131072 \<le> unat a" "unat a + n \<le> 2 ^ 64" "i < n"
  have "unat (a + of_nat i) = unat a + i" by (rule unat_offset [OF a(3,4)])
  then show ?thesis using a(1,2) by (simp add: demo_fits_def)
qed

lemma fits_buffer: "demo_fits m \<Longrightarrow> 131072 \<le> unat a \<Longrightarrow> unat a + n \<le> 2 ^ 64 \<Longrightarrow> buffer_ok demo_config m a n"
proof -
  assume a: "demo_fits m" "131072 \<le> unat a" "unat a + n \<le> 2 ^ 64"
  have "mapped m a n" using fits_at [OF a] by (simp add: mapped_less demo_mem_def)
  then show ?thesis using a demo_start by (force simp: buffer_ok_def demo_c apart_def)
qed

lemma fits_load:
  assumes "demo_fits m"
  shows "mem_load m 131072 64 = Some key_a" "mem_load m 131200 64 = Some key_c"
    "mem_load m 131500 256 = Some (replicate 256 2)"
proof -
  have c: "mem_load m a n = mem_load demo_mem a n" if "131072 \<le> unat a" "unat a + n \<le> 2 ^ 64" for a n
    by (rule load_cong(1)) (use fits_at [OF assms that] in auto)
  show "mem_load m 131072 64 = Some key_a" "mem_load m 131200 64 = Some key_c"
    "mem_load m 131500 256 = Some (replicate 256 2)"
    using demo_load by (simp_all add: c)
qed

text \<open>A write outside the log puts them back.\<close>

lemma demo_refresh:
  assumes "kv_reached demo_config (s, h, d)"
  obtains m where "kv_reached demo_config (s\<lparr>h_mem := m\<rparr>, h, d)" "demo_fits m"
proof -
  let ?m = "\<lparr>bytes = (\<lambda>x. if 131072 \<le> unat x then bytes demo_mem x else bytes (h_mem s) x), dirty = dirty (h_mem s)\<rparr>"
  have "same_logs demo_config (h_mem s) ?m"
    unfolding same_logs_def
  proof (intro allI impI)
    fix p x assume p: "p < c_num demo_config" and x: "in_range (c_start demo_config p) (320 * c_items demo_config) x"
    have st: "unat (c_start demo_config p) + 320 * 5 \<le> 131072" using p demo_start by (simp add: demo_c)
    then have "unat (c_start demo_config p) + 320 * 5 \<le> 2 ^ 64" by (rule order_trans) simp
    then have "unat x < 131072" using x st by (simp add: in_range_iff demo_c)
    then show "bytes ?m x = bytes (h_mem s) x" by simp
  qed
  then have "kv_step demo_config (s, h, d) (s\<lparr>h_mem := ?m\<rparr>, h, d)" by (rule kv_step.other_write)
  then have "kv_reached demo_config (s\<lparr>h_mem := ?m\<rparr>, h, d)" by (rule reached_step [OF assms])
  moreover have "demo_fits ?m" by (simp add: demo_fits_def)
  ultimately show ?thesis by (rule that)
qed

lemma demo_put_pre:
  assumes "demo_fits (h_mem s)" "(key :: ptr) = 131072 \<and> kb = key_a \<or> key = 131200 \<and> kb = key_c" "length (h 0) < 2"
  shows "0 < c_num demo_config" "length (h 0) < c_items demo_config" "buffer_ok demo_config (h_mem s) key 64"
    "buffer_ok demo_config (h_mem s) 131500 256" "mem_load (h_mem s) key 64 = Some kb"
    "mem_load (h_mem s) 131500 256 = Some (replicate 256 2)" "kb \<in> c_keys demo_config"
    "length (h 0) - d < MAX_QUEUE_SIZE" "length (replicate 6 (0 :: u64)) = 6"
  using assms fits_buffer fits_load by (auto simp: demo_c MAX_QUEUE_SIZE_def)

abbreviation demo_hist :: "(bool \<times> byte list \<times> byte list) list \<Rightarrow> history" where
  "demo_hist hs \<equiv> (\<lambda>_. [])(0 := hs)"

text \<open>The hash index of the store, empty, after \<open>key_a\<close> and after both keys.\<close>

abbreviation bucket_a :: hash_bucket where
  "bucket_a \<equiv> \<lparr>signature = [11060263337653166570, 0, 0, 0], addr = [0, 0, 0, 0]\<rparr>"

abbreviation bucket_c :: hash_bucket where
  "bucket_c \<equiv> \<lparr>signature = [5851052827041924959, 0, 0, 0], addr = [320, 0, 0, 0]\<rparr>"

definition demo_table :: "hash_bucket \<Rightarrow> hash_bucket \<Rightarrow> hash_table" where
  "demo_table x y = \<lparr>ht_num_partition = 1, num_bucket = 4, partition = [zero_bucket, zero_bucket, x, y] # replicate 31 []\<rparr>"

lemma demo_table_new: "hash_table_new 1 4 None (replicate 32 []) = Some (demo_table zero_bucket zero_bucket, None)"
  by code_simp

lemma demo_slots:
  "insert_slots 11060263337653166570 9501256149962151878 2 2 0 0 4 [zero_bucket, zero_bucket, zero_bucket, zero_bucket]
     = Some (True, [zero_bucket, zero_bucket, bucket_a, zero_bucket])"
  "insert_slots 15869871728638909906 5851052827041924959 2 3 320 0 4 [zero_bucket, zero_bucket, bucket_a, zero_bucket]
     = Some (True, [zero_bucket, zero_bucket, bucket_a, bucket_c])"
  by code_simp+

lemma demo_inserts:
  "ht_insert 0 key_a 0 (demo_table zero_bucket zero_bucket) = Some (True, demo_table bucket_a zero_bucket)"
  "ht_insert 0 key_c 320 (demo_table bucket_a zero_bucket) = Some (True, demo_table bucket_a bucket_c)"
  by (simp_all add: ht_insert_def key_hashes demo_table_def bucket_id_def access_simps demo_slots del: insert_slots.simps)

text \<open>The hash index a store begins with.\<close>

lemma new_table: "hikv_new mal dest raw async sz num nb n m = Some s \<Longrightarrow>
   \<exists>al. hash_table_new num (n * 4 div (num * of_nat NUM_SLOT)) None (raw_buckets raw) = Some (h_ht s, al)"
  by (auto simp: hikv_new_def Let_def split: Option.bind_splits if_splits)

lemma demo_empty:
  obtains s where "kv_reached demo_config (s, demo_hist [], \<lambda>_. 0)" "demo_fits (h_mem s)" "h_ht s = demo_table zero_bucket zero_bucket"
proof -
  obtain s0 where s0: "hikv_new count_up 65536 demo_raw True 4096 1 1 4 demo_mem = Some s0" "h_mem s0 = demo_mem"
    by (rule demo_new) blast
  have "h_ht s0 = demo_table zero_bucket zero_bucket"
    using new_table [OF s0(1)] demo_table_new by (simp add: demo_raw_def NUM_SLOT_val)
  then show ?thesis using that [of s0] s0(2) reached_new [OF demo_pre, of 1 s0] s0(1)
    by (simp add: demo_config_def demo_fits_def fun_upd_idem)
qed

lemma demo_more:
  assumes r: "kv_reached demo_config (s, demo_hist hs, \<lambda>_. 0)" "demo_fits (h_mem s)"
    and k: "(key :: ptr) = 131072 \<and> kb = key_a \<or> key = 131200 \<and> kb = key_c" and n: "length hs < 2"
    and ins: "ht_insert 0 kb (of_nat (320 * length hs)) (h_ht s) = Some (True, t')"
  obtains s' where "kv_reached demo_config (s', demo_hist (hs @ [(True, kb, replicate 256 2)]), \<lambda>_. 0)" "demo_fits (h_mem s')"
    "h_ht s' = t'"
proof -
  have n': "length (demo_hist hs 0) < 2" using n by simp
  note pre = demo_put_pre [of s key kb "demo_hist hs", OF r(2) k n']
  obtain res s' where R: "hikv_insert (c_mal demo_config) 64 (replicate 6 0) 0 key 131500 s = Some (res, s')"
      "ht_insert 0 kb (of_nat (320 * length (demo_hist hs 0))) (h_ht s) = Some (res, h_ht s')"
    using put_ok [where h = "demo_hist hs" and d = "\<lambda>_. 0", OF reached_ok [OF r(1)] pre] by blast
  have e: "res = True" "h_ht s' = t'" using R(2) ins by simp_all
  have "kv_step demo_config (s, demo_hist hs, \<lambda>_. 0) (s', (demo_hist hs)(0 := demo_hist hs 0 @ [(res, kb, replicate 256 2)]), \<lambda>_. 0)"
    by (rule kv_step.put [where h = "demo_hist hs" and d = "\<lambda>_. 0", OF pre R(1)])
  then have "kv_reached demo_config (s', demo_hist (hs @ [(True, kb, replicate 256 2)]), \<lambda>_. 0)"
    using reached_step [OF r(1)] e(1) by simp
  then obtain m where "kv_reached demo_config (s'\<lparr>h_mem := m\<rparr>, demo_hist (hs @ [(True, kb, replicate 256 2)]), \<lambda>_. 0)" "demo_fits m"
    by (rule demo_refresh)
  then show ?thesis using that e(2) by simp
qed

abbreviation put_a :: "bool \<times> byte list \<times> byte list" where "put_a \<equiv> (True, key_a, replicate 256 2)"
abbreviation put_c :: "bool \<times> byte list \<times> byte list" where "put_c \<equiv> (True, key_c, replicate 256 2)"

lemma demo_one:
  obtains s where "kv_reached demo_config (s, demo_hist [put_a], \<lambda>_. 0)" "demo_fits (h_mem s)" "h_ht s = demo_table bucket_a zero_bucket"
proof -
  obtain s0 where s0: "kv_reached demo_config (s0, demo_hist [], \<lambda>_. 0)" "demo_fits (h_mem s0)" "h_ht s0 = demo_table zero_bucket zero_bucket"
    by (rule demo_empty)
  obtain s where "kv_reached demo_config (s, demo_hist ([] @ [put_a]), \<lambda>_. 0)" "demo_fits (h_mem s)" "h_ht s = demo_table bucket_a zero_bucket"
    by (rule demo_more [OF s0(1,2), of 131072 key_a]) (auto simp: s0(3) demo_inserts)
  then show ?thesis using that by simp
qed

lemma demo_two:
  obtains s where "kv_reached demo_config (s, demo_hist [put_a, put_c], \<lambda>_. 0)" "demo_fits (h_mem s)"
proof -
  obtain s0 where s0: "kv_reached demo_config (s0, demo_hist [put_a], \<lambda>_. 0)" "demo_fits (h_mem s0)" "h_ht s0 = demo_table bucket_a zero_bucket"
    by (rule demo_one)
  obtain s where "kv_reached demo_config (s, demo_hist ([put_a] @ [put_c]), \<lambda>_. 0)" "demo_fits (h_mem s)"
    by (rule demo_more [OF s0(1,2), of 131200 key_c]) (auto simp: s0(3) demo_inserts)
  then show ?thesis using that by simp
qed

section \<open>What the store promises\<close>

text \<open>
  C1: The constructor returns on every pool that is large enough, and whatever puts, gets,
  background rounds and writes outside the logs follow, in any order, the log, the memory, the hash
  index, the queues and the tree agree with the history of the puts.
\<close>
theorem store_invariant:
  assumes "new_pre mal cap items K dest sz num n raw m"
  shows "\<exists>s0. hikv_new mal dest raw True sz num nb n m = Some s0 \<and>
    (\<forall>x. (kv_step (new_config mal cap items K dest sz num n))\<^sup>*\<^sup>* (s0, \<lambda>_. [], \<lambda>_. 0) x \<longrightarrow>
       store_ok (new_config mal cap items K dest sz num n) x)"
  using hikv_new_ok [OF assms] kv_reachable_ok by blast

theorem store_invariant_witness:
  "\<exists>s0. hikv_new count_up 65536 demo_raw True 4096 1 1 4 demo_mem = Some s0 \<and> store_ok demo_config (s0, \<lambda>_. [], \<lambda>_. 0)"
  using store_invariant [OF demo_pre, of 1] unfolding demo_config_def by blast

text \<open>
  C3: In every reached state a get returns, and it returns the value of the first put of
  the key that the hash index accepted. A later put of the same key is never seen, and a first put
  that is item 0 of the partition's log is not found.
\<close>
theorem get_returns_first_put:
  assumes "kv_reached c (s, h, d)" "p < c_num c" "mem_load (h_mem s) key 64 = Some kb" "kb \<in> c_keys c"
    "buffer_ok c (h_mem s) val 256"
  shows "\<exists>found s'. hikv_search p key val s = Some (found, s') \<and> kv_reached c (s', h, d) \<and>
    (case first_put (h p) kb of
       None \<Rightarrow> \<not> found \<and> s' = s
     | Some i \<Rightarrow> if i = 0 then \<not> found \<and> s' = s else found \<and> mem_load (h_mem s') val 256 = Some (snd (snd (h p ! i))))"
  using reached_get [OF assms] .

theorem get_returns_first_put_witness:
  "\<exists>s s'. kv_reached demo_config (s, demo_hist [put_a, put_c], \<lambda>_. 0) \<and>
     hikv_search 0 131200 140000 s = Some (True, s') \<and> mem_load (h_mem s') 140000 256 = Some (replicate 256 2)"
proof -
  obtain s where s: "kv_reached demo_config (s, demo_hist [put_a, put_c], \<lambda>_. 0)" "demo_fits (h_mem s)" by (rule demo_two)
  have "key_a \<noteq> key_c"
  proof
    assume "key_a = key_c"
    then show False using key_hashes by simp
  qed
  then have fp: "first_put [put_a, put_c] key_c = Some 1" by (simp add: first_put_def)
  have "\<exists>s'. hikv_search 0 131200 140000 s = Some (True, s') \<and> mem_load (h_mem s') 140000 256 = Some (replicate 256 2)"
    using get_returns_first_put [OF s(1), of 0 131200 key_c 140000] fp fits_load [OF s(2)] fits_buffer [OF s(2), of 140000 256]
    by (auto simp: demo_c)
  then show ?thesis using s(1) by metis
qed

text \<open>
  C8: In every reached state a put returns, as long as the partition's log has room for one more
  item and its queue is not full; the record is then in the history.
\<close>
theorem put_returns:
  assumes "kv_reached c (s, h, d)" "p < c_num c" "length (h p) < c_items c"
    "buffer_ok c (h_mem s) key 64" "buffer_ok c (h_mem s) val 256"
    "mem_load (h_mem s) key 64 = Some kb" "mem_load (h_mem s) val 256 = Some vb" "kb \<in> c_keys c"
    "length (h p) - d p < MAX_QUEUE_SIZE" "length rest = 6"
  shows "\<exists>res s'. hikv_insert (c_mal c) bt_addr rest p key val s = Some (res, s') \<and>
    kv_reached c (s', h(p := h p @ [(res, kb, vb)]), d)"
  using reached_put [where h = h and d = d, OF assms] .

theorem put_returns_witness:
  "\<exists>s res s'. kv_reached demo_config (s, demo_hist [], \<lambda>_. 0) \<and>
     hikv_insert count_up 64 (replicate 6 0) 0 131072 131500 s = Some (res, s') \<and>
     kv_reached demo_config (s', demo_hist [(res, key_a, replicate 256 2)], \<lambda>_. 0)"
proof -
  obtain s where s: "kv_reached demo_config (s, demo_hist [], \<lambda>_. 0)" "demo_fits (h_mem s)" by (rule demo_empty)
  have pre: "0 < c_num demo_config" "length (demo_hist [] 0) < c_items demo_config" "buffer_ok demo_config (h_mem s) 131072 64"
    "buffer_ok demo_config (h_mem s) 131500 256" "mem_load (h_mem s) 131072 64 = Some key_a"
    "mem_load (h_mem s) 131500 256 = Some (replicate 256 2)" "key_a \<in> c_keys demo_config"
    "length (demo_hist [] 0) - 0 < MAX_QUEUE_SIZE" "length (replicate 6 (0 :: u64)) = 6"
    using demo_put_pre [of s 131072 key_a "demo_hist []"] s(2) by auto
  have "\<exists>res s'. hikv_insert (c_mal demo_config) 64 (replicate 6 0) 0 131072 131500 s = Some (res, s') \<and>
      kv_reached demo_config (s', (demo_hist [])(0 := demo_hist [] 0 @ [(res, key_a, replicate 256 2)]), \<lambda>_. 0)"
    by (rule put_returns [where h = "demo_hist []" and d = "\<lambda>_. 0", OF s(1) pre])
  then show ?thesis using s(1) unfolding demo_c by auto
qed

text \<open>
  C5: A scan returns, in the order of the keys, exactly the items strictly between its
  bounds that a background thread has moved into the tree, also those the hash index rejected.
\<close>
theorem scan_returns_moved:
  assumes "kv_reached c (s, h, d)" "mem_load (h_mem s) lower 64 = Some lo" "mem_load (h_mem s) upper 64 = Some hi"
  shows "\<exists>rs. range_scan lower upper s = Some (map snd rs) \<and> sorted (map fst rs) \<and>
    mset rs = filter_mset (\<lambda>e. Key lo < fst e \<and> fst e < Key hi) (\<Sum>p < c_num c. moved_recs c h d p)"
  using reached_scan [OF assms] .

theorem scan_returns_moved_witness:
  "\<exists>s. kv_reached demo_config (s, demo_hist [put_a, put_c], \<lambda>_. 0) \<and>
     range_scan 131072 131200 s = Some []"
proof -
  obtain s where s: "kv_reached demo_config (s, demo_hist [put_a, put_c], \<lambda>_. 0)"
    "demo_fits (h_mem s)" by (rule demo_two)
  show ?thesis
    using scan_returns_moved [OF s(1), of 131072 key_a 131200 key_c] s fits_load [OF s(2)]
    by (auto simp: demo_c moved_recs_def)
qed



text \<open>
  C15: The key of the first record ever put into a partition is not found again, after any
  further steps, although the put returned true: its offset is 0, which is what the hash index
  returns for "not found".
\<close>
theorem first_item_lost:
  assumes "kv_reached c (s, h, d)" "p < c_num c" "fst (h p ! 0)" "fst (snd (h p ! 0)) = kb" "h p \<noteq> []"
    "(kv_step c)\<^sup>*\<^sup>* (s, h, d) (s', h', d')" "mem_load (h_mem s') key 64 = Some kb" "kb \<in> c_keys c"
  shows "find_item p key s' = Some None"
proof -
  have "first_put [h p ! 0] kb = Some 0" using assms(3,4) by (simp add: first_put_def)
  moreover have "h p = [h p ! 0] @ tl (h p)" using assms(5) by (cases "h p") auto
  ultimately have "first_put (h p) kb = Some 0" using first_put_append by metis
  moreover obtain xs where "h' p = h p @ xs" using steps_history [OF assms(6), of p] by auto
  ultimately have "first_put (h' p) kb = Some 0" using first_put_append by metis
  moreover have "store_ok c (s', h', d')" using reached_steps [OF assms(6,1)] by (rule reached_ok)
  ultimately show ?thesis using find_item_ok [of c s' h' d' p key kb] assms(2,7,8) by simp
qed

theorem first_item_lost_witness:
  "\<exists>s. kv_reached demo_config (s, demo_hist [put_a], \<lambda>_. 0) \<and> find_item 0 131072 s = Some None"
proof -
  obtain s where s: "kv_reached demo_config (s, demo_hist [put_a], \<lambda>_. 0)" "demo_fits (h_mem s)" by (rule demo_one)
  show ?thesis
    using first_item_lost [OF s(1), of 0 key_a s _ _ 131072] s fits_load [OF s(2)] by (auto simp: demo_c)
qed

end
