(* ===== verification/KV_Server.thy ===== *)
theory KV_Server
  imports KV_Reached "HOL-Library.Signed_Division"
begin

text \<open>
  The server of \<open>bufferevent_single/server.cc\<close>: its read callback, which turns the bytes of one
  \<open>bufferevent_read\<close> into a call of the store and one \<open>bufferevent_write\<close>, its counters, and the
  ring buffer every connection gets. What \<open>bufferevent_read\<close> returned is the argument \<open>input\<close>;
  the bytes given to each \<open>bufferevent_write\<close> are the result. The addresses \<open>malloc\<close> returned and
  the time \<open>gettimeofday\<close> returned are arguments.
\<close>

section \<open>Constants and state\<close>

definition BUF_SIZE :: nat where "BUF_SIZE = 2048"
definition KEY_SIZE :: nat where "KEY_SIZE = 64"
definition VALUE_SIZE :: nat where "VALUE_SIZE = 256"
definition REPLY_SIZE :: nat where "REPLY_SIZE = 50"
definition NUM_BATCH :: nat where "NUM_BATCH = 1"
definition KV_ITEM_SIZE :: nat where "KV_ITEM_SIZE = KEY_SIZE + VALUE_SIZE"

lemma server_sizes [access_simps]: "KEY_SIZE = 64" "VALUE_SIZE = 256" "REPLY_SIZE = 50" "NUM_BATCH = 1" "KV_ITEM_SIZE = 320"
  "BUF_SIZE = 2048"
  by (simp_all add: KEY_SIZE_def VALUE_SIZE_def REPLY_SIZE_def NUM_BATCH_def KV_ITEM_SIZE_def BUF_SIZE_def)

type_synonym timeval = "int \<times> int"

record kv_server =
  put_cnt :: "32 word"
  get_cnt :: "32 word"
  scan_cnt :: "32 word"
  g_start :: timeval
  start_flag :: bool
  put_end :: timeval
  put_end_flag :: bool
  get_end :: timeval
  get_end_flag :: bool
  hi :: hikv

text \<open>The addresses of the buffers \<open>malloc\<close> returned in one callback.\<close>

record callback_mem =
  recv_item :: ptr
  value_buf :: ptr

section \<open>Replies\<close>

text \<open>\<open>memcpy\<close> into a buffer of the function's own, and a message in a cleared reply.\<close>

definition overwrite :: "nat \<Rightarrow> byte list \<Rightarrow> byte list \<Rightarrow> byte list" where
  "overwrite i xs buf = take i buf @ xs @ drop (i + length xs) buf"

definition message :: "string \<Rightarrow> byte list" where
  "message s = map (\<lambda>ch. of_nat (of_char ch)) s"

definition put_reply :: "bool \<Rightarrow> byte list" where
  "put_reply res =
     (let reply = replicate REPLY_SIZE 0
      in if res then overwrite 0 (message ''put success'') reply else overwrite 0 (message ''put failed'') reply)"

section \<open>The read callback\<close>

definition serve_put ::
  "(nat \<Rightarrow> ptr) \<Rightarrow> ptr \<Rightarrow> u64 list \<Rightarrow> nat \<Rightarrow> callback_mem \<Rightarrow> kv_server \<Rightarrow> (byte list list \<times> kv_server) option" where
  "serve_put mal bt_addr rest thread_id cm sv =
     do { (res, hi') \<leftarrow> hikv_insert mal bt_addr rest thread_id (recv_item cm) (recv_item cm + of_nat KEY_SIZE) (hi sv);
          Some ([put_reply res], sv\<lparr>hi := hi', put_cnt := put_cnt sv + 1\<rparr>) }"

text \<open>The loop over the keys of a batch: a miss is reported in the value's place.\<close>

fun get_loop :: "nat \<Rightarrow> callback_mem \<Rightarrow> nat \<Rightarrow> nat \<Rightarrow> hikv \<Rightarrow> hikv option" where
  "get_loop thread_id cm i 0 h = Some h"
| "get_loop thread_id cm i (Suc n) h =
     do { let val = value_buf cm + of_nat (i * VALUE_LENGTH);
          (res, h') \<leftarrow> hikv_search thread_id (recv_item cm + of_nat (i * KEY_SIZE)) val h;
          h'' \<leftarrow> (if res then Some h'
                  else do { m \<leftarrow> mem_store (h_mem h') val (replicate VALUE_LENGTH 0);
                            m \<leftarrow> mem_store m val (message ''get failed'');
                            Some (h'\<lparr>h_mem := m\<rparr>) });
          get_loop thread_id cm (i + 1) n h'' }"

definition serve_get :: "timeval \<Rightarrow> nat \<Rightarrow> callback_mem \<Rightarrow> nat \<Rightarrow> kv_server \<Rightarrow> (byte list list \<times> kv_server) option" where
  "serve_get now thread_id cm len sv =
     do { let sv = (if put_end_flag sv then sv else sv\<lparr>put_end := now, put_end_flag := True\<rparr>);
          let key_num = len div KEY_SIZE;
          h' \<leftarrow> get_loop thread_id cm 0 key_num (hi sv);
          value \<leftarrow> mem_load (h_mem h') (value_buf cm) (key_num * VALUE_LENGTH);
          Some ([value], sv\<lparr>hi := h', get_cnt := get_cnt sv + of_nat key_num\<rparr>) }"

text \<open>The values of the items found, one after the other into the reply buffer.\<close>

fun copy_items :: "ptr \<Rightarrow> nat \<Rightarrow> ptr list \<Rightarrow> nvmem \<Rightarrow> nvmem option" where
  "copy_items val i [] m = Some m"
| "copy_items val i (a # as) m =
     do { v \<leftarrow> mem_load m (a + of_nat KEY_LENGTH) VALUE_LENGTH;
          m' \<leftarrow> mem_store m (val + of_nat (i * VALUE_LENGTH)) v;
          copy_items val (i + 1) as m' }"

text \<open>
  The array for the addresses holds \<open>scan_range\<close> of them; a scan that finds more writes past its
  end (\<open>None\<close>). When it finds exactly as many, the reply stays all zero.
\<close>

definition serve_scan :: "timeval \<Rightarrow> callback_mem \<Rightarrow> u64 \<Rightarrow> kv_server \<Rightarrow> (byte list list \<times> kv_server) option" where
  "serve_scan now cm scan_range sv =
     do { let sv = (if get_end_flag sv then sv else sv\<lparr>get_end := now, get_end_flag := True\<rparr>);
          let k1 = recv_item cm;
          let k2 = recv_item cm + of_nat KEY_SIZE;
          b1 \<leftarrow> mem_load (h_mem (hi sv)) k1 KEY_SIZE;
          b2 \<leftarrow> mem_load (h_mem (hi sv)) k2 KEY_SIZE;
          found \<leftarrow> (if memcmp b1 b2 > 0 then range_scan k2 k1 (hi sv) else range_scan k1 k2 (hi sv));
          if unat scan_range < length found then None
          else do {
            let total_scan_count = sint (of_nat (length found) :: 32 word);
            let n = unat ((scan_range - 1) * of_nat VALUE_LENGTH);
            m \<leftarrow> mem_store (h_mem (hi sv)) (value_buf cm) (replicate n 0);
            m \<leftarrow> (if word_of_int total_scan_count \<ge> scan_range then Some m
                  else copy_items (value_buf cm) 0 (take (nat total_scan_count) found) m);
            reply \<leftarrow> mem_load m (value_buf cm) n;
            Some ([reply], sv\<lparr>hi := (hi sv)\<lparr>h_mem := m\<rparr>, scan_cnt := scan_cnt sv + 1\<rparr>) } }"

text \<open>\<open>input\<close> is what one \<open>bufferevent_read\<close> of up to \<open>BUF_SIZE\<close> bytes returned.\<close>

definition read_cb ::
  "(nat \<Rightarrow> ptr) \<Rightarrow> ptr \<Rightarrow> u64 list \<Rightarrow> timeval \<Rightarrow> nat \<Rightarrow> u64 \<Rightarrow> callback_mem \<Rightarrow> byte list \<Rightarrow> kv_server \<Rightarrow>
   (byte list list \<times> kv_server) option" where
  "read_cb mal bt_addr rest now thread_id scan_range cm input sv =
     do { let sv = (if start_flag sv then sv else sv\<lparr>g_start := now, start_flag := True\<rparr>);
          m \<leftarrow> mem_store (h_mem (hi sv)) (recv_item cm) input;
          let sv = sv\<lparr>hi := (hi sv)\<lparr>h_mem := m\<rparr>\<rparr>;
          let len = length input;
          if len = KV_ITEM_SIZE then serve_put mal bt_addr rest thread_id cm sv
          else if len = NUM_BATCH * KEY_SIZE then serve_get now thread_id cm len sv
          else if len = 2 * KEY_SIZE then serve_scan now cm scan_range sv
          else Some ([], sv) }"

section \<open>The ring buffer\<close>

record ring_buf =
  buf_start :: ptr
  buf_end :: ptr
  buf_read :: int
  buf_write :: int
  buf_len :: int

definition init_ring_buff :: "ptr \<Rightarrow> ring_buf" where
  "init_ring_buff mem =
     \<lparr>buf_start = mem, buf_end = mem, buf_read = 0, buf_write = 0, buf_len = int (BUF_SIZE div KV_ITEM_SIZE * KV_ITEM_SIZE)\<rparr>"

definition ring_buff_used :: "ring_buf \<Rightarrow> int" where
  "ring_buff_used b = (if buf_read b = buf_write b then 0 else (buf_write b + buf_len b - buf_read b) smod buf_len b)"

definition ring_buff_free :: "ring_buf \<Rightarrow> int" where
  "ring_buff_free b =
     (if buf_read b = buf_write b then buf_len b - int KV_ITEM_SIZE
      else buf_len b - int KV_ITEM_SIZE - ring_buff_used b)"

definition ring_buff_to_write :: "ring_buf \<Rightarrow> int" where
  "ring_buff_to_write b =
     (if buf_write b \<ge> buf_read b
      then (if buf_read b = 0 then buf_len b - buf_write b - int KV_ITEM_SIZE else buf_len b - buf_write b)
      else buf_read b - buf_write b - int KV_ITEM_SIZE)"

end
