(* ===== verification/KV_ServerRun.thy ===== *)
theory KV_ServerRun
  imports KV_Server
begin

text \<open>
  What the read callback does to a reached store, for each kind of request: a put, a get, a scan,
  and anything else.
\<close>

section \<open>Buffers of the callback\<close>

lemma load_stored:
  assumes "mem_store m a bs = Some m'" "unat a + length bs \<le> 2 ^ 64"
  shows "mem_load m' a (length bs) = Some bs"
proof -
  have bts: "bytes m' (a + of_nat j) = Some (bs ! j)" if "j < length bs" for j
  proof -
    have "unat (a + of_nat j) = unat a + j" by (rule unat_offset [OF assms(2) that])
    moreover have "unat ((a + of_nat j) - a) = j"
    proof -
      have "j < 2 ^ 64" using that assms(2) by linarith
      then show ?thesis by (simp add: unat_of_nat take_bit_nat_eq_self)
    qed
    ultimately show ?thesis using assms(1) that
      by (auto simp: mem_store_def write_bytes_def in_range_def split: if_splits)
  qed
  then have "mapped m' a (length bs)" by (simp add: mapped_less)
  then have "mem_load m' a (length bs) = Some (map (\<lambda>i. the (bytes m' (a + of_nat i))) [0..<length bs])" by (simp add: mem_load_def)
  also have "map (\<lambda>i. the (bytes m' (a + of_nat i))) [0..<length bs] = bs"
    by (rule nth_equalityI) (simp_all add: bts)
  finally show ?thesis .
qed

lemma mapped_stored_mono: "mem_store m a bs = Some m' \<Longrightarrow> mapped m b n \<Longrightarrow> mapped m' b n"
  by (auto simp: mem_store_def mapped_def write_bytes_def in_range_def split: if_splits)

lemma buffer_store:
  assumes "buffer_ok c m a n" "length bs \<le> n"
  obtains m' where "mem_store m a bs = Some m'" "buffer_ok c m a (length bs)"
proof -
  have "buffer_ok c m a (length bs)"
    using assms mapped_sub [of a n 0 "length bs" m] by (auto simp: buffer_ok_def apart_def)
  then show ?thesis using that by (auto simp: buffer_ok_def mem_store_def)
qed

lemma buffer_stored: "mem_store m a bs = Some m' \<Longrightarrow> buffer_ok c m b n \<Longrightarrow> buffer_ok c m' b n"
  by (auto simp: buffer_ok_def dest: mapped_stored_mono)

lemma buffer_sub:
  assumes "buffer_ok c m a n" "k + j \<le> n" "k < n"
  shows "buffer_ok c m (a + of_nat k) j"
proof -
  have B: "unat a + n \<le> 2 ^ 64" "mapped m a n" "\<And>p. p < c_num c \<Longrightarrow> apart a n (c_start c p) (320 * c_items c)"
    using assms(1) by (auto simp: buffer_ok_def)
  have u: "unat (a + of_nat k) = unat a + k" by (rule unat_offset [OF B(1) assms(3)])
  have "apart (a + of_nat k) j (c_start c p) (320 * c_items c)" if "p < c_num c" for p
    using B(3) [OF that] assms(2) unfolding apart_def u by linarith
  then show ?thesis using mapped_sub [OF B(1) assms(2) B(2)] B(1) assms(2) u by (simp add: buffer_ok_def)
qed

text \<open>What a write to a buffer leaves of the store.\<close>

lemma reached_write:
  assumes "kv_reached c (s, h, d)" "same_logs c (h_mem s) m'"
  shows "kv_reached c (s\<lparr>h_mem := m'\<rparr>, h, d)"
  by (rule reached_step [OF assms(1) kv_step.other_write [OF assms(2)]])

lemma reached_store:
  assumes "kv_reached c (s, h, d)" "buffer_ok c (h_mem s) a n" "length bs \<le> n"
  obtains m' where "mem_store (h_mem s) a bs = Some m'" "kv_reached c (s\<lparr>h_mem := m'\<rparr>, h, d)"
    "mem_load m' a (length bs) = Some bs"
proof -
  have ly: "layout c" using reached_ok [OF assms(1)] by (simp add: store_ok_def)
  obtain m' where m': "mem_store (h_mem s) a bs = Some m'" "buffer_ok c (h_mem s) a (length bs)"
    by (rule buffer_store [OF assms(2,3)])
  have "same_logs c (h_mem s) m'" by (rule store_same_logs [OF m' ly])
  then show ?thesis using that m' reached_write [OF assms(1)] load_stored [OF m'(1)] by (auto simp: buffer_ok_def)
qed

section \<open>Requests\<close>

definition queue_room :: "history \<Rightarrow> (nat \<Rightarrow> nat) \<Rightarrow> nat \<Rightarrow> bool" where
  "queue_room h d p \<longleftrightarrow> length (h p) - d p < MAX_QUEUE_SIZE"

lemma serve_put_ok:
  assumes r: "kv_reached c (hi sv, h, d)" and p: "p < c_num c" "length (h p) < c_items c" "queue_room h d p"
    and buf: "buffer_ok c (h_mem (hi sv)) (recv_item cm) 320" and k: "length k = 64" "k \<in> c_keys c" and v: "length v = 256"
    and rest: "length rest = 6"
  shows "\<exists>res sv'. read_cb (c_mal c) bt_addr rest now p sr cm (k @ v) sv = Some ([put_reply res], sv') \<and>
    kv_reached c (hi sv', h(p := h p @ [(res, k, v)]), d) \<and> put_cnt sv' = put_cnt sv + 1 \<and>
    get_cnt sv' = get_cnt sv \<and> scan_cnt sv' = scan_cnt sv"
proof -
  have l: "length (k @ v) \<le> 320" "length (k @ v) = 320" using k v by simp_all
  obtain m where m: "mem_store (h_mem (hi sv)) (recv_item cm) (k @ v) = Some m" "kv_reached c ((hi sv)\<lparr>h_mem := m\<rparr>, h, d)"
    "mem_load m (recv_item cm) (length (k @ v)) = Some (k @ v)"
    by (rule reached_store [OF r buf l(1)])
  have buf': "buffer_ok c m (recv_item cm) 320" by (rule buffer_stored [OF m(1) buf])
  have nw: "unat (recv_item cm) + 320 \<le> 2 ^ 64" using buf by (simp add: buffer_ok_def)
  have ld: "mem_load m (recv_item cm) 320 = Some (k @ v)" using m(3) l(2) by simp
  have ldk: "mem_load m (recv_item cm) 64 = Some k" using load_sub [OF nw _ ld, of 0 64] k(1) by simp
  have ldv: "mem_load m (recv_item cm + 64) 256 = Some v" using load_sub [OF nw _ ld, of 64 256] k(1) v by simp
  have b1: "buffer_ok c m (recv_item cm) 64" using buffer_sub [OF buf', of 0 64] by simp
  have b2: "buffer_ok c m (recv_item cm + 64) 256" using buffer_sub [OF buf', of 64 256] by simp
  have "\<exists>res s'. hikv_insert (c_mal c) bt_addr rest p (recv_item cm) (recv_item cm + 64) ((hi sv)\<lparr>h_mem := m\<rparr>) = Some (res, s') \<and>
    kv_reached c (s', h(p := h p @ [(res, k, v)]), d)"
    by (rule reached_put [where h = h and d = d, OF m(2) p(1,2)])
      (use b1 b2 ldk ldv k p(3) rest in \<open>simp_all add: queue_room_def\<close>)
  then obtain res s' where S: "hikv_insert (c_mal c) bt_addr rest p (recv_item cm) (recv_item cm + 64) ((hi sv)\<lparr>h_mem := m\<rparr>) = Some (res, s')"
    "kv_reached c (s', h(p := h p @ [(res, k, v)]), d)" by blast
  show ?thesis using m(1) S l(2) by (auto simp: read_cb_def serve_put_def access_simps Let_def)
qed

definition get_miss :: "byte list" where
  "get_miss = overwrite 0 (message ''get failed'') (replicate VALUE_LENGTH 0)"

definition get_reply :: "(bool \<times> byte list \<times> byte list) list \<Rightarrow> byte list \<Rightarrow> byte list" where
  "get_reply hs k = (case first_put hs k of None \<Rightarrow> get_miss | Some i \<Rightarrow> if i = 0 then get_miss else snd (snd (hs ! i)))"

lemma stored_bytes:
  assumes "mem_store m a bs = Some m'" "unat a + n \<le> 2 ^ 64" "length bs \<le> n" "j < n"
  shows "bytes m' (a + of_nat j) = (if j < length bs then Some (bs ! j) else bytes m (a + of_nat j))"
proof -
  have "unat (a + of_nat j) = unat a + j" by (rule unat_offset [OF assms(2,4)])
  moreover have "unat ((a + of_nat j) - a) = j"
  proof -
    have "j < 2 ^ 64" using assms(2,4) by linarith
    then show ?thesis by (simp add: unat_of_nat take_bit_nat_eq_self)
  qed
  ultimately show ?thesis using assms(1)
    by (auto simp: mem_store_def write_bytes_def in_range_def split: if_splits)
qed

lemma load_bytes:
  assumes "\<And>j. j < length bs \<Longrightarrow> bytes m (a + of_nat j) = Some (bs ! j)"
  shows "mem_load m a (length bs) = Some bs"
proof -
  have "mapped m a (length bs)" using assms by (simp add: mapped_less)
  then have "mem_load m a (length bs) = Some (map (\<lambda>i. the (bytes m (a + of_nat i))) [0..<length bs])" by (simp add: mem_load_def)
  also have "map (\<lambda>i. the (bytes m (a + of_nat i))) [0..<length bs] = bs"
    by (rule nth_equalityI) (simp_all add: assms)
  finally show ?thesis .
qed

lemma load_overwritten:
  assumes "mem_store m a xs = Some m1" "mem_store m1 a ys = Some m2" "length ys \<le> length xs" "unat a + length xs \<le> 2 ^ 64"
  shows "mem_load m2 a (length xs) = Some (overwrite 0 ys xs)"
proof -
  have len: "length (overwrite 0 ys xs) = length xs" using assms(3) by (simp add: overwrite_def)
  have "bytes m2 (a + of_nat j) = Some (overwrite 0 ys xs ! j)" if "j < length xs" for j
    using stored_bytes [OF assms(2,4,3) that] stored_bytes [OF assms(1,4) order_refl that] that
    by (simp add: overwrite_def nth_append)
  then show ?thesis using load_bytes [of "overwrite 0 ys xs" m2 a] len by simp
qed

lemma length_get_failed: "length (message ''get failed'') = 10"
  by (simp add: message_def)

lemma get_loop_one:
  "get_loop p cm 0 1 s =
     do { (res, h') \<leftarrow> hikv_search p (recv_item cm) (value_buf cm) s;
          if res then Some h'
          else do { m \<leftarrow> mem_store (h_mem h') (value_buf cm) (replicate VALUE_LENGTH 0);
                    m \<leftarrow> mem_store m (value_buf cm) (message ''get failed'');
                    Some (h'\<lparr>h_mem := m\<rparr>) } }"
  by (simp add: Let_def split: Option.bind_splits)

lemma get_once:
  assumes r: "kv_reached c (s, h, d)" and p: "p < c_num c" and buf: "buffer_ok c (h_mem s) (value_buf cm) 256"
    and k: "mem_load (h_mem s) (recv_item cm) 64 = Some k" "k \<in> c_keys c"
  shows "\<exists>s'. get_loop p cm 0 1 s = Some s' \<and> kv_reached c (s', h, d) \<and> mem_load (h_mem s') (value_buf cm) 256 = Some (get_reply (h p) k)"
proof -
  note G = reached_get [OF r p k buf]
  let ?lost = "case first_put (h p) k of None \<Rightarrow> True | Some i \<Rightarrow> i = 0"
  show ?thesis
  proof (cases ?lost)
    case True
    have S: "hikv_search p (recv_item cm) (value_buf cm) s = Some (False, s)" using G True by (auto split: option.splits)
    have gr: "get_reply (h p) k = get_miss" using True by (auto simp: get_reply_def split: option.splits)
    have l: "length (replicate VALUE_LENGTH (0 :: byte)) \<le> 256" "length (message ''get failed'') \<le> 256"
      by (simp_all add: access_simps length_get_failed)
    obtain m1 where m1: "mem_store (h_mem s) (value_buf cm) (replicate VALUE_LENGTH 0) = Some m1" "kv_reached c (s\<lparr>h_mem := m1\<rparr>, h, d)"
      by (rule reached_store [OF r buf l(1)])
    have buf1: "buffer_ok c (h_mem (s\<lparr>h_mem := m1\<rparr>)) (value_buf cm) 256" using buffer_stored [OF m1(1) buf] by simp
    obtain m2 where m2: "mem_store m1 (value_buf cm) (message ''get failed'') = Some m2" "kv_reached c (s\<lparr>h_mem := m2\<rparr>, h, d)"
      by (rule reached_store [OF m1(2) buf1 l(2)]) simp
    have "mem_load m2 (value_buf cm) (length (replicate VALUE_LENGTH (0 :: byte))) = Some get_miss"
      unfolding get_miss_def
      by (rule load_overwritten [OF m1(1) m2(1)]) (use buf in \<open>simp_all add: length_get_failed access_simps buffer_ok_def\<close>)
    then have "mem_load m2 (value_buf cm) 256 = Some get_miss" by (simp add: access_simps)
    then show ?thesis using S m1(1) m2 gr unfolding get_loop_one by simp
  next
    case False
    then obtain i where i: "first_put (h p) k = Some i" "i \<noteq> 0" by (auto split: option.splits)
    obtain s' where S: "hikv_search p (recv_item cm) (value_buf cm) s = Some (True, s')" "kv_reached c (s', h, d)"
      "mem_load (h_mem s') (value_buf cm) 256 = Some (snd (snd (h p ! i)))"
      using G i by auto
    then show ?thesis using i unfolding get_loop_one by (simp add: get_reply_def)
  qed
qed

lemma serve_get_ok:
  assumes r: "kv_reached c (hi sv, h, d)" and p: "p < c_num c"
    and buf: "buffer_ok c (h_mem (hi sv)) (recv_item cm) 64" "buffer_ok c (h_mem (hi sv)) (value_buf cm) 256"
    and k: "length k = 64" "k \<in> c_keys c"
  shows "\<exists>sv'. read_cb mal bt_addr rest now p sr cm k sv = Some ([get_reply (h p) k], sv') \<and>
    kv_reached c (hi sv', h, d) \<and> put_cnt sv' = put_cnt sv \<and> get_cnt sv' = get_cnt sv + 1 \<and> scan_cnt sv' = scan_cnt sv"
proof -
  have l: "length k \<le> 64" using k by simp
  obtain m where m: "mem_store (h_mem (hi sv)) (recv_item cm) k = Some m" "kv_reached c ((hi sv)\<lparr>h_mem := m\<rparr>, h, d)"
    "mem_load m (recv_item cm) (length k) = Some k"
    by (rule reached_store [OF r buf(1) l])
  have b: "buffer_ok c (h_mem ((hi sv)\<lparr>h_mem := m\<rparr>)) (value_buf cm) 256" using buffer_stored [OF m(1) buf(2)] by simp
  have ld: "mem_load (h_mem ((hi sv)\<lparr>h_mem := m\<rparr>)) (recv_item cm) 64 = Some k" using m(3) k(1) by simp
  obtain s' where S: "get_loop p cm 0 1 ((hi sv)\<lparr>h_mem := m\<rparr>) = Some s'" "kv_reached c (s', h, d)"
    "mem_load (h_mem s') (value_buf cm) 256 = Some (get_reply (h p) k)"
    using get_once [OF m(2) p b ld k(2)] by blast
  have one: "get_loop p cm 0 (Suc 0) ((hi sv)\<lparr>h_mem := m\<rparr>) = Some s'" using S(1) by simp
  show ?thesis using m(1) one S(2,3) k(1)
    by (auto simp: read_cb_def serve_get_def access_simps Let_def simp del: get_loop.simps)
qed

section \<open>Scans\<close>

definition moved_pairs :: "config \<Rightarrow> history \<Rightarrow> (nat \<Rightarrow> nat) \<Rightarrow> nat \<Rightarrow> (entry_key_t \<times> byte list) multiset" where
  "moved_pairs c h d p = mset (map (\<lambda>i. (Key (fst (snd (h p ! i))), snd (snd (h p ! i)))) [0..<d p])"

definition scan_reply :: "nat \<Rightarrow> (entry_key_t \<times> byte list) list \<Rightarrow> byte list" where
  "scan_reply r kvs =
     (if r \<le> length kvs then replicate ((r - 1) * 256) 0
      else overwrite 0 (concat (map snd kvs)) (replicate ((r - 1) * 256) 0))"

lemma length_overwrite [simp]: "i + length xs \<le> length b \<Longrightarrow> length (overwrite i xs b) = length b"
  by (simp add: overwrite_def)

lemma overwrite_append:
  "i + length xs + length ys \<le> length b \<Longrightarrow> overwrite (i + length xs) ys (overwrite i xs b) = overwrite i (xs @ ys) b"
  by (simp add: overwrite_def ac_simps)

lemma overwrite_Nil [simp]: "overwrite i [] b = b"
  by (simp add: overwrite_def)

lemma load_patched:
  assumes "mem_load m a n = Some b" "mem_store m (a + of_nat k) v = Some m'" "k + length v \<le> n" "unat a + n \<le> 2 ^ 64"
  shows "mem_load m' a n = Some (overwrite k v b)"
proof (cases "v = []")
  case True
  then show ?thesis using assms(1,2) load_cong(1) [of n m' a m]
    by (auto simp: mem_store_def write_bytes_def in_range_def)
next
  case False
  have kn: "k < n" using False assms(3) by (cases v) auto
  have lb: "length b = n" using assms(1) by (rule length_load)
  have u: "unat (a + of_nat k) = unat a + k" by (rule unat_offset [OF assms(4) kn])
  have nw: "unat (a + of_nat k) + (n - k) \<le> 2 ^ 64" using u assms(4) kn by simp
  have old: "bytes m (a + of_nat j) = Some (b ! j)" if "j < n" for j
    using assms(1) that by (auto simp: mem_load_def mapped_less split: if_splits)
  have new: "bytes m' (a + of_nat j) = Some (overwrite k v b ! j)" if j: "j < n" for j
  proof (cases "k \<le> j")
    case True
    have e: "a + of_nat k + of_nat (j - k) = a + of_nat j" using True by (simp add: of_nat_diff)
    have "bytes m' (a + of_nat j) = (if j - k < length v then Some (v ! (j - k)) else bytes m (a + of_nat j))"
      using stored_bytes [OF assms(2) nw, of "j - k"] assms(3) j True unfolding e by simp
    then show ?thesis using old [OF j] True j lb kn by (auto simp: overwrite_def nth_append)
  next
    case False
    have "unat (a + of_nat j) = unat a + j" by (rule unat_offset [OF assms(4) j])
    then have "\<not> in_range (a + of_nat k) (length v) (a + of_nat j)"
      using False u assms(3,4) by (subst in_range_iff) auto
    then have "bytes m' (a + of_nat j) = bytes m (a + of_nat j)"
      using assms(2) by (auto simp: mem_store_def write_bytes_def split: if_splits)
    then show ?thesis using old [OF j] False lb kn by (simp add: overwrite_def nth_append)
  qed
  have l: "length (overwrite k v b) = n" using lb assms(3) by simp
  show ?thesis using load_bytes [of "overwrite k v b" m' a] new unfolding l by blast
qed

lemma item_value_kept:
  assumes "layout c" "same_logs c m m'" "p < c_num c" "i < c_items c"
  shows "mem_load m' (item c p i + 64) 256 = mem_load m (item c p i + 64) 256"
proof (rule load_cong(1))
  fix j :: nat assume j: "j < 256"
  have e: "item c p i + 64 + of_nat j = item c p i + of_nat (64 + j)" by (simp add: add.assoc)
  have "64 + j < 320" using j by simp
  then show "bytes m' (item c p i + 64 + of_nat j) = bytes m (item c p i + 64 + of_nat j)"
    using assms(2,3) item_bytes [OF assms(1,3,4)] unfolding e same_logs_def by blast
qed

lemma same_logs_trans: "same_logs c m m1 \<Longrightarrow> same_logs c m1 m2 \<Longrightarrow> same_logs c m m2"
  by (simp add: same_logs_def)

lemma copy_items_ok:
  assumes "layout c" "\<forall>a \<in> set as. \<exists>p i. p < c_num c \<and> i < c_items c \<and> a = item c p i"
    "\<forall>a \<in> set as. mem_load m (a + 64) 256 = Some (vl a)" "buffer_ok c m val n" "(i + length as) * 256 \<le> n"
    "mem_load m val n = Some b"
  shows "\<exists>m'. copy_items val i as m = Some m' \<and> same_logs c m m' \<and>
     mem_load m' val n = Some (overwrite (i * 256) (concat (map vl as)) b)"
  using assms(2-)
proof (induction as arbitrary: i m b)
  case Nil
  then show ?case by (simp add: same_logs_def)
next
  case (Cons a as)
  have v: "mem_load m (a + 64) 256 = Some (vl a)" using Cons.prems(2) by simp
  then have lv: "length (vl a) = 256" by (rule length_load)
  have le: "i * 256 + 256 \<le> n" "(Suc i + length as) * 256 \<le> n" using Cons.prems(4) by simp_all
  have nw: "unat val + n \<le> 2 ^ 64" using Cons.prems(3) by (simp add: buffer_ok_def)
  have bs: "buffer_ok c m (val + of_nat (i * 256)) (length (vl a))"
    using buffer_sub [OF Cons.prems(3), of "i * 256" 256] le(1) lv by simp
  obtain m1 where m1: "mem_store m (val + of_nat (i * 256)) (vl a) = Some m1"
    using bs by (auto simp: buffer_ok_def mem_store_def)
  have sl: "same_logs c m m1" by (rule store_same_logs [OF m1 bs assms(1)])
  have ld: "mem_load m1 val n = Some (overwrite (i * 256) (vl a) b)"
    by (rule load_patched [OF Cons.prems(5) m1 _ nw]) (use le(1) lv in simp)
  have vs: "\<forall>x \<in> set as. mem_load m1 (x + 64) 256 = Some (vl x)"
  proof
    fix x assume x: "x \<in> set as"
    obtain p j where "p < c_num c" "j < c_items c" "x = item c p j" using Cons.prems(1) x by auto
    then show "mem_load m1 (x + 64) 256 = Some (vl x)" using item_value_kept [OF assms(1) sl] Cons.prems(2) x by simp
  qed
  have "\<exists>m'. copy_items val (Suc i) as m1 = Some m' \<and> same_logs c m1 m' \<and>
      mem_load m' val n = Some (overwrite (Suc i * 256) (concat (map vl as)) (overwrite (i * 256) (vl a) b))"
    by (rule Cons.IH) (use Cons.prems(1) vs buffer_stored [OF m1 Cons.prems(3)] le(2) ld in auto)
  then obtain m' where m': "copy_items val (Suc i) as m1 = Some m'" "same_logs c m1 m'"
     "mem_load m' val n = Some (overwrite (Suc i * 256) (concat (map vl as)) (overwrite (i * 256) (vl a) b))" by blast
  have lc: "length (concat (map vl as)) = 256 * length as"
  proof -
    have "\<forall>x \<in> set as. length (vl x) = 256" using Cons.prems(2) length_load by auto
    then show ?thesis by (induction as) auto
  qed
  have lb: "length b = n" using Cons.prems(5) by (rule length_load)
  have "overwrite (Suc i * 256) (concat (map vl as)) (overwrite (i * 256) (vl a) b) = overwrite (i * 256) (vl a @ concat (map vl as)) b"
  proof -
    have "i * 256 + length (vl a) + length (concat (map vl as)) \<le> length b" using lv lc lb Cons.prems(4) by simp
    from overwrite_append [OF this] show ?thesis using lv by (simp add: add.commute)
  qed
  then show ?case using v m1 m' same_logs_trans [OF sl m'(2)] by (simp add: access_simps)
qed

lemma memcmp_keys: "length a = 64 \<Longrightarrow> length b = 64 \<Longrightarrow> 0 < memcmp a b \<longleftrightarrow> Key b < Key a"
  using memcmp_flip [of b a] by (simp add: less_entry_key_t_def key_lt_def access_simps Key_inverse)

lemma items_fit:
  assumes ok: "store_ok c (s, h, d)" and e: "e \<in> set (records_of (h_bt s))"
  obtains p i where "p < c_num c" "i < c_items c" "i < d p" "e = (Key (fst (snd (h p ! i))), item c p i)"
    "mem_load (h_mem s) (item c p i + 64) 256 = Some (snd (snd (h p ! i)))"
proof -
  obtain p i where pi: "p < c_num c" "i < d p" "i < length (h p)" "e = (Key (fst (snd (h p ! i))), item c p i)"
    by (rule records_places [OF ok e])
  moreover have "length (h p) \<le> c_items c" using ok pi(1) by (auto simp: store_ok_def log_part_def)
  moreover have "mem_load (h_mem s) (item c p i + 64) 256 = Some (snd (snd (h p ! i)))"
    using ok pi(1,3) by (simp add: store_ok_def mem_part_def)
  moreover have "i < c_items c" using calculation(3,5) by simp
  ultimately show ?thesis using that by blast
qed

lemma scan_pairs:
  assumes ok: "store_ok c (s, h, d)" and n: "0 < c_num c"
    and vl: "vl = (\<lambda>a. the (mem_load (h_mem s) (a + 64) 256))"
    and kvs: "kvs = map (\<lambda>(k, a). (k, vl a)) (filter (\<lambda>e. lo < fst e \<and> fst e < up) (records_of (h_bt s)))"
  shows "sorted (map fst kvs)"
    "mset kvs = filter_mset (\<lambda>e. lo < fst e \<and> fst e < up) (\<Sum>p < c_num c. moved_pairs c h d p)"
    "between lo up (records_of (h_bt s)) = map snd (filter (\<lambda>e. lo < fst e \<and> fst e < up) (records_of (h_bt s)))"
    "map snd kvs = map vl (between lo up (records_of (h_bt s)))"
proof -
  let ?P = "\<lambda>e :: entry_key_t \<times> _. lo < fst e \<and> fst e < up" and ?R = "records_of (h_bt s)"
  let ?g = "\<lambda>(k, a). (k, vl a)"
  have T: "tree_ok (h_bt s)" "mset ?R = (\<Sum>p < c_num c. moved_recs c h d p)"
    using ok n by (auto simp: store_ok_def tree_part_def tree_usable_def)
  have f: "map fst kvs = map fst (filter ?P ?R)" unfolding kvs by (simp add: case_prod_beta comp_def)
  show "sorted (map fst kvs)" unfolding f using records_sorted [OF T(1)] by (rule sorted_filter)
  show bt: "between lo up ?R = map snd (filter ?P ?R)" by (simp add: between_def)
  show "map snd kvs = map vl (between lo up ?R)" unfolding kvs bt by (simp add: case_prod_beta comp_def)
  have img: "image_mset ?g (moved_recs c h d p) = moved_pairs c h d p" if p: "p < c_num c" for p
  proof -
    have "vl (item c p i) = snd (snd (h p ! i))" if i: "i < d p" for i
    proof -
      have "(Key (fst (snd (h p ! i))), item c p i) \<in># mset ?R"
        unfolding T(2) moved_set using p i by blast
      moreover have "d p \<le> length (h p)" using ok p by (auto simp: store_ok_def queue_part_def)
      ultimately have "mem_load (h_mem s) (item c p i + 64) 256 = Some (snd (snd (h p ! i)))"
        using ok p i by (simp add: store_ok_def mem_part_def)
      then show ?thesis unfolding vl by simp
    qed
    then have e: "map (\<lambda>i. (Key (fst (snd (h p ! i))), vl (item c p i))) [0..<d p]
        = map (\<lambda>i. (Key (fst (snd (h p ! i))), snd (snd (h p ! i)))) [0..<d p]" by simp
    show ?thesis unfolding moved_recs_def moved_pairs_def e [symmetric] mset_map [symmetric] map_map
      by (simp only: comp_def case_prod_conv)
  qed
  have "image_mset ?g (\<Sum>p < c_num c. moved_recs c h d p) = (\<Sum>p < c_num c. moved_pairs c h d p)"
  proof -
    have "image_mset ?g (\<Sum>p < n. moved_recs c h d p) = (\<Sum>p < n. moved_pairs c h d p)" if "n \<le> c_num c" for n
      using that by (induction n) (simp_all add: img)
    then show ?thesis by blast
  qed
  moreover have "mset kvs = filter_mset ?P (image_mset ?g (mset ?R))"
    unfolding kvs by (simp add: filter_mset_image_mset case_prod_beta)
  ultimately show "mset kvs = filter_mset ?P (\<Sum>p < c_num c. moved_pairs c h d p)" using T(2) by simp
qed

lemma scan_words:
  assumes "0 < unat (sr :: u64)" "unat sr < 2 ^ 31"
  shows "unat ((sr - 1) * 256) = (unat sr - 1) * 256"
proof -
  have one: "(1 :: u64) \<le> sr" using assms(1) by (simp add: word_le_nat_alt)
  have s: "unat (sr - 1) = unat sr - 1" using unat_sub [OF one] by simp
  moreover have "(unat sr - 1) * 256 < 2 ^ 64"
  proof -
    have "(unat sr - 1) * 256 \<le> 2 ^ 31 * 256" using assms(2) by (intro mult_le_mono) auto
    also have "(2 :: nat) ^ 31 * 256 < 2 ^ 64" by simp
    finally show ?thesis .
  qed
  ultimately have "unat (sr - 1) * unat (256 :: u64) < 2 ^ 64" by simp
  then have "unat ((sr - 1) * 256) = unat (sr - 1) * unat (256 :: u64)" by (subst unat_mult_lem [symmetric]) simp
  then show ?thesis using s by simp
qed

lemma scan_count:
  assumes "n \<le> unat (sr :: u64)" "unat sr < 2 ^ 31"
  shows "sint (of_nat n :: 32 word) = int n" "word_of_int (int n) \<ge> sr \<longleftrightarrow> unat sr \<le> n"
proof -
  have n: "n < 2 ^ 31" using assms by linarith
  then have "uint (of_nat n :: 32 word) = int n" by (simp add: unsigned_of_nat take_bit_nat_eq_self)
  then show "sint (of_nat n :: 32 word) = int n" using n by (simp add: sint_uint signed_take_bit_int_eq_self)
  have "n < 2 ^ 64" using n by (rule order.strict_trans) simp
  then have "unat (word_of_int (int n) :: u64) = n" by (simp add: unat_of_nat take_bit_nat_eq_self)
  then show "word_of_int (int n) \<ge> sr \<longleftrightarrow> unat sr \<le> n" by (simp add: word_le_nat_alt)
qed

lemma serve_scan_ok:
  assumes r: "kv_reached c (hi sv, h, d)" and sr: "0 < unat sr" "unat sr < 2 ^ 31"
    and buf: "buffer_ok c (h_mem (hi sv)) (recv_item cm) 128" "buffer_ok c (h_mem (hi sv)) (value_buf cm) ((unat sr - 1) * 256)"
    and k: "length ka = 64" "length kb = 64"
  shows "\<exists>kvs. sorted (map fst kvs) \<and>
    mset kvs = filter_mset (\<lambda>e. min (Key ka) (Key kb) < fst e \<and> fst e < max (Key ka) (Key kb)) (\<Sum>p < c_num c. moved_pairs c h d p) \<and>
    (if unat sr < length kvs then read_cb mal bt_addr rest now p sr cm (ka @ kb) sv = None
     else \<exists>sv'. read_cb mal bt_addr rest now p sr cm (ka @ kb) sv = Some ([scan_reply (unat sr) kvs], sv') \<and>
       kv_reached c (hi sv', h, d) \<and> put_cnt sv' = put_cnt sv \<and> get_cnt sv' = get_cnt sv \<and> scan_cnt sv' = scan_cnt sv + 1)"
proof -
  have l: "length (ka @ kb) \<le> 128" "length (ka @ kb) = 128" using k by simp_all
  obtain m where m: "mem_store (h_mem (hi sv)) (recv_item cm) (ka @ kb) = Some m" "kv_reached c ((hi sv)\<lparr>h_mem := m\<rparr>, h, d)"
    "mem_load m (recv_item cm) (length (ka @ kb)) = Some (ka @ kb)"
    by (rule reached_store [OF r buf(1) l(1)])
  let ?s = "(hi sv)\<lparr>h_mem := m\<rparr>" and ?lo = "min (Key ka) (Key kb)" and ?up = "max (Key ka) (Key kb)"
  have ok: "store_ok c (?s, h, d)" by (rule reached_ok [OF m(2)])
  have n0: "0 < c_num c" by (rule reached_num [OF r])
  have ly: "layout c" using ok by (simp add: store_ok_def)
  have nw: "unat (recv_item cm) + 128 \<le> 2 ^ 64" using buf by (simp add: buffer_ok_def)
  have ld: "mem_load m (recv_item cm) 128 = Some (ka @ kb)" using m(3) l(2) by simp
  have ld1: "mem_load m (recv_item cm) 64 = Some ka" using load_sub [OF nw _ ld, of 0 64] k by simp
  have ld2: "mem_load m (recv_item cm + 64) 64 = Some kb" using load_sub [OF nw _ ld, of 64 64] k by simp
  have rs: "(if memcmp ka kb > 0 then range_scan (recv_item cm + 64) (recv_item cm) ?s else range_scan (recv_item cm) (recv_item cm + 64) ?s)
      = Some (between ?lo ?up (records_of (h_bt ?s)))"
  proof -
    have mc: "memcmp ka kb > 0 \<longleftrightarrow> Key kb < Key ka" by (rule memcmp_keys [OF k])
    have fw: "range_scan (recv_item cm) (recv_item cm + 64) ?s = Some (between (Key ka) (Key kb) (records_of (h_bt ?s)))"
      by (rule scan_ok [OF ok n0]) (use ld1 ld2 in simp_all)
    have bw: "range_scan (recv_item cm + 64) (recv_item cm) ?s = Some (between (Key kb) (Key ka) (records_of (h_bt ?s)))"
      by (rule scan_ok [OF ok n0]) (use ld1 ld2 in simp_all)
    show ?thesis
    proof (cases "Key kb < Key ka")
      case True
      then have "?lo = Key kb" "?up = Key ka" by (simp_all add: min.absorb2 max.absorb1 less_imp_le)
      then show ?thesis using True mc bw by (simp only: if_True)
    next
      case False
      then have "?lo = Key ka" "?up = Key kb" by (simp_all add: min_def max_def not_less)
      then show ?thesis using False mc fw by (simp only: if_False)
    qed
  qed
  define as where "as = between ?lo ?up (records_of (h_bt ?s))"
  define vl where "vl = (\<lambda>a. the (mem_load (h_mem ?s) (a + 64) 256))"
  define kvs where "kvs = map (\<lambda>(k, a). (k, vl a)) (filter (\<lambda>e. ?lo < fst e \<and> fst e < ?up) (records_of (h_bt ?s)))"
  note P = scan_pairs [OF ok n0 vl_def kvs_def, folded as_def]
  note rs = rs [folded as_def]
  have len: "length kvs = length as" using arg_cong [OF P(4), of length] by (simp only: length_map)
  have its: "\<exists>p i. p < c_num c \<and> i < c_items c \<and> a = item c p i \<and> mem_load m (a + 64) 256 = Some (vl a)" if "a \<in> set as" for a
  proof -
    have "a \<in> snd ` set (records_of (h_bt ?s))" using that by (auto simp: as_def between_def)
    then obtain e where e: "e \<in> set (records_of (h_bt ?s))" "a = snd e" by blast
    obtain p i where pi: "p < c_num c" "i < c_items c" "e = (Key (fst (snd (h p ! i))), item c p i)"
       "mem_load (h_mem ?s) (item c p i + 64) 256 = Some (snd (snd (h p ! i)))"
      by (rule items_fit [OF ok e(1)])
    then show ?thesis using e(2) by (intro exI [of _ p] exI [of _ i]) (simp add: vl_def)
  qed
  have n: "unat ((sr - 1) * 256) = (unat sr - 1) * 256" by (rule scan_words [OF sr])
  let ?n = "(unat sr - 1) * 256"
  have res: "\<exists>sv'. read_cb mal bt_addr rest now p sr cm (ka @ kb) sv = Some ([scan_reply (unat sr) kvs], sv') \<and>
       kv_reached c (hi sv', h, d) \<and> put_cnt sv' = put_cnt sv \<and> get_cnt sv' = get_cnt sv \<and> scan_cnt sv' = scan_cnt sv + 1"
    if le: "\<not> unat sr < length as"
  proof -
    have le': "length as \<le> unat sr" using le by linarith
    note sc = scan_count [OF le' sr(2)]
    have bufm: "buffer_ok c (h_mem ?s) (value_buf cm) ?n" using buffer_stored [OF m(1) buf(2)] by simp
    have lz: "length (replicate ?n (0 :: byte)) \<le> ?n" by simp
    obtain m1 where m1: "mem_store (h_mem ?s) (value_buf cm) (replicate ?n 0) = Some m1" "kv_reached c (?s\<lparr>h_mem := m1\<rparr>, h, d)"
      "mem_load m1 (value_buf cm) (length (replicate ?n (0 :: byte))) = Some (replicate ?n 0)"
      by (rule reached_store [OF m(2) bufm lz])
    have z: "mem_load m1 (value_buf cm) ?n = Some (replicate ?n 0)" using m1(3) by simp
    have buf1: "buffer_ok c m1 (value_buf cm) ?n" by (rule buffer_stored [OF m1(1)]) (use bufm in simp)
    have sl1: "same_logs c m m1" by (rule store_same_logs [OF m1(1) [simplified]]) (use bufm ly in simp_all)
    have "\<exists>m2. (if word_of_int (int (length as)) \<ge> sr then Some m1
        else copy_items (value_buf cm) 0 as m1) = Some m2 \<and>
        same_logs c m1 m2 \<and> mem_load m2 (value_buf cm) ?n = Some (scan_reply (unat sr) kvs)"
    proof (cases "unat sr \<le> length as")
      case True
      then have "scan_reply (unat sr) kvs = replicate ?n 0" unfolding scan_reply_def len by simp
      then show ?thesis using True z unfolding sc(2) by (simp add: same_logs_def)
    next
      case False
      have q: "\<forall>a \<in> set as. mem_load m1 (a + 64) 256 = Some (vl a)"
      proof
        fix a assume "a \<in> set as"
        then obtain p i where "p < c_num c" "i < c_items c" "a = item c p i" "mem_load m (a + 64) 256 = Some (vl a)" using its by blast
        then show "mem_load m1 (a + 64) 256 = Some (vl a)" using item_value_kept [OF ly sl1] by simp
      qed
      have fit: "(0 + length as) * 256 \<le> ?n" using False by simp
      have "\<exists>m2. copy_items (value_buf cm) 0 as m1 = Some m2 \<and> same_logs c m1 m2 \<and>
          mem_load m2 (value_buf cm) ?n = Some (overwrite (0 * 256) (concat (map vl as)) (replicate ?n 0))"
        by (rule copy_items_ok [OF ly _ q buf1 fit z]) (use its in blast)
      moreover have "scan_reply (unat sr) kvs = overwrite 0 (concat (map vl as)) (replicate ?n 0)"
        using False P(4) unfolding scan_reply_def len by simp
      ultimately show ?thesis using False unfolding sc(2) by simp
    qed
    then obtain m2 where m2: "(if word_of_int (int (length as)) \<ge> sr then Some m1 else copy_items (value_buf cm) 0 as m1) = Some m2"
        "same_logs c m1 m2" "mem_load m2 (value_buf cm) ?n = Some (scan_reply (unat sr) kvs)" by blast
    have "kv_reached c (?s\<lparr>h_mem := m1\<rparr>\<lparr>h_mem := m2\<rparr>, h, d)" by (rule reached_write [OF m1(2)]) (use m2(2) in simp)
    then have re: "kv_reached c ((hi sv)\<lparr>h_mem := m2\<rparr>, h, d)" by simp
    show ?thesis
      using m(1) ld1 ld2 rs le m1(1) m2(1,3) n sc(1) re l(2)
      by (auto simp: read_cb_def serve_scan_def access_simps Let_def)
  qed
  moreover have "read_cb mal bt_addr rest now p sr cm (ka @ kb) sv = None" if "unat sr < length as"
    using m(1) ld1 ld2 rs that l(2) by (auto simp: read_cb_def serve_scan_def access_simps Let_def)
  ultimately show ?thesis using P(1,2) unfolding len [symmetric] by (intro exI [of _ kvs]) simp
qed

text \<open>Any other number of bytes is dropped.\<close>

lemma serve_other_ok:
  assumes "length input \<notin> {320, 64, 128}" "mem_store (h_mem (hi sv)) (recv_item cm) input = Some m"
  shows "\<exists>sv'. read_cb mal bt_addr rest now p sr cm input sv = Some ([], sv') \<and> hi sv' = (hi sv)\<lparr>h_mem := m\<rparr> \<and>
    put_cnt sv' = put_cnt sv \<and> get_cnt sv' = get_cnt sv \<and> scan_cnt sv' = scan_cnt sv"
  using assms by (auto simp: read_cb_def access_simps Let_def)
end
