(* ===== verification/KV_ServerFacts.thy ===== *)
theory KV_ServerFacts
  imports KV_ServerRun KV_HikvFacts
begin

text \<open>
  What a client of the server sees: the reply to each request in terms of the puts so far, and
  what happens to bytes that are not exactly one request.
\<close>

section \<open>A server on the demonstration store\<close>

definition demo_server :: "hikv \<Rightarrow> kv_server" where
  "demo_server s = \<lparr>put_cnt = 0, get_cnt = 0, scan_cnt = 0, g_start = (0, 0), start_flag = False, put_end = (0, 0),
     put_end_flag = False, get_end = (0, 0), get_end_flag = False, hi = s\<rparr>"

definition demo_buffers :: callback_mem where
  "demo_buffers = \<lparr>recv_item = 140000, value_buf = 150000\<rparr>"

lemma demo_server_sel [simp]: "hi (demo_server s) = s" "put_cnt (demo_server s) = 0" "get_cnt (demo_server s) = 0"
  "scan_cnt (demo_server s) = 0" "recv_item demo_buffers = 140000" "value_buf demo_buffers = 150000"
  by (simp_all add: demo_server_def demo_buffers_def)

lemma demo_server_bufs:
  assumes "demo_fits (h_mem s)"
  shows "buffer_ok demo_config (h_mem s) 140000 320" "buffer_ok demo_config (h_mem s) 140000 128"
    "buffer_ok demo_config (h_mem s) 140000 64" "buffer_ok demo_config (h_mem s) 150000 256"
    "buffer_ok demo_config (h_mem s) 150000 768"
  by (rule fits_buffer [OF assms]; simp)+

section \<open>Requests\<close>

text \<open>
  C26: A put request. In every reached store with room in the thread's partition, a read of exactly
  320 bytes is answered with one 50-byte reply, "put success" or "put failed" as the hash index
  accepted the record or not; either way the record joins the history, and only the put counter
  moves.
\<close>
theorem server_put:
  assumes "kv_reached c (hi sv, h, d)" "p < c_num c" "length (h p) < c_items c" "length (h p) - d p < MAX_QUEUE_SIZE"
    "buffer_ok c (h_mem (hi sv)) (recv_item cm) 320" "length k = 64" "k \<in> c_keys c" "length v = 256" "length rest = 6"
  shows "\<exists>res sv'. read_cb (c_mal c) bt_addr rest now p sr cm (k @ v) sv = Some ([put_reply res], sv') \<and>
    kv_reached c (hi sv', h(p := h p @ [(res, k, v)]), d) \<and> put_cnt sv' = put_cnt sv + 1 \<and>
    get_cnt sv' = get_cnt sv \<and> scan_cnt sv' = scan_cnt sv"
  by (rule serve_put_ok [where h = h and d = d]) (use assms in \<open>simp_all add: queue_room_def\<close>)

theorem server_put_witness:
  "\<exists>s res sv'. kv_reached demo_config (s, demo_hist [], \<lambda>_. 0) \<and>
     read_cb count_up 64 (replicate 6 0) (0, 0) 0 4 demo_buffers (key_a @ replicate 256 7) (demo_server s) = Some ([put_reply res], sv') \<and>
     kv_reached demo_config (hi sv', demo_hist [(res, key_a, replicate 256 7)], \<lambda>_. 0) \<and> put_cnt sv' = 1"
proof -
  obtain s where s: "kv_reached demo_config (s, demo_hist [], \<lambda>_. 0)" "demo_fits (h_mem s)" by (rule demo_empty)
  have "\<exists>res sv'. read_cb (c_mal demo_config) 64 (replicate 6 0) (0, 0) 0 4 demo_buffers (key_a @ replicate 256 7) (demo_server s)
        = Some ([put_reply res], sv') \<and>
      kv_reached demo_config (hi sv', (demo_hist [])(0 := demo_hist [] 0 @ [(res, key_a, replicate 256 7)]), \<lambda>_. 0) \<and>
      put_cnt sv' = put_cnt (demo_server s) + 1 \<and> get_cnt sv' = get_cnt (demo_server s) \<and> scan_cnt sv' = scan_cnt (demo_server s)"
    by (rule server_put [where h = "demo_hist []" and d = "\<lambda>_. 0"])
      (use s demo_server_bufs [OF s(2)] in \<open>simp_all add: demo_c MAX_QUEUE_SIZE_def\<close>)
  then show ?thesis using s(1) unfolding demo_c by auto
qed

text \<open>
  C27: A get request. A read of exactly 64 bytes is answered with one 256-byte reply: the value of
  the first accepted put of the key in the thread's partition, or "get failed" padded with zeros
  when there is none or it is the partition's item 0. The store's contents do not change.
\<close>
theorem server_get:
  assumes "kv_reached c (hi sv, h, d)" "p < c_num c"
    "buffer_ok c (h_mem (hi sv)) (recv_item cm) 64" "buffer_ok c (h_mem (hi sv)) (value_buf cm) 256"
    "length k = 64" "k \<in> c_keys c"
  shows "\<exists>sv'. read_cb mal bt_addr rest now p sr cm k sv = Some ([get_reply (h p) k], sv') \<and>
    kv_reached c (hi sv', h, d) \<and> put_cnt sv' = put_cnt sv \<and> get_cnt sv' = get_cnt sv + 1 \<and> scan_cnt sv' = scan_cnt sv"
  using serve_get_ok [OF assms] .

theorem server_get_witness:
  "\<exists>s sv'. kv_reached demo_config (s, demo_hist [put_a, put_c], \<lambda>_. 0) \<and>
     read_cb count_up 64 [] (0, 0) 0 4 demo_buffers key_c (demo_server s) = Some ([replicate 256 2], sv')"
proof -
  obtain s where s: "kv_reached demo_config (s, demo_hist [put_a, put_c], \<lambda>_. 0)" "demo_fits (h_mem s)" by (rule demo_two)
  have "key_a \<noteq> key_c"
  proof
    assume "key_a = key_c"
    then show False using key_hashes by simp
  qed
  then have "get_reply (demo_hist [put_a, put_c] 0) key_c = replicate 256 2" by (simp add: get_reply_def first_put_def)
  moreover have "\<exists>sv'. read_cb count_up 64 [] (0, 0) 0 4 demo_buffers key_c (demo_server s) =
      Some ([get_reply (demo_hist [put_a, put_c] 0) key_c], sv') \<and> kv_reached demo_config (hi sv', demo_hist [put_a, put_c], \<lambda>_. 0) \<and>
      put_cnt sv' = put_cnt (demo_server s) \<and> get_cnt sv' = get_cnt (demo_server s) + 1 \<and> scan_cnt sv' = scan_cnt (demo_server s)"
    by (rule server_get [where h = "demo_hist [put_a, put_c]" and d = "\<lambda>_. 0"])
      (use s demo_server_bufs [OF s(2)] in \<open>simp_all add: demo_c del: fun_upd_apply\<close>)
  ultimately show ?thesis using s(1) by metis
qed

text \<open>
  C28: A scan request. A read of exactly 128 bytes is two keys, in either order. With \<open>n\<close> moved
  records strictly between them and \<open>scan_range\<close> \<open>r\<close>: when \<open>n < r\<close> the reply holds their values in
  the order of the keys, padded with zeros; when \<open>n = r\<close> it is all zeros; when \<open>n > r\<close> the address
  array overflows and the call does not return in the model.
\<close>
theorem server_scan:
  assumes "kv_reached c (hi sv, h, d)" "0 < unat sr" "unat sr < 2 ^ 31"
    "buffer_ok c (h_mem (hi sv)) (recv_item cm) 128" "buffer_ok c (h_mem (hi sv)) (value_buf cm) ((unat sr - 1) * 256)"
    "length ka = 64" "length kb = 64"
  shows "\<exists>kvs. sorted (map fst kvs) \<and>
    mset kvs = filter_mset (\<lambda>e. min (Key ka) (Key kb) < fst e \<and> fst e < max (Key ka) (Key kb)) (\<Sum>p < c_num c. moved_pairs c h d p) \<and>
    (if unat sr < length kvs then read_cb mal bt_addr rest now p sr cm (ka @ kb) sv = None
     else \<exists>sv'. read_cb mal bt_addr rest now p sr cm (ka @ kb) sv = Some ([scan_reply (unat sr) kvs], sv') \<and>
       kv_reached c (hi sv', h, d) \<and> put_cnt sv' = put_cnt sv \<and> get_cnt sv' = get_cnt sv \<and> scan_cnt sv' = scan_cnt sv + 1)"
  using serve_scan_ok [OF assms] .

lemma demo_moved:
  obtains s d where "kv_reached demo_config (s, demo_hist [put_a, put_c], d)" "demo_fits (h_mem s)" "d 0 = 2"
proof -
  obtain s where s: "kv_reached demo_config (s, demo_hist [put_a, put_c], \<lambda>_. 0)" by (rule demo_two)
  have z: "0 < c_num demo_config" by (simp add: demo_c)
  have next_move: "\<exists>s'. kv_reached demo_config (s', demo_hist [put_a, put_c], d(0 := d 0 + 1))"
    if r: "kv_reached demo_config (s, demo_hist [put_a, put_c], d)" and d: "d 0 < 2" for s d
  proof -
    have lt: "d 0 < length (demo_hist [put_a, put_c] 0)" using d by simp
    obtain s' where "background (c_mal demo_config) 0 s = Some s'"
      using background_ok [OF reached_ok [OF r] z lt] by blast
    then show ?thesis using reached_step [OF r kv_step.move [where d = d and h = "demo_hist [put_a, put_c]", OF z lt]] by blast
  qed
  obtain s1 where s1: "kv_reached demo_config (s1, demo_hist [put_a, put_c], (\<lambda>_. 0)(0 := 1))" using next_move [OF s] by auto
  obtain s2 where "kv_reached demo_config (s2, demo_hist [put_a, put_c], (\<lambda>_. 0)(0 := 2))" using next_move [OF s1] by (auto simp: numeral_2_eq_2)
  then obtain m where m: "kv_reached demo_config (s2\<lparr>h_mem := m\<rparr>, demo_hist [put_a, put_c], (\<lambda>_. 0)(0 := 2))" "demo_fits m"
    by (rule demo_refresh)
  show ?thesis by (rule that [OF m(1)]) (simp_all add: m(2))
qed

lemma key_replicate_less:
  assumes "x < y"
  shows "Key (replicate 64 x) < Key (replicate 64 y)"
proof -
  have "replicate 64 z = z # replicate 63 z" for z :: byte using replicate_Suc [of 63 z] by simp
  then have "0 < memcmp (replicate 64 y) (replicate 64 x)" using assms by (simp add: less_not_sym)
  then show ?thesis by (simp only: memcmp_keys length_replicate)
qed

lemma bounds_of_demo: "Key (replicate 64 0) < Key key_a" "Key key_a < Key (replicate 64 3)"
  "Key (replicate 64 0) < Key key_c" "Key key_c < Key (replicate 64 3)" "Key (replicate 64 0) < Key (replicate 64 3)"
  unfolding key_a_def key_c_def by (rule key_replicate_less; simp)+

theorem server_scan_witness:
  "\<exists>s d sv'. kv_reached demo_config (s, demo_hist [put_a, put_c], d) \<and>
     read_cb count_up 64 [] (0, 0) 0 4 demo_buffers (replicate 64 3 @ replicate 64 0) (demo_server s)
       = Some ([replicate 512 2 @ replicate 256 0], sv')"
proof -
  obtain s d where s: "kv_reached demo_config (s, demo_hist [put_a, put_c], d)" "demo_fits (h_mem s)" "d 0 = 2" by (rule demo_moved)
  let ?lo = "Key (replicate 64 0)" and ?up = "Key (replicate 64 3)"
  have mm: "min ?up ?lo = ?lo" "max ?up ?lo = ?up" using bounds_of_demo(5) by (simp_all add: min.absorb2 max.absorb1)
  have two: "[0..<2] = [0, 1 :: nat]" by (simp add: upt_rec)
  have z: "(\<Sum>p < c_num demo_config. moved_pairs demo_config (demo_hist [put_a, put_c]) d p)
      = {#(Key key_a, replicate 256 2), (Key key_c, replicate 256 2)#}"
    by (simp add: moved_pairs_def demo_c s(3) two)
  have sr: "unat (4 :: u64) = 4" by simp
  have "\<exists>kvs. sorted (map fst kvs) \<and>
      mset kvs = filter_mset (\<lambda>e. min ?up ?lo < fst e \<and> fst e < max ?up ?lo)
        (\<Sum>p < c_num demo_config. moved_pairs demo_config (demo_hist [put_a, put_c]) d p) \<and>
      (if unat (4 :: u64) < length kvs
       then read_cb count_up 64 [] (0, 0) 0 4 demo_buffers (replicate 64 3 @ replicate 64 0) (demo_server s) = None
       else \<exists>sv'. read_cb count_up 64 [] (0, 0) 0 4 demo_buffers (replicate 64 3 @ replicate 64 0) (demo_server s) =
           Some ([scan_reply (unat (4 :: u64)) kvs], sv') \<and>
         kv_reached demo_config (hi sv', demo_hist [put_a, put_c], d) \<and> put_cnt sv' = put_cnt (demo_server s) \<and>
         get_cnt sv' = get_cnt (demo_server s) \<and> scan_cnt sv' = scan_cnt (demo_server s) + 1)"
    by (rule server_scan) (use s(1) demo_server_bufs [OF s(2)] in simp_all)
  then obtain kvs where kvs0:
    "mset kvs = filter_mset (\<lambda>e. ?lo < fst e \<and> fst e < ?up) {#(Key key_a, replicate 256 2), (Key key_c, replicate 256 2)#}"
    "if 4 < length kvs then read_cb count_up 64 [] (0, 0) 0 4 demo_buffers (replicate 64 3 @ replicate 64 0) (demo_server s) = None
     else \<exists>sv'. read_cb count_up 64 [] (0, 0) 0 4 demo_buffers (replicate 64 3 @ replicate 64 0) (demo_server s) =
         Some ([scan_reply 4 kvs], sv') \<and>
       kv_reached demo_config (hi sv', demo_hist [put_a, put_c], d) \<and> put_cnt sv' = put_cnt (demo_server s) \<and>
       get_cnt sv' = get_cnt (demo_server s) \<and> scan_cnt sv' = scan_cnt (demo_server s) + 1"
    unfolding z mm sr by blast
  have kvs: "mset kvs = {#(Key key_a, replicate 256 2), (Key key_c, replicate 256 2)#}"
    unfolding kvs0(1) by (simp add: bounds_of_demo)
  have len: "length kvs = 2" using arg_cong [OF kvs, of size] by simp
  then obtain x y where xy: "kvs = [x, y]" by (auto simp: length_Suc_conv numeral_2_eq_2)
  have "set kvs = {(Key key_a, replicate 256 2), (Key key_c, replicate 256 2)}"
    using arg_cong [OF kvs, of set_mset] by (simp only: set_mset_mset set_mset_add_mset_insert set_mset_empty)
  then have "\<forall>e \<in> set kvs. snd e = replicate 256 2" by (simp only: ball_simps snd_conv simp_thms)
  then have "snd x = replicate 256 2" "snd y = replicate 256 2" unfolding xy by (simp_all only: list.set ball_simps)
  then have "scan_reply 4 kvs = replicate 512 2 @ replicate 256 0"
    unfolding xy by (simp add: scan_reply_def overwrite_def flip: replicate_add)
  then show ?thesis using s(1) kvs0(2) len by auto
qed

text \<open>
  A read that is not exactly one request. Whatever else \<open>bufferevent_read\<close> returned, half a
  request or two put requests that arrived together, is dropped: there is no reply, no counter
  moves and the store's log, index, queues and tree are what they were.
\<close>
theorem server_drops_others:
  assumes "length input \<notin> {320, 64, 128}" "mem_store (h_mem (hi sv)) (recv_item cm) input = Some m"
  shows "\<exists>sv'. read_cb mal bt_addr rest now p sr cm input sv = Some ([], sv') \<and> hi sv' = (hi sv)\<lparr>h_mem := m\<rparr> \<and>
    put_cnt sv' = put_cnt sv \<and> get_cnt sv' = get_cnt sv \<and> scan_cnt sv' = scan_cnt sv"
  using serve_other_ok [OF assms] .

theorem server_drops_others_witness:
  "\<exists>s m sv'. kv_reached demo_config (s, demo_hist [], \<lambda>_. 0) \<and>
     read_cb count_up 64 [] (0, 0) 0 4 demo_buffers ((key_a @ replicate 256 7) @ (key_c @ replicate 256 8)) (demo_server s) = Some ([], sv') \<and>
     hi sv' = s\<lparr>h_mem := m\<rparr>"
proof -
  obtain s where s: "kv_reached demo_config (s, demo_hist [], \<lambda>_. 0)" "demo_fits (h_mem s)" by (rule demo_empty)
  let ?in = "(key_a @ replicate 256 7) @ (key_c @ replicate 256 8)"
  have "buffer_ok demo_config (h_mem s) 140000 640" by (rule fits_buffer [OF s(2)]) simp_all
  then have "mapped (h_mem s) 140000 (length ?in)" by (simp add: buffer_ok_def)
  then obtain m where m: "mem_store (h_mem (hi (demo_server s))) (recv_item demo_buffers) ?in = Some m"
    by (auto simp: mem_store_def)
  show ?thesis
    using server_drops_others [of ?in "demo_server s" demo_buffers m count_up 64 "[]" "(0, 0)" 0 4] m s(1) by auto
qed

section \<open>The ring buffer\<close>

definition ring_ok :: "ring_buf \<Rightarrow> bool" where
  "ring_ok b \<longleftrightarrow> buf_len b = 1920 \<and> 0 \<le> buf_read b \<and> buf_read b < 1920 \<and> 0 \<le> buf_write b \<and> buf_write b < 1920 \<and>
     buf_read b mod 320 = 0 \<and> buf_write b mod 320 = 0"

text \<open>
  The ring buffer's arithmetic, with both positions on item boundaries: one item is kept
  free, used and free space add up to the rest, and the contiguous space to write is not negative,
  not more than the free space (unless the buffer is empty) and does not pass the end.
\<close>
theorem ring_buffer_space:
  assumes "ring_ok b"
  shows "0 \<le> ring_buff_used b \<and> ring_buff_used b + ring_buff_free b = buf_len b - 320 \<and>
    0 \<le> ring_buff_to_write b \<and> buf_write b + ring_buff_to_write b \<le> buf_len b \<and>
    (buf_read b = 0 \<or> buf_read b \<noteq> buf_write b \<longrightarrow> ring_buff_to_write b \<le> ring_buff_free b)"
proof -
  define r w where "r = buf_read b" and "w = buf_write b"
  have b: "buf_len b = 1920" "0 \<le> r" "r < 1920" "0 \<le> w" "w < 1920" "r mod 320 = 0" "w mod 320 = 0"
    using assms by (auto simp: ring_ok_def r_def w_def)
  have used: "ring_buff_used b = (if r = w then 0 else if r < w then w - r else w + 1920 - r)"
  proof -
    have "(w + 1920 - r) smod 1920 = (w + 1920 - r) mod 1920" using b by (simp add: signed_modulo_int_def)
    moreover have "(w + 1920 - r) mod 1920 = w - r" if "r < w"
    proof -
      have "(w + 1920 - r) mod 1920 = (w - r + 1920) mod 1920" by (simp add: algebra_simps)
      then show ?thesis using that b by simp
    qed
    moreover have "(w + 1920 - r) mod 1920 = w + 1920 - r" if "w < r" using that b by simp
    ultimately show ?thesis using b(1) by (auto simp: ring_buff_used_def r_def w_def)
  qed
  obtain i j where ij: "r = 320 * i" "w = 320 * j" using b(6,7) by (metis dvd_def mod_0_imp_dvd)
  show ?thesis
    using b(1-5) ij unfolding ring_buff_free_def ring_buff_to_write_def used
    by (auto simp: access_simps simp flip: r_def w_def)
qed

theorem ring_buffer_space_witness:
  "ring_ok \<lparr>buf_start = 0, buf_end = 0, buf_read = 640, buf_write = 320, buf_len = 1920\<rparr> \<and>
   ring_buff_used \<lparr>buf_start = 0, buf_end = 0, buf_read = 640, buf_write = 320, buf_len = 1920\<rparr> = 1600"
proof -
  let ?b = "\<lparr>buf_start = 0, buf_end = 0, buf_read = 640, buf_write = 320, buf_len = 1920\<rparr> :: ring_buf"
  have "ring_ok ?b" by (simp add: ring_ok_def)
  moreover have "ring_buff_free ?b = 0" by code_simp
  ultimately show ?thesis using ring_buffer_space [of ?b] by simp
qed

end
