(* ===== verification/KV_Decimal.thy ===== *)
theory KV_Decimal
  imports KV_Prelude
begin

text \<open>
  Numbers as text: what the programs use of \<open>printf\<close>'s \<open>%llu\<close> and of \<open>sscanf\<close> with a format
  \<open>prefix%llu%c\<close>, and \<open>str_to_ll\<close> of \<open>bufferevent_single/include/common.h\<close>.
\<close>

section \<open>Characters\<close>

definition is_digit :: "char \<Rightarrow> bool" where
  "is_digit ch \<longleftrightarrow> (let b = of_char ch :: nat in 48 \<le> b \<and> b \<le> 57)"

definition is_space :: "char \<Rightarrow> bool" where
  "is_space ch \<longleftrightarrow> (let b = of_char ch :: nat in b = 32 \<or> (9 \<le> b \<and> b \<le> 13))"

definition digit_value :: "char \<Rightarrow> nat" where
  "digit_value ch = of_char ch - 48"

definition digit_char :: "nat \<Rightarrow> char" where
  "digit_char d = char_of (48 + d)"

section \<open>Printing and reading\<close>

text \<open>\<open>%llu\<close>; the flag in \<open>%0llu\<close> asks for zero padding, but with no width there is none.\<close>

fun decimal :: "nat \<Rightarrow> string" where
  "decimal n = (if n < 10 then [digit_char n] else decimal (n div 10) @ [digit_char (n mod 10)])"

declare decimal.simps [simp del]

definition digits_value :: "string \<Rightarrow> nat" where
  "digits_value ds = foldl (\<lambda>a ch. a * 10 + digit_value ch) 0 ds"

text \<open>
  \<open>sscanf(s, prefix%llu%c) == 1\<close>: the prefix, then blanks, a sign and at least one digit, then the
  end of the string (another character would be a second conversion). A value that does not fit
  becomes the largest one, a minus sign negates modulo \<open>2^64\<close>.
\<close>

fun scan_prefix :: "string \<Rightarrow> string \<Rightarrow> string option" where
  "scan_prefix [] s = Some s"
| "scan_prefix (p # ps) [] = None"
| "scan_prefix (p # ps) (ch # s) = (if p = ch then scan_prefix ps s else None)"

definition scan_number :: "string \<Rightarrow> u64 option" where
  "scan_number s =
     (let s1 = dropWhile is_space s;
          neg = (s1 \<noteq> [] \<and> hd s1 = CHR ''-'');
          s2 = (if s1 \<noteq> [] \<and> (hd s1 = CHR ''-'' \<or> hd s1 = CHR ''+'') then tl s1 else s1);
          ds = takeWhile is_digit s2
      in if ds = [] \<or> length ds < length s2 then None
         else if digits_value ds \<ge> 2 ^ 64 then Some (- 1)
         else Some (if neg then - of_nat (digits_value ds) else of_nat (digits_value ds)))"

definition sscanf_llu :: "string \<Rightarrow> string \<Rightarrow> u64 option" where
  "sscanf_llu prefix s = (case scan_prefix prefix s of None \<Rightarrow> None | Some r \<Rightarrow> scan_number r)"

text \<open>
  \<open>str_to_ll\<close>: digits up to the first other character or the size; \<open>None\<close> when the sum leaves the
  range of \<open>long long\<close> or the buffer is read past its end.
\<close>

fun str_to_ll_loop :: "string \<Rightarrow> nat \<Rightarrow> nat \<Rightarrow> int \<Rightarrow> int option" where
  "str_to_ll_loop buff i 0 temp = Some temp"
| "str_to_ll_loop buff i (Suc n) temp =
     do { ch \<leftarrow> rd buff i;
          if is_digit ch
          then (let t = temp * 10 + int (digit_value ch) in if t < 2 ^ 63 then str_to_ll_loop buff (i + 1) n t else None)
          else Some temp }"

definition str_to_ll :: "string \<Rightarrow> nat \<Rightarrow> int option" where
  "str_to_ll buff sz = str_to_ll_loop buff 0 sz 0"

section \<open>Round trips\<close>

lemma digit_char_facts [simp]:
  assumes "d < 10"
  shows "is_digit (digit_char d)" "digit_value (digit_char d) = d" "\<not> is_space (digit_char d)"
    "digit_char d \<noteq> CHR ''-''" "digit_char d \<noteq> CHR ''+''"
proof -
  have c: "(of_char (digit_char d) :: nat) = 48 + d" using assms by (simp add: digit_char_def)
  show "is_digit (digit_char d)" "digit_value (digit_char d) = d" "\<not> is_space (digit_char d)"
    using assms c by (simp_all add: is_digit_def digit_value_def is_space_def)
  have "(of_char CHR ''-'' :: nat) = 45" "(of_char CHR ''+'' :: nat) = 43" by simp_all
  then show "digit_char d \<noteq> CHR ''-''" "digit_char d \<noteq> CHR ''+''" using c by auto
qed

lemma decimal_digits: "\<forall>ch \<in> set (decimal n). is_digit ch \<and> \<not> is_space ch \<and> ch \<noteq> CHR ''-'' \<and> ch \<noteq> CHR ''+''"
proof (induction n rule: decimal.induct)
  case (1 n)
  then show ?case by (cases "n < 10") (auto simp: decimal.simps [of n])
qed

lemma decimal_nonempty [simp]: "decimal n \<noteq> []"
  by (subst decimal.simps) simp

lemma digits_value_snoc [simp]: "digits_value (ds @ [ch]) = digits_value ds * 10 + digit_value ch"
  by (simp add: digits_value_def)

lemma digits_value_decimal [simp]: "digits_value (decimal n) = n"
proof (induction n rule: decimal.induct)
  case (1 n)
  show ?case
  proof (cases "n < 10")
    case True
    then show ?thesis by (subst decimal.simps) (simp add: digits_value_def)
  next
    case False
    then have "digits_value (decimal n) = digits_value (decimal (n div 10)) * 10 + n mod 10" by (subst decimal.simps) simp
    then show ?thesis using "1.IH" False by simp
  qed
qed

lemma decimal_inj: "decimal a = decimal b \<Longrightarrow> a = b"
  by (metis digits_value_decimal)

lemma scan_prefix_append [simp]: "scan_prefix p (p @ s) = Some s"
  by (induction p) auto

lemma sscanf_decimal:
  assumes "n < 2 ^ 64"
  shows "sscanf_llu p (p @ decimal n) = Some (of_nat n)"
proof -
  let ?d = "decimal n"
  have h: "hd ?d \<in> set ?d" by simp
  have "dropWhile is_space ?d = ?d" using h decimal_digits [of n] by (cases ?d) auto
  moreover have "hd ?d \<noteq> CHR ''-''" "hd ?d \<noteq> CHR ''+''" using h decimal_digits [of n] by blast+
  moreover have "takeWhile is_digit ?d = ?d" using decimal_digits [of n] by (simp add: takeWhile_eq_all_conv)
  ultimately show ?thesis using assms by (simp add: sscanf_llu_def scan_number_def Let_def del: takeWhile_eq_all_conv)
qed

lemma str_to_ll_loop_digits:
  "\<forall>ch \<in> set ds. is_digit ch \<Longrightarrow> foldl (\<lambda>a ch. a * 10 + digit_value ch) acc ds < 2 ^ 63 \<Longrightarrow>
   str_to_ll_loop (pre @ ds @ post) (length pre) (length ds) (int acc)
     = Some (int (foldl (\<lambda>a ch. a * 10 + digit_value ch) acc ds))"
proof (induction ds arbitrary: pre acc)
  case (Cons ch ds)
  have mono: "acc' \<le> foldl (\<lambda>a ch. a * 10 + digit_value ch) acc' xs" for acc' xs
  proof (induction xs arbitrary: acc')
    case (Cons x xs)
    have "acc' \<le> acc' * 10 + digit_value x" by simp
    then show ?case using Cons [of "acc' * 10 + digit_value x"] by (simp add: order_trans)
  qed simp
  let ?a = "acc * 10 + digit_value ch"
  have lt: "?a < 2 ^ 63" using mono [of ?a ds] Cons.prems(2) by simp
  then have "int ?a < int (2 ^ 63)" by (simp only: of_nat_less_iff)
  then have lt': "int acc * 10 + int (digit_value ch) < 2 ^ 63" by (simp only: of_nat_add of_nat_mult of_nat_power of_nat_numeral)
  have "str_to_ll_loop ((pre @ [ch]) @ ds @ post) (length (pre @ [ch])) (length ds) (int ?a)
      = Some (int (foldl (\<lambda>a ch. a * 10 + digit_value ch) ?a ds))"
    by (rule Cons.IH) (use Cons.prems in auto)
  then show ?case using Cons.prems(1) lt' by (simp add: rd_def nth_append Let_def)
qed simp

lemma str_to_ll_decimal:
  assumes "n < 2 ^ 63"
  shows "str_to_ll (decimal n @ rest) (length (decimal n)) = Some (int n)"
proof -
  have "digits_value (decimal n) = n" by simp
  then have "foldl (\<lambda>a ch. a * 10 + digit_value ch) 0 (decimal n) = n" by (simp only: digits_value_def)
  then show ?thesis using str_to_ll_loop_digits [of "decimal n" 0 "[]" rest] assms decimal_digits [of n]
    by (simp add: str_to_ll_def)
qed

end
