(* ===== verification/KV_ServerMain.thy ===== *)
theory KV_ServerMain
  imports KV_Server KV_Decimal
begin

text \<open>
  \<open>main\<close> and the accept callback of \<open>bufferevent_single/server.cc\<close>: the command line, the store
  built from it, the threads started on it, and the state every connection gets.
\<close>

section \<open>Arguments\<close>

definition MAX_CPUS :: nat where "MAX_CPUS = 16"
definition NUM_KEYS :: nat where "NUM_KEYS = 262144"

record hikv_arg =
  pm_size_arg :: u64
  num_server_thread_arg :: u64
  num_backend_thread_arg :: u64
  num_warm_kv :: u64
  num_put_kv :: u64
  num_get_kv :: u64
  num_delete_kv :: u64
  num_scan_kv :: u64
  scan_range_arg :: u64
  seed_arg :: u64
  scan_all :: u64

record server_main_state =
  core_limit :: "32 word"
  client_num :: "32 word"
  hikv_thread_arg :: hikv_arg
  errors :: "string list"

text \<open>The locals of \<open>main\<close> before the loop; the global \<open>core_limit\<close> starts at 0.\<close>

definition server_defaults :: server_main_state where
  "server_defaults = \<lparr>core_limit = 0, client_num = 1, hikv_thread_arg =
     \<lparr>pm_size_arg = 20, num_server_thread_arg = 1, num_backend_thread_arg = 1, num_warm_kv = 0,
      num_put_kv = of_nat NUM_KEYS, num_get_kv = of_nat NUM_KEYS, num_delete_kv = 0, num_scan_kv = of_nat (NUM_KEYS - 4),
      scan_range_arg = 4, seed_arg = 1234, scan_all = 0\<rparr>, errors = []\<rparr>"

text \<open>One \<open>else if\<close> of the chain: what to do with a number that was read, and the rest of the chain.\<close>

definition else_if :: "u64 option \<Rightarrow> (u64 \<Rightarrow> 'a) \<Rightarrow> 'a \<Rightarrow> 'a" where
  "else_if r f rest = (case r of None \<Rightarrow> rest | Some n \<Rightarrow> f n)"

lemma else_if_simps [simp]: "else_if None f rest = rest" "else_if (Some n) f rest = f n"
  by (simp_all add: else_if_def)

definition server_option :: "nat \<Rightarrow> string \<Rightarrow> server_main_state \<Rightarrow> server_main_state" where
  "server_option i a st =
     (let ha = hikv_thread_arg st in
      else_if (sscanf_llu ''--num_thread='' a) (\<lambda>n. st\<lparr>core_limit := ucast n\<rparr>) (
      else_if (sscanf_llu ''--pm_size='' a) (\<lambda>n. st\<lparr>hikv_thread_arg := ha\<lparr>pm_size_arg := n\<rparr>\<rparr>) (
      else_if (sscanf_llu ''--num_server_thread='' a) (\<lambda>n. st\<lparr>hikv_thread_arg := ha\<lparr>num_server_thread_arg := n\<rparr>\<rparr>) (
      else_if (sscanf_llu ''--num_backend_thread='' a) (\<lambda>n. st\<lparr>hikv_thread_arg := ha\<lparr>num_backend_thread_arg := n\<rparr>\<rparr>) (
      else_if (sscanf_llu ''--num_warm='' a) (\<lambda>n. st\<lparr>hikv_thread_arg := ha\<lparr>num_warm_kv := n\<rparr>\<rparr>) (
      else_if (sscanf_llu ''--num_put='' a) (\<lambda>n. st\<lparr>hikv_thread_arg := ha\<lparr>num_put_kv := n\<rparr>\<rparr>) (
      else_if (sscanf_llu ''--num_get='' a) (\<lambda>n. st\<lparr>hikv_thread_arg := ha\<lparr>num_get_kv := n\<rparr>\<rparr>) (
      else_if (sscanf_llu ''--num_delete='' a) (\<lambda>n. st\<lparr>hikv_thread_arg := ha\<lparr>num_delete_kv := n\<rparr>\<rparr>) (
      else_if (sscanf_llu ''--num_scan='' a) (\<lambda>n. st\<lparr>hikv_thread_arg := ha\<lparr>num_scan_kv := n\<rparr>\<rparr>) (
      else_if (sscanf_llu ''--scan_range='' a) (\<lambda>n. st\<lparr>hikv_thread_arg := ha\<lparr>scan_range_arg := n\<rparr>\<rparr>) (
      else_if (sscanf_llu ''--num_scan_all='' a) (\<lambda>n. st\<lparr>hikv_thread_arg := ha\<lparr>scan_all := n\<rparr>\<rparr>) (
      else_if (sscanf_llu ''--num_client='' a) (\<lambda>n. st\<lparr>client_num := ucast n, hikv_thread_arg := ha\<lparr>num_put_kv := num_put_kv ha * n, num_get_kv := num_get_kv ha * n\<rparr>\<rparr>) (
      if i > 0 then st\<lparr>errors := errors st @ [a]\<rparr> else st)))))))))))))"

fun server_options :: "nat \<Rightarrow> string list \<Rightarrow> server_main_state \<Rightarrow> server_main_state" where
  "server_options i [] st = st"
| "server_options i (a # as) st = server_options (i + 1) as (server_option i a st)"

section \<open>Threads\<close>

record server_arg =
  core :: int
  thread_id :: nat
  arg_hikv :: hikv_arg

text \<open>The loop over the static array of 16 thread arguments; one more is a write past its end.\<close>

fun start_threads :: "hikv_arg \<Rightarrow> nat \<Rightarrow> nat \<Rightarrow> server_arg list option" where
  "start_threads ha i 0 = Some []"
| "start_threads ha i (Suc n) =
     do { _ \<leftarrow> rd [0..<MAX_CPUS] i;
          ts \<leftarrow> start_threads ha (i + 1) n;
          Some (\<lparr>core = int i, thread_id = i, arg_hikv = ha\<rparr> # ts) }"

definition server_main ::
  "(nat \<Rightarrow> ptr) \<Rightarrow> ptr \<Rightarrow> raw_memory \<Rightarrow> nvmem \<Rightarrow> string list \<Rightarrow> (hikv \<times> server_arg list \<times> string list) option" where
  "server_main mal dest raw m argv =
     do { let st = server_options 0 argv server_defaults;
          let ha = hikv_thread_arg st;
          s \<leftarrow> hikv_new mal dest raw True (pm_size_arg ha * 1024 * 1024 * 1024) (num_server_thread_arg ha) (num_backend_thread_arg ha)
                 (num_server_thread_arg ha * (num_put_kv ha + num_warm_kv ha)) m;
          ts \<leftarrow> start_threads ha 0 (nat (sint (core_limit st)));
          Some (s, ts, errors st) }"

section \<open>Connections\<close>

record sock_ev_read =
  sock_fd :: int
  byte_sent :: int
  request_cnt :: int
  total_time :: int
  sock_start_flag :: int
  sock_thread_id :: nat
  sock_args :: hikv_arg
  recv_buf :: ring_buf

datatype accept_result = Accept_Failed | Accepted sock_ev_read "32 word"

text \<open>
  \<open>accept\<close>'s result and the ring buffer's memory are arguments; a failed accept ends the process.
\<close>

definition accept_cb :: "int \<Rightarrow> ptr \<Rightarrow> nat \<Rightarrow> hikv_arg \<Rightarrow> 32 word \<Rightarrow> accept_result" where
  "accept_cb s buf tid ha connect_cnt =
     (if s < 0 then Accept_Failed
      else Accepted \<lparr>sock_fd = s, byte_sent = 0, request_cnt = 0, total_time = 0, sock_start_flag = 0, sock_thread_id = tid,
             sock_args = ha, recv_buf = init_ring_buff buf\<rparr> (connect_cnt + 1))"

section \<open>What they do\<close>

lemma MAX_CPUS_val [access_simps]: "MAX_CPUS = 16" by (simp add: MAX_CPUS_def)

lemma start_threads_ok:
  "start_threads ha i n = (if n = 0 \<or> i + n \<le> MAX_CPUS then Some (map (\<lambda>j. \<lparr>core = int j, thread_id = j, arg_hikv = ha\<rparr>) [i..<i + n]) else None)"
proof (induction n arbitrary: i)
  case (Suc n)
  show ?case
  proof (cases "i < MAX_CPUS")
    case True
    have "[i..<i + Suc n] = i # [i + 1..<i + 1 + n]" by (simp add: upt_conv_Cons del: upt_Suc)
    then show ?thesis using True Suc.IH [of "i + 1"] by (simp add: access_simps)
  next
    case False
    then show ?thesis by (simp add: access_simps)
  qed
qed simp

lemma ucast_nat: "(ucast (of_nat n :: u64) :: 32 word) = of_nat n"
  by (rule bit_word_eqI) (auto simp: bit_simps)

text \<open>An option's text selects its branch: no earlier option's prefix fits.\<close>

lemma option_put: "n < 2 ^ 64 \<Longrightarrow> server_option i (''--num_put='' @ decimal n) st =
    st\<lparr>hikv_thread_arg := (hikv_thread_arg st)\<lparr>num_put_kv := of_nat n\<rparr>\<rparr>"
  using sscanf_decimal [of n "''--num_put=''"] by (simp add: server_option_def sscanf_llu_def Let_def)

lemma option_pm: "n < 2 ^ 64 \<Longrightarrow> server_option i (''--pm_size='' @ decimal n) st =
    st\<lparr>hikv_thread_arg := (hikv_thread_arg st)\<lparr>pm_size_arg := of_nat n\<rparr>\<rparr>"
  using sscanf_decimal [of n "''--pm_size=''"] by (simp add: server_option_def sscanf_llu_def Let_def)

lemma option_client: "n < 2 ^ 64 \<Longrightarrow> server_option i (''--num_client='' @ decimal n) st =
    st\<lparr>client_num := of_nat n, hikv_thread_arg := (hikv_thread_arg st)\<lparr>
         num_put_kv := num_put_kv (hikv_thread_arg st) * of_nat n, num_get_kv := num_get_kv (hikv_thread_arg st) * of_nat n\<rparr>\<rparr>"
  using sscanf_decimal [of n "''--num_client=''"] by (simp add: server_option_def sscanf_llu_def ucast_nat Let_def)

lemma option_thread: "n < 2 ^ 64 \<Longrightarrow> server_option i (''--num_thread='' @ decimal n) st = st\<lparr>core_limit := of_nat n\<rparr>"
  using sscanf_decimal [of n "''--num_thread=''"] by (simp add: server_option_def sscanf_llu_def ucast_nat Let_def)

end
