(* ===== verification/KV_MainFacts.thy ===== *)
theory KV_MainFacts
  imports KV_ServerMain KV_HikvFacts
begin

text \<open>
  What the server's command line does, and the text forms of numbers that it and the client use.
\<close>

section \<open>Numbers as text\<close>

text \<open>
  Numbers survive the way through text: an option written as its prefix and \<open>%llu\<close> reads back
  as the number, and \<open>str_to_ll\<close> gives back what \<open>%llu\<close> printed, whatever follows in the buffer.
\<close>
theorem decimal_round_trip:
  assumes "n < 2 ^ 63"
  shows "sscanf_llu p (p @ decimal n) = Some (of_nat n) \<and> str_to_ll (decimal n @ rest) (length (decimal n)) = Some (int n)"
proof -
  have "n < 2 ^ 64" using assms by simp
  then show ?thesis using sscanf_decimal str_to_ll_decimal [OF assms] by blast
qed

theorem decimal_round_trip_witness:
  "sscanf_llu ''--num_put='' ''--num_put=262144'' = Some 262144 \<and> str_to_ll ''262144 '' 6 = Some 262144"
proof -
  have d: "decimal 262144 = ''262144''" by (simp add: decimal.simps digit_char_def char_of_def bit_0)
  have b: "(262144 :: nat) < 2 ^ 63" by simp
  have l: "length ''262144'' = 6" "''262144'' @ '' '' = ''262144 ''" "''--num_put='' @ ''262144'' = ''--num_put=262144''" by simp_all
  show ?thesis using decimal_round_trip [OF b, of "''--num_put=''" "'' ''"] unfolding d l by simp
qed

section \<open>The command line\<close>

text \<open>
  The options are not independent: \<open>--num_client\<close> multiplies the counts read so far, so after
  \<open>--num_put\<close> it scales it and before \<open>--num_put\<close> it has no effect on it.
\<close>
theorem option_order_matters:
  assumes "a < 2 ^ 64" "b < 2 ^ 64"
  shows "num_put_kv (hikv_thread_arg (server_options i [''--num_put='' @ decimal a, ''--num_client='' @ decimal b] st)) = of_nat a * of_nat b \<and>
    num_put_kv (hikv_thread_arg (server_options i [''--num_client='' @ decimal b, ''--num_put='' @ decimal a] st)) = of_nat a"
  unfolding server_options.simps option_put [OF assms(1)] option_client [OF assms(2)] by simp

theorem option_order_matters_witness:
  "num_put_kv (hikv_thread_arg (server_options 1 [''--num_put=10'', ''--num_client=4''] server_defaults)) = 40 \<and>
   num_put_kv (hikv_thread_arg (server_options 1 [''--num_client=4'', ''--num_put=10''] server_defaults)) = 10"
proof -
  have d: "decimal 10 = ''10''" "decimal 4 = ''4''" by code_simp+
  show ?thesis using option_order_matters [of 10 4 1 server_defaults] by (simp add: d del: server_options.simps)
qed

section \<open>Starting the server\<close>

text \<open>
  \<open>main\<close> with a pool large enough for its options returns a store in its initial state and
  starts exactly the threads 0 to \<open>core_limit - 1\<close>, each with its number; more than 16 of them
  overrun the static array. Nothing relates \<open>--num_thread\<close> to \<open>--num_server_thread\<close>, the number of
  partitions.
\<close>
theorem server_main_starts:
  assumes "server_options 0 argv server_defaults = st"
    and "new_pre mal cap items K dest (pm_size_arg (hikv_thread_arg st) * 1024 * 1024 * 1024) (num_server_thread_arg (hikv_thread_arg st))
      (num_server_thread_arg (hikv_thread_arg st) * (num_put_kv (hikv_thread_arg st) + num_warm_kv (hikv_thread_arg st))) raw m"
  shows "\<exists>s. kv_reached (new_config mal cap items K dest (pm_size_arg (hikv_thread_arg st) * 1024 * 1024 * 1024)
        (num_server_thread_arg (hikv_thread_arg st))
        (num_server_thread_arg (hikv_thread_arg st) * (num_put_kv (hikv_thread_arg st) + num_warm_kv (hikv_thread_arg st)))) (s, \<lambda>_. [], \<lambda>_. 0) \<and>
      server_main mal dest raw m argv =
        (if sint (core_limit st) \<le> 16
         then Some (s, map (\<lambda>j. \<lparr>core = int j, thread_id = j, arg_hikv = hikv_thread_arg st\<rparr>) [0..<nat (sint (core_limit st))], errors st)
         else None)"
proof -
  obtain s where s: "hikv_new mal dest raw True (pm_size_arg (hikv_thread_arg st) * 1024 * 1024 * 1024) (num_server_thread_arg (hikv_thread_arg st))
      (num_backend_thread_arg (hikv_thread_arg st))
      (num_server_thread_arg (hikv_thread_arg st) * (num_put_kv (hikv_thread_arg st) + num_warm_kv (hikv_thread_arg st))) m = Some s"
    using hikv_new_ok [OF assms(2)] by blast
  show ?thesis
    using s reached_new [OF assms(2) s] assms(1)
    by (intro exI [of _ s]) (auto simp: server_main_def Let_def start_threads_ok access_simps)
qed

definition demo_argv :: "string list" where
  "demo_argv = [''server'', ''--num_thread=1'', ''--pm_size=1'', ''--num_put=4'']"

lemma demo_options:
  "server_options 0 demo_argv server_defaults =
     server_defaults\<lparr>core_limit := 1, hikv_thread_arg := (hikv_thread_arg server_defaults)\<lparr>pm_size_arg := 1, num_put_kv := 4\<rparr>\<rparr>"
proof -
  have d: "decimal 1 = ''1''" "decimal 4 = ''4''" by (simp_all add: decimal.simps digit_char_def char_of_def bit_0)
  have a: "''--num_thread=1'' = ''--num_thread='' @ decimal 1" "''--pm_size=1'' = ''--pm_size='' @ decimal 1"
    "''--num_put=4'' = ''--num_put='' @ decimal 4" unfolding d by simp_all
  have s: "server_option 0 ''server'' st = st" for st
    by (simp add: server_option_def sscanf_llu_def)
  have n: "(1 :: nat) < 2 ^ 64" "(4 :: nat) < 2 ^ 64" by simp_all
  show ?thesis
    unfolding demo_argv_def a server_options.simps s option_thread [OF n(1)] option_pm [OF n(1)] option_put [OF n(2)] by simp
qed

lemma demo_big_pre: "new_pre count_up 100 5 {key_a, key_c} 65536 (2 ^ 30) 1 4 demo_raw demo_mem"
proof -
  have u: "unat (2 ^ 30 :: u64) = 2 ^ 30" by simp
  note sup = count_up_supply [of 100]
  have "\<not> in_range 65536 (2 ^ 30) (count_up i)" if "i < 100" for i
    by (subst in_range_iff) (use unat_count_up [of i] that in auto)
  then show ?thesis
    unfolding new_pre_def demo_words u using sup(1,2) ac_told_apart
    by (simp add: raw_ok_def demo_raw_def demo_mapped)
qed

theorem server_main_starts_witness:
  "\<exists>s. kv_reached (new_config count_up 100 5 {key_a, key_c} 65536 (2 ^ 30) 1 4) (s, \<lambda>_. [], \<lambda>_. 0) \<and>
     map_option (\<lambda>(s, ts, es). (map thread_id ts, es)) (server_main count_up 65536 demo_raw demo_mem demo_argv) = Some ([0], [])"
proof -
  let ?st = "server_defaults\<lparr>core_limit := 1, hikv_thread_arg := (hikv_thread_arg server_defaults)\<lparr>pm_size_arg := 1, num_put_kv := 4\<rparr>\<rparr>"
  have ar: "pm_size_arg (hikv_thread_arg ?st) * 1024 * 1024 * 1024 = 2 ^ 30" "num_server_thread_arg (hikv_thread_arg ?st) = 1"
    "1 * (num_put_kv (hikv_thread_arg ?st) + num_warm_kv (hikv_thread_arg ?st)) = 4"
    by (simp_all add: server_defaults_def)
  have pre: "new_pre count_up 100 5 {key_a, key_c} 65536 (pm_size_arg (hikv_thread_arg ?st) * 1024 * 1024 * 1024)
      (num_server_thread_arg (hikv_thread_arg ?st))
      (num_server_thread_arg (hikv_thread_arg ?st) * (num_put_kv (hikv_thread_arg ?st) + num_warm_kv (hikv_thread_arg ?st))) demo_raw demo_mem"
    unfolding ar by (rule demo_big_pre)
  have cl: "sint (core_limit ?st) = 1" "errors ?st = []" by (simp_all add: server_defaults_def)
  show ?thesis using server_main_starts [OF demo_options pre] unfolding ar cl by auto
qed

end
