(* ===== verification/KV_Client.thy ===== *)
theory KV_Client
  imports KV_Decimal KV_Server
begin

text \<open>
  The client of \<open>bufferevent_single/client.cc\<close>: its key generator, the requests it writes, how it
  reads and checks the replies, and its three phases. The random numbers, what \<open>malloc\<close>'s memory
  held before, and the network with the server behind it are arguments: \<open>net\<close> takes the bytes of
  one \<open>write\<close> and adds to the \<open>inbox\<close> what successive \<open>read\<close> calls will return, an empty chunk
  for a closed connection; \<open>None\<close> is a failed write, which ends the process. Where the client
  would wait or loop for ever, or leave a buffer, the result is \<open>None\<close>.
\<close>

section \<open>Keys\<close>

text \<open>
  The seed: two calls of \<open>rand()\<close>, of which the first is shifted out of the mask, repeated until
  the result is not 0. \<open>rnd i\<close> is the value of the \<open>i\<close>-th call.
\<close>

definition key_seed :: "u64 \<Rightarrow> u64 \<Rightarrow> u64" where
  "key_seed rand1 rand2 = and (xor (push_bit 32 rand1) rand2) 0xfffc0000"

partial_function (option) seed_loop :: "(nat \<Rightarrow> u64) \<Rightarrow> nat \<Rightarrow> u64 option" where
  "seed_loop rnd i =
     (let seed = key_seed (rnd i) (rnd (i + 1))
      in if seed = 0 then seed_loop rnd (i + 2) else Some seed)"

text \<open>A key of 0 would be generated again, for ever.\<close>

fun fill_keys :: "u64 \<Rightarrow> nat \<Rightarrow> nat \<Rightarrow> u64 list option" where
  "fill_keys seed i 0 = Some []"
| "fill_keys seed i (Suc n) =
     (let k = seed + of_nat i
      in if k = 0 then None else do { ks \<leftarrow> fill_keys seed (i + 1) n; Some (k # ks) })"

definition gen_key_corpus :: "(nat \<Rightarrow> u64) \<Rightarrow> u64 \<Rightarrow> u64 list option" where
  "gen_key_corpus rnd num_put_kv =
     do { seed \<leftarrow> seed_loop rnd 0;
          fill_keys seed 0 (nat (sint (ucast num_put_kv :: 32 word))) }"

section \<open>C strings and buffers\<close>

definition digit_bytes :: "u64 \<Rightarrow> byte list" where
  "digit_bytes v = message (decimal (unat v))"

text \<open>\<open>snprintf(buf + i, size, "%0llu", v)\<close>: at most \<open>size - 1\<close> digits and a NUL; the rest stays.\<close>

definition snprintf_llu :: "nat \<Rightarrow> nat \<Rightarrow> u64 \<Rightarrow> byte list \<Rightarrow> byte list option" where
  "snprintf_llu i sz v buf =
     (let out = take (sz - 1) (digit_bytes v) @ [0]
      in if i + length out \<le> length buf then Some (overwrite i out buf) else None)"

text \<open>Whether \<open>strcmp\<close> of a literal and a buffer is 0.\<close>

fun strcmp_eq :: "byte list \<Rightarrow> byte list \<Rightarrow> bool option" where
  "strcmp_eq _ [] = None"
| "strcmp_eq [] (b # bs) = Some (b = 0)"
| "strcmp_eq (x # xs) (b # bs) = (if x = b then strcmp_eq xs bs else Some False)"

fun bufcmp_loop :: "byte list \<Rightarrow> byte list \<Rightarrow> nat \<Rightarrow> nat \<Rightarrow> bool option" where
  "bufcmp_loop a b i 0 = Some True"
| "bufcmp_loop a b i (Suc n) =
     do { x \<leftarrow> rd a i; y \<leftarrow> rd b i; if x \<noteq> y then Some False else bufcmp_loop a b (i + 1) n }"

definition bufcmp :: "byte list \<Rightarrow> byte list \<Rightarrow> nat \<Rightarrow> bool option" where
  "bufcmp a b n = bufcmp_loop a b 0 n"

section \<open>The phases\<close>

record 's client =
  inbox :: "byte list list"
  net_state :: 's
  put_count :: nat
  get_count :: nat
  scan_count :: nat
  scan_kv_count :: nat
  match_insert :: nat
  match_search :: nat

type_synonym 's net = "'s \<Rightarrow> byte list \<Rightarrow> (byte list list \<times> 's) option"

definition send :: "'s net \<Rightarrow> byte list \<Rightarrow> 's client \<Rightarrow> 's client option" where
  "send net req cl =
     do { (cs, s) \<leftarrow> net (net_state cl) req;
          Some (cl\<lparr>inbox := inbox cl @ cs, net_state := s\<rparr>) }"

text \<open>One iteration of the put loop; \<open>junk\<close> is what the request's memory held.\<close>

definition put_once :: "'s net \<Rightarrow> byte list \<Rightarrow> u64 list \<Rightarrow> byte list \<Rightarrow> nat \<Rightarrow> 's client \<Rightarrow> 's client option" where
  "put_once net junk key_corpus value_corpus key_i cl =
     do { k \<leftarrow> rd key_corpus key_i;
          req_key \<leftarrow> snprintf_llu 0 (KEY_SIZE + 1) k (take KEY_SIZE junk);
          if length value_corpus < key_i * VALUE_SIZE + VALUE_SIZE then None
          else do {
            let req_value = take VALUE_SIZE (drop (key_i * VALUE_SIZE) value_corpus);
            let cl = cl\<lparr>put_count := put_count cl + 1\<rparr>;
            cl \<leftarrow> send net (req_key @ req_value) cl;
            (case inbox cl of
               [] \<Rightarrow> None
             | c # cs \<Rightarrow>
                 if length c > REPLY_SIZE then None
                 else do { ok \<leftarrow> strcmp_eq (message ''put success'') (overwrite 0 c (replicate REPLY_SIZE 0));
                           Some (cl\<lparr>inbox := cs, match_insert := match_insert cl + (if ok then 1 else 0)\<rparr>) }) } }"

fun put_loop :: "'s net \<Rightarrow> (nat \<Rightarrow> byte list) \<Rightarrow> u64 list \<Rightarrow> byte list \<Rightarrow> nat \<Rightarrow> nat \<Rightarrow> 's client \<Rightarrow> 's client option" where
  "put_loop net junk ks vs key_i 0 cl = Some cl"
| "put_loop net junk ks vs key_i (Suc n) cl =
     do { cl' \<leftarrow> put_once net (junk key_i) ks vs key_i cl; put_loop net junk ks vs (key_i + 1) n cl' }"

text \<open>
  The read loop: chunks until \<open>need\<close> bytes are there, each at most what was asked for; a chunk
  that leaves the buffer of \<open>need\<close> bytes, or a closed connection, has no result.
\<close>

fun recv_loop :: "nat \<Rightarrow> nat \<Rightarrow> byte list \<Rightarrow> byte list list \<Rightarrow> (byte list \<times> byte list list) option" where
  "recv_loop need ask buf [] = (if need \<le> length buf then Some (buf, []) else None)"
| "recv_loop need ask buf (c # cs) =
     (if need \<le> length buf then Some (buf, c # cs)
      else if c = [] \<or> length c > ask - length buf \<or> length buf + length c > need then None
      else recv_loop need ask (buf @ c) cs)"

fun format_keys :: "u64 list \<Rightarrow> nat \<Rightarrow> nat \<Rightarrow> nat \<Rightarrow> byte list \<Rightarrow> byte list option" where
  "format_keys ks key_j i 0 buf = Some buf"
| "format_keys ks key_j i (Suc n) buf =
     do { k \<leftarrow> rd ks (key_j + i);
          buf' \<leftarrow> snprintf_llu (i * KEY_SIZE) (KEY_SIZE + 1) k buf;
          format_keys ks key_j (i + 1) n buf' }"

fun check_values :: "byte list \<Rightarrow> byte list \<Rightarrow> nat \<Rightarrow> nat \<Rightarrow> nat \<Rightarrow> nat option" where
  "check_values value vs key_j i 0 = Some 0"
| "check_values value vs key_j i (Suc n) =
     do { failed \<leftarrow> strcmp_eq (message ''get failed'') (drop (i * VALUE_SIZE) value);
          hit \<leftarrow> (if failed then Some False
                  else bufcmp (drop (i * VALUE_SIZE) value) (drop ((key_j + i) * VALUE_SIZE) vs) VALUE_SIZE);
          r \<leftarrow> check_values value vs key_j (i + 1) n;
          Some ((if hit then 1 else 0) + r) }"

definition get_once :: "'s net \<Rightarrow> byte list \<Rightarrow> u64 list \<Rightarrow> byte list \<Rightarrow> nat \<Rightarrow> nat \<Rightarrow> 's client \<Rightarrow> (nat \<times> 's client) option" where
  "get_once net junk ks vs num_get_kv key_j cl =
     do { let send_num = min NUM_BATCH (num_get_kv - key_j);
          key \<leftarrow> format_keys ks key_j 0 send_num (take (NUM_BATCH * KEY_SIZE) junk);
          cl \<leftarrow> send net (take (send_num * KEY_SIZE) key) cl;
          let cl = cl\<lparr>get_count := get_count cl + send_num\<rparr>;
          (value, cs) \<leftarrow> recv_loop (send_num * VALUE_SIZE) (send_num * VALUE_SIZE) [] (inbox cl);
          hits \<leftarrow> check_values value vs key_j 0 (length value div VALUE_SIZE);
          Some (key_j + send_num, cl\<lparr>inbox := cs, match_search := match_search cl + hits\<rparr>) }"

text \<open>Every round asks for at least one key, so \<open>num_get_kv\<close> rounds are enough.\<close>

fun get_phase :: "nat \<Rightarrow> 's net \<Rightarrow> (nat \<Rightarrow> byte list) \<Rightarrow> u64 list \<Rightarrow> byte list \<Rightarrow> nat \<Rightarrow> nat \<Rightarrow> 's client \<Rightarrow> 's client option" where
  "get_phase 0 net junk ks vs num_get_kv key_j cl = (if key_j < num_get_kv then None else Some cl)"
| "get_phase (Suc fuel) net junk ks vs num_get_kv key_j cl =
     (if key_j < num_get_kv
      then do { (key_j', cl') \<leftarrow> get_once net (junk key_j) ks vs num_get_kv key_j cl;
                get_phase fuel net junk ks vs num_get_kv key_j' cl' }
      else Some cl)"

definition scan_once :: "'s net \<Rightarrow> byte list \<Rightarrow> u64 list \<Rightarrow> u64 \<Rightarrow> nat \<Rightarrow> 's client \<Rightarrow> 's client option" where
  "scan_once net junk ks scan_range key_k cl =
     do { k \<leftarrow> rd ks key_k;
          key \<leftarrow> snprintf_llu 0 KEY_SIZE k (take (2 * KEY_SIZE) junk);
          key \<leftarrow> snprintf_llu KEY_SIZE KEY_SIZE (k + scan_range) key;
          cl \<leftarrow> send net (take (2 * KEY_SIZE) key) cl;
          let cl = cl\<lparr>scan_count := scan_count cl + 1\<rparr>;
          (value, cs) \<leftarrow> recv_loop (unat ((scan_range - 1) * of_nat VALUE_SIZE)) (unat (scan_range * of_nat VALUE_SIZE)) [] (inbox cl);
          Some (cl\<lparr>inbox := cs, scan_kv_count := scan_kv_count cl + 1\<rparr>) }"

fun scan_phase :: "'s net \<Rightarrow> (nat \<Rightarrow> byte list) \<Rightarrow> u64 list \<Rightarrow> u64 \<Rightarrow> nat \<Rightarrow> nat \<Rightarrow> 's client \<Rightarrow> 's client option" where
  "scan_phase net junk ks scan_range key_k 0 cl = Some cl"
| "scan_phase net junk ks scan_range key_k (Suc n) cl =
     do { cl' \<leftarrow> scan_once net (junk key_k) ks scan_range key_k cl;
          scan_phase net junk ks scan_range (key_k + 1) n cl' }"

text \<open>\<open>send_request\<close>: the three phases one after the other.\<close>

definition send_request ::
  "'s net \<Rightarrow> (nat \<Rightarrow> u64) \<Rightarrow> (nat \<Rightarrow> nat \<Rightarrow> byte list) \<Rightarrow> byte list \<Rightarrow> u64 \<Rightarrow> u64 \<Rightarrow> u64 \<Rightarrow> u64 \<Rightarrow> 's \<Rightarrow> 's client option" where
  "send_request net rnd junk vs num_put_kv num_get_kv num_scan_kv scan_range s =
     do { ks \<leftarrow> gen_key_corpus rnd num_put_kv;
          let cl = \<lparr>inbox = [], net_state = s, put_count = 0, get_count = 0, scan_count = 0, scan_kv_count = 0,
                match_insert = 0, match_search = 0\<rparr>;
          cl \<leftarrow> put_loop net (junk 0) ks vs 0 (unat num_put_kv) cl;
          cl \<leftarrow> get_phase (unat num_get_kv) net (junk 1) ks vs (unat num_get_kv) 0 cl;
          scan_phase net (junk 2) ks scan_range (unat scan_range) (unat num_scan_kv - unat scan_range) cl }"

end
