(* ===== verification/KV_ClientFacts.thy ===== *)
theory KV_ClientFacts
  imports KV_Client
begin

text \<open>
  What the client's keys are, and what its phases count.
\<close>

section \<open>The generated keys\<close>

text \<open>The mask keeps bits 18 to 31 only, so the shifted first random number never matters.\<close>

lemma key_seed_mask: "key_seed r1 r2 = and r2 0xfffc0000"
proof (rule bit_word_eqI)
  fix n assume n: "n < LENGTH(64)"
  have "bit (0xfffc0000 :: u64) n \<Longrightarrow> n < 32"
  proof (rule ccontr)
    assume b: "bit (0xfffc0000 :: u64) n" "\<not> n < 32"
    have "(0xfffc0000 :: u64) = and 0xfffc0000 (mask 32)" by (simp add: mask_eq_exp_minus_1)
    then have "bit (and (0xfffc0000 :: u64) (mask 32)) n" using b(1) by simp
    then show False using b(2) by (simp add: bit_simps)
  qed
  then show "bit (key_seed r1 r2) n = bit (and r2 0xfffc0000) n"
    by (auto simp: key_seed_def bit_simps)
qed

lemma key_seed_bound: "unat (key_seed r1 r2) < 2 ^ 32"
proof -
  have "key_seed r1 r2 \<le> 0xfffc0000" unfolding key_seed_mask by (rule word_and_le1)
  then show ?thesis by (simp add: word_le_nat_alt)
qed

lemma fill_keys_ok:
  assumes "seed \<noteq> 0" "unat seed + i + n \<le> 2 ^ 64"
  shows "fill_keys seed i n = Some (map (\<lambda>j. seed + of_nat j) [i..<i + n])"
  using assms(2)
proof (induction n arbitrary: i)
  case (Suc n)
  have "seed + of_nat i \<noteq> 0"
  proof
    assume z: "seed + of_nat i = 0"
    have "i < 2 ^ 64" using Suc.prems by linarith
    then have "unat (of_nat i :: u64) = i" by (simp add: unat_of_nat take_bit_nat_eq_self)
    then have "unat (seed + of_nat i) = unat seed + i" using Suc.prems by (subst unat_add_lem [THEN iffD1]) auto
    then show False using z assms(1) by (simp add: unat_eq_zero)
  qed
  moreover have "[i..<i + Suc n] = i # [i + 1..<i + 1 + n]" by (simp add: upt_conv_Cons del: upt_Suc)
  ultimately show ?case using Suc.IH [of "i + 1"] Suc.prems by (simp add: Let_def)
qed simp

lemma seed_loop_ok:
  assumes "seed_loop rnd i = Some s"
  shows "\<exists>k. s = and (rnd (i + 2 * k + 1)) 0xfffc0000 \<and> s \<noteq> 0 \<and> (\<forall>j < k. and (rnd (i + 2 * j + 1)) 0xfffc0000 = 0)"
  using assms
proof (induction rule: seed_loop.raw_induct [rotated, consumes 1])
  case (1 sl rnd i s)
  show ?case
  proof (cases "key_seed (rnd i) (rnd (i + 1)) = 0")
    case True
    then have "sl rnd (i + 2) = Some s" using "1"(2) by (simp add: Let_def)
    then obtain k where k: "s = and (rnd (i + 2 + 2 * k + 1)) 0xfffc0000" "s \<noteq> 0" "\<forall>j < k. and (rnd (i + 2 + 2 * j + 1)) 0xfffc0000 = 0"
      using "1"(1) by blast
    have "and (rnd (i + 2 * j + 1)) 0xfffc0000 = 0" if "j < Suc k" for j
    proof (cases j)
      case 0
      then show ?thesis using True by (simp add: key_seed_mask)
    next
      case (Suc j')
      then show ?thesis using k(3) that by (auto simp: algebra_simps)
    qed
    then show ?thesis using k(1,2) by (intro exI [of _ "Suc k"]) (simp add: algebra_simps)
  next
    case False
    then show ?thesis using "1"(2) by (intro exI [of _ 0]) (simp add: Let_def key_seed_mask)
  qed
qed

lemma seed_loop_returns:
  assumes "and (rnd (i + 2 * k + 1)) 0xfffc0000 \<noteq> 0"
  shows "\<exists>s. seed_loop rnd i = Some s"
  using assms
proof (induction k arbitrary: i)
  case 0
  then show ?case by (subst seed_loop.simps) (simp add: Let_def key_seed_mask)
next
  case (Suc k)
  then show ?case by (subst seed_loop.simps) (auto simp: Let_def algebra_simps)
qed


lemma nat_of_int32:
  assumes "unat (n :: u64) < 2 ^ 31"
  shows "nat (sint (ucast n :: 32 word)) = unat n"
proof -
  have "int (unat n) < int (2 ^ 31)" using assms by (simp only: of_nat_less_iff)
  then have u: "uint n < 2 ^ 31" by simp
  then have "uint (ucast n :: 32 word) = uint n" by (simp add: unsigned_ucast_eq take_bit_int_eq_self)
  moreover have "signed_take_bit 31 (uint n) = uint n"
  proof (rule signed_take_bit_int_eq_self)
    show "- (2 ^ 31) \<le> uint n" by (rule order_trans [of _ 0]) simp_all
  qed (use u in simp)
  ultimately have "sint (ucast n :: 32 word) = uint n" by (simp add: sint_uint)
  then show ?thesis by simp
qed

text \<open>The seed of the keys has its low 18 bits clear.\<close>

lemma masked_seed: "unat (and w 0xfffc0000 :: u64) mod 2 ^ 18 = 0"
proof -
  have "take_bit 18 (and w 0xfffc0000 :: u64) = 0"
  proof (rule bit_word_eqI)
    fix m assume "m < LENGTH(64)"
    have "take_bit 18 (0xfffc0000 :: u64) = 0" by simp
    then have "\<not> (bit (0xfffc0000 :: u64) m \<and> m < 18)" by (metis bit_take_bit_iff bit_0_eq bot_apply bot_bool_def)
    then show "bit (take_bit 18 (and w 0xfffc0000 :: u64)) m = bit 0 m" by (auto simp: bit_simps)
  qed
  then have "take_bit 18 (unat (and w 0xfffc0000 :: u64)) = 0" by (simp only: flip: unsigned_take_bit_eq) simp
  then show ?thesis by (simp only: take_bit_eq_mod)
qed

text \<open>
  C31: The generated keys are consecutive numbers from a seed that is the first of the random
  numbers at odd positions whose bits 18 to 31 are not all 0, cut to those bits: half of the random
  numbers are never used, and two clients draw from few seeds. Every key is different and not 0.
\<close>
theorem client_keys:
  assumes "and (rnd (2 * k + 1)) 0xfffc0000 \<noteq> 0" "unat n < 2 ^ 31"
  shows "\<exists>j ks. gen_key_corpus rnd n = Some ks \<and>
    ks = map (\<lambda>i. and (rnd (2 * j + 1)) 0xfffc0000 + of_nat i) [0..<unat n] \<and> distinct ks \<and> 0 \<notin> set ks \<and>
    unat (and (rnd (2 * j + 1)) 0xfffc0000) mod 2 ^ 18 = 0 \<and> unat (and (rnd (2 * j + 1)) 0xfffc0000) < 2 ^ 32"
proof -
  obtain s where s: "seed_loop rnd 0 = Some s" using seed_loop_returns [of rnd 0 k] assms(1) by auto
  obtain j where j: "s = and (rnd (2 * j + 1)) 0xfffc0000" "s \<noteq> 0" using seed_loop_ok [OF s] by auto
  note n = nat_of_int32 [OF assms(2)]
  have b: "unat s < 2 ^ 32" using key_seed_bound [of 0 "rnd (2 * j + 1)"] unfolding key_seed_mask j(1) .
  have fits: "unat s + 0 + unat n \<le> 2 ^ 64" using b assms(2) by simp
  let ?ks = "map (\<lambda>i. s + of_nat i) [0..<unat n]"
  have g: "gen_key_corpus rnd n = Some ?ks"
    using s fill_keys_ok [OF j(2) fits] n by (simp add: gen_key_corpus_def)
  have un: "unat (s + of_nat i) = unat s + i" if "i < unat n" for i
    by (rule unat_offset [of s "unat n"]) (use fits that in auto)
  have "distinct ?ks"
    unfolding distinct_map using un by (auto intro!: inj_onI) (metis add_left_cancel)
  moreover have "0 \<notin> set ?ks"
  proof
    assume "0 \<in> set ?ks"
    then obtain i where "i < unat n" "s + of_nat i = 0" by auto
    then have "unat s + i = 0" using un by (metis unat_0)
    then show False using j(2) by (simp add: unat_eq_zero)
  qed
  moreover have "unat s mod 2 ^ 18 = 0" unfolding j(1) by (rule masked_seed)
  ultimately have "gen_key_corpus rnd n = Some ?ks \<and> distinct ?ks \<and> 0 \<notin> set ?ks \<and> unat s mod 2 ^ 18 = 0 \<and> unat s < 2 ^ 32"
    using g b by blast
  then show ?thesis unfolding j(1)
    by (intro exI [of _ j] exI [of _ "map (\<lambda>i. and (rnd (2 * j + 1)) 0xfffc0000 + of_nat i) [0..<unat n]"]) simp
qed

definition demo_rnd :: "nat \<Rightarrow> u64" where
  "demo_rnd i = of_nat (if i < 4 then 7 * i else 262144 * (i + 1) + i)"

theorem client_keys_witness: "gen_key_corpus demo_rnd 3 \<noteq> None \<and> seed_loop demo_rnd 0 = Some (262144 * 6)"
proof -
  have "and (demo_rnd (2 * 2 + 1)) 0xfffc0000 \<noteq> 0" by (simp add: demo_rnd_def)
  then have "gen_key_corpus demo_rnd 3 \<noteq> None" using client_keys [of demo_rnd 2 3] by auto
  moreover have "seed_loop demo_rnd 0 = Some (262144 * 6)"
    by (subst seed_loop.simps, subst seed_loop.simps, subst seed_loop.simps) (simp add: demo_rnd_def key_seed_mask Let_def)
  ultimately show ?thesis by blast
qed

section \<open>Keys as bytes\<close>

lemma length_digit_bytes: "length (digit_bytes v) \<le> 20"
proof -
  have "length (decimal n) \<le> k" if "n < 10 ^ k" "0 < k" for n k
    using that
  proof (induction n arbitrary: k rule: decimal.induct)
    case (1 n)
    show ?case
    proof (cases "n < 10")
      case True
      then show ?thesis using "1.prems" by (subst decimal.simps) simp
    next
      case False
      obtain k' where k: "k = Suc k'" using "1.prems"(2) by (cases k) auto
      have "k' \<noteq> 0"
      proof
        assume "k' = 0"
        then show False using "1.prems"(1) False k by simp
      qed
      then have k': "k = Suc k'" "0 < k'" using k by simp_all
      then have "n div 10 < 10 ^ k'" using "1.prems" by (simp add: div_less_iff_less_mult ac_simps)
      then have "length (decimal (n div 10)) \<le> k'" using "1.IH" False k'(2) by blast
      then show ?thesis using False k' by (subst decimal.simps) simp
    qed
  qed
  moreover have "unat v < 10 ^ 20" using unsigned_less [of v, where 'a = nat] by (rule order.strict_trans2) simp
  ultimately show ?thesis by (simp add: digit_bytes_def message_def)
qed

lemma snprintf_key:
  "length old = 64 \<Longrightarrow> snprintf_llu 0 (KEY_SIZE + 1) v old = Some (digit_bytes v @ [0] @ drop (length (digit_bytes v) + 1) old)"
  using length_digit_bytes [of v] by (simp add: snprintf_llu_def overwrite_def access_simps Let_def)



section \<open>The put phase\<close>

lemma put_reply_checked: "length (put_reply res) = 50" "strcmp_eq (message ''put success'') (put_reply res) = Some res"
proof -
  have z: "replicate 39 (0 :: byte) = 0 # replicate 38 0" "replicate 40 (0 :: byte) = 0 # replicate 39 0"
    using replicate_Suc [of 38 "0 :: byte"] replicate_Suc [of 39 "0 :: byte"] by simp_all
  show "length (put_reply res) = 50" by (simp add: put_reply_def message_def overwrite_def access_simps Let_def)
  show "strcmp_eq (message ''put success'') (put_reply res) = Some res"
    by (cases res) (simp_all add: put_reply_def message_def access_simps Let_def overwrite_def z)
qed

lemma overwrite_same: "length xs = length buf \<Longrightarrow> overwrite 0 xs buf = xs"
  by (simp add: overwrite_def)

lemma put_once_ok:
  assumes "length junk = 320" "i < length ks" "i * 256 + 256 \<le> length vs" "inbox cl = []"
    "\<And>req. length req = 320 \<Longrightarrow> net (net_state cl) req = Some ([put_reply (f (net_state cl))], g (net_state cl))"
  shows "put_once net junk ks vs i cl = Some (cl\<lparr>inbox := [], net_state := g (net_state cl), put_count := put_count cl + 1,
     match_insert := match_insert cl + (if f (net_state cl) then 1 else 0)\<rparr>)"
proof -
  let ?k = "digit_bytes (ks ! i) @ [0] @ drop (length (digit_bytes (ks ! i)) + 1) (take 64 junk)"
  let ?v = "take 256 (drop (i * 256) vs)"
  have k: "snprintf_llu 0 (KEY_SIZE + 1) (ks ! i) (take 64 junk) = Some ?k" by (rule snprintf_key) (simp add: assms(1))
  have "length (?k @ ?v) = 320" using length_digit_bytes [of "ks ! i"] assms(1,3) by simp
  then have "net (net_state cl) (?k @ ?v) = Some ([put_reply (f (net_state cl))], g (net_state cl))" by (rule assms(5))
  moreover have "overwrite 0 (put_reply res) (replicate 50 0) = put_reply res" for res
    by (rule overwrite_same) (simp add: put_reply_checked)
  ultimately show ?thesis
    using k assms(2-4) by (simp add: put_once_def send_def access_simps put_reply_checked Let_def not_less)
qed


definition demo_net :: "nat net" where
  "demo_net s req = Some ([put_reply (s \<noteq> 1)], s + 1)"

definition demo_client :: "nat client" where
  "demo_client = \<lparr>inbox = [], net_state = 0, put_count = 0, get_count = 0, scan_count = 0, scan_kv_count = 0, match_insert = 0, match_search = 0\<rparr>"


end
