(* ===== verification/KV_Bench.thy ===== *)
theory KV_Bench
  imports KV_ServerRun KV_ServerMain KV_ClientFacts KV_Random
begin

text \<open>
  The store's benchmark, \<open>bufferevent_single/Hikv/test_main.cc\<close>: the mixed loop of \<open>thread_task\<close> with
  its generated keys and values, and what \<open>main\<close> asks of each thread. Latencies, times and all
  output are left out (\<open>REAL_TIME_STATS\<close> is off).
\<close>

section \<open>Arguments and locals\<close>

text \<open>The members \<open>seq\<close>, \<open>test_type\<close> and \<open>seed_range\<close> of the source have no effect and are left out.\<close>

record test_args =
  get_num_kv :: u64
  get_seed :: u64
  get_sequence_id :: u64
  put_num_kv :: u64
  put_seed :: u64
  put_sequence_id :: u64
  delete_num_kv :: u64
  delete_seed :: u64
  delete_sequence_id :: u64
  scan_num_kv :: u64
  scan_seed :: u64
  scan_range :: u64
  scan_sequence_id :: u64
  scan_all :: u64

text \<open>
  Where the arrays \<open>key\<close> and \<open>value\<close> of \<open>thread_task\<close> are on its stack, and what the unset elements of
  the argument array in \<open>hikv::insert\<close> hold.
\<close>

record buffers =
  key_arr :: ptr
  value_arr :: ptr
  rest_argv :: "u64 list"

text \<open>The local \<open>res\<close> is unset until the first put or get.\<close>

record bench =
  put_id :: u64
  get_id :: u64
  delete_id :: u64
  scan_id :: u64
  put_random :: random
  get_random :: random
  delete_random :: random
  scan_random :: random
  put_count :: u64
  get_count :: u64
  delete_count :: u64
  scan_count :: u64
  real_get_count :: u64
  scan_kv_count :: u64
  match_insert :: u64
  match_search :: u64
  match_delete :: u64
  res :: "bool option"

definition bench_start :: "test_args \<Rightarrow> bench" where
  "bench_start ta =
     \<lparr>put_id = put_sequence_id ta, get_id = get_sequence_id ta, delete_id = delete_sequence_id ta, scan_id = scan_sequence_id ta,
      put_random = Random (ucast (put_seed ta)), get_random = Random (ucast (get_seed ta)),
      delete_random = Random (ucast (delete_seed ta)), scan_random = Random (ucast (scan_seed ta)),
      put_count = 0, get_count = 0, delete_count = 0, scan_count = 0, real_get_count = 0, scan_kv_count = 0,
      match_insert = 0, match_search = 0, match_delete = 0, res = None\<rparr>"

section \<open>Keys and values\<close>

definition KEY_ARR :: nat where "KEY_ARR = KEY_LENGTH + 10"
definition VALUE_ARR :: nat where "VALUE_ARR = VALUE_LENGTH + 10"

text \<open>The number of a record: counted, or counted and drawn.\<close>

definition draw :: "bool \<Rightarrow> u64 \<Rightarrow> random \<Rightarrow> u64 \<times> random" where
  "draw sequence_rw i r = (if sequence_rw then (i, r) else let (x, r') = Next r in (i + ucast x, r'))"

text \<open>\<open>%016llu\<close>: at least 16 digits.\<close>

definition key_digits :: "u64 \<Rightarrow> byte list" where
  "key_digits n = replicate (16 - length (digit_bytes n)) 48 @ digit_bytes n"

text \<open>\<open>snprintf\<close> into an array of the given size: what fits, and the final zero.\<close>

definition print_to :: "nvmem \<Rightarrow> ptr \<Rightarrow> nat \<Rightarrow> byte list \<Rightarrow> nvmem option" where
  "print_to m a sz bs = mem_store m a (take (sz - 1) bs @ [0])"

definition clear :: "nvmem \<Rightarrow> ptr \<Rightarrow> nat \<Rightarrow> nvmem option" where
  "clear m a n = mem_store m a (replicate n 0)"

section \<open>The four parts of the loop\<close>

definition bench_put ::
  "(nat \<Rightarrow> ptr) \<Rightarrow> ptr \<Rightarrow> nat \<Rightarrow> bool \<Rightarrow> test_args \<Rightarrow> buffers \<Rightarrow> bench \<Rightarrow> hikv \<Rightarrow> (bool \<times> bench \<times> hikv) option" where
  "bench_put mal bt tid sequence_rw ta bf b s =
     (if put_count b < put_num_kv ta
      then do {
        m \<leftarrow> clear (h_mem s) (key_arr bf) KEY_ARR;
        m \<leftarrow> clear m (value_arr bf) VALUE_ARR;
        let (n, r) = draw sequence_rw (put_id b) (put_random b);
        m \<leftarrow> print_to m (key_arr bf) KEY_ARR (key_digits n);
        m \<leftarrow> print_to m (value_arr bf) VALUE_ARR (digit_bytes n);
        (ok, s') \<leftarrow> hikv_insert mal bt (rest_argv bf) tid (key_arr bf) (value_arr bf) (s\<lparr>h_mem := m\<rparr>);
        Some (True, b\<lparr>put_id := put_id b + 1, put_random := r, put_count := put_count b + 1, res := Some ok,
                match_insert := (if ok then match_insert b + 1 else match_insert b)\<rparr>, s') }
      else Some (False, b, s))"

definition due :: "u64 \<Rightarrow> bool" where
  "due n \<longleftrightarrow> n mod 3 = 0 \<or> n mod 5 = 0 \<or> n mod 7 = 0"

text \<open>The key is prepared when the count is due, the lookup made when the next count is.\<close>

definition bench_get ::
  "nat \<Rightarrow> bool \<Rightarrow> test_args \<Rightarrow> buffers \<Rightarrow> bench \<Rightarrow> hikv \<Rightarrow> (bool \<times> bench \<times> hikv) option" where
  "bench_get tid sequence_rw ta bf b s =
     (if get_count b < get_num_kv ta
      then do {
        let (n, r) = draw sequence_rw (get_id b) (get_random b);
        m \<leftarrow> (if due (get_count b)
             then do { m \<leftarrow> clear (h_mem s) (key_arr bf) KEY_ARR;
                       m \<leftarrow> print_to m (key_arr bf) KEY_ARR (key_digits n);
                       print_to m (value_arr bf) VALUE_ARR (digit_bytes n) }
             else Some (h_mem s));
        let b1 = b\<lparr>get_id := get_id b + 1, get_random := r, get_count := get_count b + 1\<rparr>;
        if due (get_count b1)
        then do {
          (ok, s') \<leftarrow> hikv_search tid (key_arr bf) (value_arr bf) (s\<lparr>h_mem := m\<rparr>);
          Some (True, b1\<lparr>real_get_count := real_get_count b + 1, res := Some ok,
                   match_search := (if ok then match_search b + 1 else match_search b)\<rparr>, s') }
        else Some (True, b1, s\<lparr>h_mem := m\<rparr>) }
      else Some (False, b, s))"

text \<open>Nothing is deleted; the result counted is the one of the last put or get.\<close>

definition bench_delete ::
  "bool \<Rightarrow> test_args \<Rightarrow> buffers \<Rightarrow> bench \<Rightarrow> hikv \<Rightarrow> (bool \<times> bench \<times> hikv) option" where
  "bench_delete sequence_rw ta bf b s =
     (if delete_count b < delete_num_kv ta
      then do {
        m \<leftarrow> clear (h_mem s) (key_arr bf) KEY_ARR;
        let (n, r) = draw sequence_rw (delete_id b) (delete_random b);
        m \<leftarrow> print_to m (key_arr bf) KEY_ARR (key_digits n);
        ok \<leftarrow> res b;
        Some (True, b\<lparr>delete_id := delete_id b + 1, delete_random := r, delete_count := delete_count b + 1,
                match_delete := (if ok then match_delete b + 1 else match_delete b)\<rparr>, s\<lparr>h_mem := m\<rparr>) }
      else Some (False, b, s))"

text \<open>The bounds of a scan; when they are out of order they are printed again as they were.\<close>

definition scan_bounds :: "test_args \<Rightarrow> buffers \<Rightarrow> u64 \<Rightarrow> nvmem \<Rightarrow> nvmem option" where
  "scan_bounds ta bf n m =
     do { m \<leftarrow> clear m (key_arr bf) KEY_ARR;
          m \<leftarrow> clear m (value_arr bf) VALUE_ARR;
          m \<leftarrow> print_to m (key_arr bf) KEY_ARR (key_digits n);
          print_to m (value_arr bf) VALUE_ARR (key_digits (n + scan_range ta)) }"

text \<open>The buffer has room for \<open>scan_range\<close> addresses; more are a write past its end.\<close>

definition bench_scan ::
  "bool \<Rightarrow> test_args \<Rightarrow> buffers \<Rightarrow> bench \<Rightarrow> hikv \<Rightarrow> (bool \<times> bench \<times> hikv) option" where
  "bench_scan sequence_rw ta bf b s =
     (if scan_count b < scan_num_kv ta
      then do {
        let (n, r) = draw sequence_rw (scan_id b) (scan_random b);
        m \<leftarrow> scan_bounds ta bf n (h_mem s);
        lo \<leftarrow> mem_load m (key_arr bf) KEY_LENGTH;
        hi \<leftarrow> mem_load m (value_arr bf) KEY_LENGTH;
        m \<leftarrow> (if memcmp lo hi > 0 then scan_bounds ta bf n m else Some m);
        as \<leftarrow> range_scan (key_arr bf) (value_arr bf) (s\<lparr>h_mem := m\<rparr>);
        if length as \<le> unat (scan_range ta)
        then Some (True, b\<lparr>scan_id := scan_id b + 1, scan_random := r, scan_count := scan_count b + 1,
                     scan_kv_count := scan_kv_count b + of_nat (length as)\<rparr>, s\<lparr>h_mem := m\<rparr>)
        else None }
      else Some (False, b, s))"

section \<open>The loop\<close>

definition bench_round ::
  "(nat \<Rightarrow> ptr) \<Rightarrow> ptr \<Rightarrow> nat \<Rightarrow> bool \<Rightarrow> test_args \<Rightarrow> buffers \<Rightarrow> bench \<Rightarrow> hikv \<Rightarrow> (bool \<times> bench \<times> hikv) option" where
  "bench_round mal bt tid sq ta bf b s =
     do { (f1, b, s) \<leftarrow> bench_put mal bt tid sq ta bf b s;
          (f2, b, s) \<leftarrow> bench_get tid sq ta bf b s;
          (f3, b, s) \<leftarrow> bench_delete sq ta bf b s;
          (f4, b, s) \<leftarrow> bench_scan sq ta bf b s;
          Some (f1 \<or> f2 \<or> f3 \<or> f4, b, s) }"

partial_function (option) bench_loop ::
  "(nat \<Rightarrow> ptr) \<Rightarrow> ptr \<Rightarrow> nat \<Rightarrow> bool \<Rightarrow> test_args \<Rightarrow> buffers \<Rightarrow> bench \<Rightarrow> hikv \<Rightarrow> (bench \<times> hikv) option" where
  "bench_loop mal bt tid sq ta bf b s =
     do { (flag, b', s') \<leftarrow> bench_round mal bt tid sq ta bf b s;
          if flag then bench_loop mal bt tid sq ta bf b' s' else Some (b', s') }"

definition thread_task ::
  "(nat \<Rightarrow> ptr) \<Rightarrow> ptr \<Rightarrow> nat \<Rightarrow> bool \<Rightarrow> test_args \<Rightarrow> buffers \<Rightarrow> hikv \<Rightarrow> (bench \<times> hikv) option" where
  "thread_task mal bt tid sq ta bf s = bench_loop mal bt tid sq ta bf (bench_start ta) s"

text \<open>
  What \<open>main\<close> sets for thread \<open>i\<close> before the warm-up and before the run; the other members keep what
  the stack held, which for the range is what the warm-up allocates its scan buffer with.
\<close>

definition warmup_args :: "nat \<Rightarrow> u64 \<Rightarrow> test_args \<Rightarrow> test_args" where
  "warmup_args i num_warm ta =
     ta\<lparr>put_num_kv := num_warm, put_sequence_id := 1, put_seed := 1000 + of_nat i,
        get_num_kv := 0, scan_num_kv := 0, delete_num_kv := 0, scan_all := 0\<rparr>"

definition run_args :: "nat \<Rightarrow> u64 \<Rightarrow> u64 \<Rightarrow> u64 \<Rightarrow> u64 \<Rightarrow> test_args \<Rightarrow> test_args" where
  "run_args i num_put num_get num_scan rng ta =
     ta\<lparr>put_num_kv := num_put, put_sequence_id := 1, put_seed := 5000 + of_nat i,
        get_num_kv := num_get, get_sequence_id := 1, get_seed := 1000 + of_nat i,
        scan_num_kv := num_scan, scan_sequence_id := 1, scan_seed := 1000 + of_nat i,
        scan_range := rng, delete_num_kv := 0, scan_all := 0\<rparr>"

section \<open>The command line\<close>

text \<open>
  The locals of \<open>main\<close> are those that the server keeps in \<open>hikv_arg\<close>. \<open>sequence_rw\<close> is a static of the
  file; an argument that no option fits ends the program, \<open>None\<close>.
\<close>

definition bench_defaults :: "bool \<times> hikv_arg" where
  "bench_defaults = (False, \<lparr>pm_size_arg = 2, num_server_thread_arg = 1, num_backend_thread_arg = 1, num_warm_kv = 0,
      num_put_kv = 0, num_get_kv = 0, num_delete_kv = 0, num_scan_kv = 0, scan_range_arg = 100, seed_arg = 1234, scan_all = 0\<rparr>)"

definition bench_option :: "nat \<Rightarrow> string \<Rightarrow> bool \<times> hikv_arg \<Rightarrow> (bool \<times> hikv_arg) option" where
  "bench_option i a st =
     (let (sq, ha) = st in
      else_if (sscanf_llu ''--pm_size='' a) (\<lambda>n. Some (sq, ha\<lparr>pm_size_arg := n\<rparr>)) (
      else_if (sscanf_llu ''--num_server_thread='' a) (\<lambda>n. Some (sq, ha\<lparr>num_server_thread_arg := n\<rparr>)) (
      else_if (sscanf_llu ''--num_backend_thread='' a) (\<lambda>n. Some (sq, ha\<lparr>num_backend_thread_arg := n\<rparr>)) (
      else_if (sscanf_llu ''--num_warm='' a) (\<lambda>n. Some (sq, ha\<lparr>num_warm_kv := n\<rparr>)) (
      else_if (sscanf_llu ''--num_put='' a) (\<lambda>n. Some (sq, ha\<lparr>num_put_kv := n\<rparr>)) (
      else_if (sscanf_llu ''--num_get='' a) (\<lambda>n. Some (sq, ha\<lparr>num_get_kv := n\<rparr>)) (
      else_if (sscanf_llu ''--num_delete='' a) (\<lambda>n. Some (sq, ha\<lparr>num_delete_kv := n\<rparr>)) (
      else_if (sscanf_llu ''--num_scan='' a) (\<lambda>n. Some (sq, ha\<lparr>num_scan_kv := n\<rparr>)) (
      else_if (sscanf_llu ''--scan_range='' a) (\<lambda>n. Some (sq, ha\<lparr>scan_range_arg := n\<rparr>)) (
      else_if (sscanf_llu ''--num_scan_all='' a) (\<lambda>n. Some (sq, ha\<lparr>hikv_arg.scan_all := n\<rparr>)) (
      else_if (sscanf_llu ''--seed='' a) (\<lambda>n. Some (sq, ha\<lparr>seed_arg := n\<rparr>)) (
      else_if (sscanf_llu ''--seq='' a) (\<lambda>n. Some (sq \<or> n = 1, ha)) (
      if i > 0 then None else Some (sq, ha))))))))))))))"

fun bench_options :: "nat \<Rightarrow> string list \<Rightarrow> bool \<times> hikv_arg \<Rightarrow> (bool \<times> hikv_arg) option" where
  "bench_options i [] st = Some st"
| "bench_options i (a # as) st = do { st \<leftarrow> bench_option i a st; bench_options (i + 1) as st }"

text \<open>The loops over the array of 32 argument records; what the array holds at first is \<open>junk\<close>.\<close>

fun fill_args :: "(nat \<Rightarrow> test_args \<Rightarrow> test_args) \<Rightarrow> nat \<Rightarrow> nat \<Rightarrow> test_args list \<Rightarrow> test_args list option" where
  "fill_args f i 0 tas = Some tas"
| "fill_args f i (Suc n) tas =
     do { ta \<leftarrow> rd tas i; tas \<leftarrow> wr tas i (f i ta); fill_args f (i + 1) n tas }"

text \<open>The store, the order flag and the arguments of both benchmarks; the inner \<open>None\<close> is the early exit.\<close>

definition bench_main ::
  "(nat \<Rightarrow> ptr) \<Rightarrow> ptr \<Rightarrow> raw_memory \<Rightarrow> nvmem \<Rightarrow> test_args list \<Rightarrow> string list \<Rightarrow>
   (hikv \<times> bool \<times> test_args list \<times> test_args list) option option" where
  "bench_main mal dest raw m junk argv =
     (case bench_options 0 argv bench_defaults of
        None \<Rightarrow> Some None
      | Some (sq, ha) \<Rightarrow>
          do { s \<leftarrow> hikv_new mal dest raw True (pm_size_arg ha * 1024 * 1024 * 1024) (num_server_thread_arg ha) (num_backend_thread_arg ha)
                 (num_server_thread_arg ha * (num_put_kv ha + num_warm_kv ha)) m;
               warm \<leftarrow> fill_args (\<lambda>i. warmup_args i (num_warm_kv ha)) 0 (unat (num_server_thread_arg ha)) junk;
               run \<leftarrow> fill_args (\<lambda>i. run_args i (num_put_kv ha) (num_get_kv ha) (num_scan_kv ha) (scan_range_arg ha)) 0
                 (unat (num_server_thread_arg ha)) warm;
               Some (Some (s, sq, warm, run)) })"

section \<open>The arrays\<close>

lemma store_over:
  assumes "mem_load m a n = Some xs" "mem_store m a ys = Some m'" "length ys \<le> n" "unat a + n \<le> 2 ^ 64"
  shows "mem_load m' a n = Some (overwrite 0 ys xs)"
proof -
  have x: "length xs = n" "\<And>j. j < n \<Longrightarrow> bytes m (a + of_nat j) = Some (xs ! j)"
    using assms(1) by (auto simp: mem_load_def mapped_less split: if_splits)
  have len: "length (overwrite 0 ys xs) = n" using assms(3) x(1) by (simp add: overwrite_def)
  have "bytes m' (a + of_nat j) = Some (overwrite 0 ys xs ! j)" if "j < n" for j
    using stored_bytes [OF assms(2,4,3) that] x(2) [OF that] x(1) that assms(3) by (simp add: overwrite_def nth_append)
  then show ?thesis using load_bytes [of "overwrite 0 ys xs" m' a] len by simp
qed

lemma store_apart:
  assumes "mem_store m a ys = Some m'" "apart b n a (length ys)" "unat b + n \<le> 2 ^ 64" "unat a + length ys \<le> 2 ^ 64"
  shows "mem_load m' b n = mem_load m b n"
proof (rule load_cong(1))
  fix i assume "i < n"
  then have "\<not> in_range a (length ys) (b + of_nat i)" using apart_range [OF assms(2-4)] by simp
  then show "bytes m' (b + of_nat i) = bytes m (b + of_nat i)"
    using assms(1) by (auto simp: mem_store_def write_bytes_def split: if_splits)
qed

definition key_of :: "u64 \<Rightarrow> byte list" where
  "key_of n = key_digits n @ replicate (64 - length (key_digits n)) 0"

definition value_of :: "u64 \<Rightarrow> byte list" where
  "value_of n = digit_bytes n @ replicate (256 - length (digit_bytes n)) 0"

lemma length_key_digits: "length (key_digits n) \<le> 20"
  using length_digit_bytes [of n] by (simp add: key_digits_def)

lemma length_key_of [simp]: "length (key_of n) = 64"
  using length_key_digits [of n] by (simp add: key_of_def)

lemma length_value_of [simp]: "length (value_of n) = 256"
  using length_digit_bytes [of n] by (simp add: value_of_def)

text \<open>The buffers of a thread: outside the log, and not overlapping.\<close>

definition buffers_ok :: "config \<Rightarrow> nvmem \<Rightarrow> buffers \<Rightarrow> bool" where
  "buffers_ok c m bf \<longleftrightarrow> buffer_ok c m (key_arr bf) 74 \<and> buffer_ok c m (value_arr bf) 266 \<and>
     apart (key_arr bf) 74 (value_arr bf) 266 \<and> length (rest_argv bf) = 6"

lemma buffers_stored: "mem_store m a bs = Some m' \<Longrightarrow> buffers_ok c m bf \<Longrightarrow> buffers_ok c m' bf"
  by (auto simp: buffers_ok_def dest: buffer_stored)

lemma arrays_filled:
  assumes r: "kv_reached c (s, h, d)" and b: "buffers_ok c (h_mem s) bf"
  shows "\<exists>m1 m2 m3 m4. clear (h_mem s) (key_arr bf) KEY_ARR = Some m1 \<and> clear m1 (value_arr bf) VALUE_ARR = Some m2 \<and>
    print_to m2 (key_arr bf) KEY_ARR (key_digits n) = Some m3 \<and> print_to m3 (value_arr bf) VALUE_ARR (digit_bytes n) = Some m4 \<and>
    kv_reached c (s\<lparr>h_mem := m4\<rparr>, h, d) \<and> buffers_ok c m4 bf \<and>
    mem_load m4 (key_arr bf) 64 = Some (key_of n) \<and> mem_load m4 (value_arr bf) 256 = Some (value_of n)"
proof -
  let ?k = "key_arr bf" and ?v = "value_arr bf"
  let ?ks = "key_digits n @ [0]" and ?vs = "digit_bytes n @ [0]"
  have arr: "KEY_ARR = 74" "VALUE_ARR = 266" by (simp_all add: KEY_ARR_def VALUE_ARR_def access_simps)
  have ks: "length ?ks \<le> 21" "take 73 (key_digits n) @ [0] = ?ks" using length_key_digits [of n] by simp_all
  have vs: "length ?vs \<le> 21" "take 265 (digit_bytes n) @ [0] = ?vs" using length_digit_bytes [of n] by simp_all
  have bk: "buffer_ok c m ?k 74" "buffer_ok c m ?v 266" "apart ?k 74 ?v 266" if "buffers_ok c m bf" for m
    using that by (auto simp: buffers_ok_def)
  have nw: "unat ?k + 74 \<le> 2 ^ 64" "unat ?v + 266 \<le> 2 ^ 64" using bk(1,2) [OF b] by (auto simp: buffer_ok_def)
  obtain m1 where m1: "mem_store (h_mem s) ?k (replicate 74 0) = Some m1" "kv_reached c (s\<lparr>h_mem := m1\<rparr>, h, d)"
    "mem_load m1 ?k 74 = Some (replicate 74 0)"
    using reached_store [OF r bk(1) [OF b], of "replicate 74 0"] by auto
  have b1: "buffers_ok c m1 bf" by (rule buffers_stored [OF m1(1) b])
  obtain m2 where m2: "mem_store m1 ?v (replicate 266 0) = Some m2" "kv_reached c (s\<lparr>h_mem := m2\<rparr>, h, d)"
    "mem_load m2 ?v 266 = Some (replicate 266 0)"
    using reached_store [OF m1(2), of ?v 266 "replicate 266 0"] bk(2) [OF b1] by auto
  have b2: "buffers_ok c m2 bf" by (rule buffers_stored [OF m2(1) b1])
  obtain m3 where m3: "mem_store m2 ?k ?ks = Some m3" "kv_reached c (s\<lparr>h_mem := m3\<rparr>, h, d)"
    using reached_store [OF m2(2), of ?k 74 ?ks] bk(1) [OF b2] ks(1) by auto
  have b3: "buffers_ok c m3 bf" by (rule buffers_stored [OF m3(1) b2])
  obtain m4 where m4: "mem_store m3 ?v ?vs = Some m4" "kv_reached c (s\<lparr>h_mem := m4\<rparr>, h, d)"
    using reached_store [OF m3(2), of ?v 266 ?vs] bk(2) [OF b3] vs(1) by auto
  have b4: "buffers_ok c m4 bf" by (rule buffers_stored [OF m4(1) b3])
  have ap: "apart ?k 74 ?v (length xs)" if "length xs \<le> 266" for xs :: "byte list"
    using bk(3) [OF b] that by (auto simp: apart_def)
  have ap': "apart ?v 266 ?k (length xs)" if "length xs \<le> 74" for xs :: "byte list"
    using bk(3) [OF b] that by (auto simp: apart_def)
  have "mem_load m2 ?k 74 = Some (replicate 74 0)"
    using store_apart [OF m2(1) ap nw(1)] m1(3) nw(2) by simp
  then have "mem_load m3 ?k 74 = Some (overwrite 0 ?ks (replicate 74 0))"
    using store_over [OF _ m3(1) _ nw(1)] ks(1) by simp
  then have k4: "mem_load m4 ?k 74 = Some (overwrite 0 ?ks (replicate 74 0))"
    using store_apart [OF m4(1) ap nw(1)] vs(1) nw(2) by simp
  have "mem_load m3 ?v 266 = Some (replicate 266 0)"
    using store_apart [OF m3(1) ap' nw(2)] m2(3) ks(1) nw(1) by simp
  then have v4: "mem_load m4 ?v 266 = Some (overwrite 0 ?vs (replicate 266 0))"
    using store_over [OF _ m4(1) _ nw(2)] vs(1) by simp
  have "take 64 (overwrite 0 ?ks (replicate 74 0)) = key_of n"
    using length_key_digits [of n] by (simp add: overwrite_def key_of_def replicate_Suc [symmetric] Suc_diff_Suc flip: replicate_Suc)
  moreover have "take 256 (overwrite 0 ?vs (replicate 266 0)) = value_of n"
    using length_digit_bytes [of n] by (simp add: overwrite_def value_of_def replicate_Suc [symmetric] Suc_diff_Suc flip: replicate_Suc)
  ultimately have "mem_load m4 ?k 64 = Some (key_of n)" "mem_load m4 ?v 256 = Some (value_of n)"
    using load_sub [OF nw(1) _ k4, of 0 64] load_sub [OF nw(2) _ v4, of 0 256] by simp_all
  then show ?thesis using m1(1) m2(1) m3(1) m4 b4 ks(2) vs(2) by (simp add: clear_def print_to_def arr)
qed

end
