(* ===== verification/KV_BenchFacts.thy ===== *)
theory KV_BenchFacts
  imports KV_Bench KV_MainFacts
begin

text \<open>
  The benchmark thread on a store: its puts and gets return, the records it puts are the ones it
  generates, in their order, and its counters are right.
\<close>

section \<open>What a thread generates\<close>

primrec drawn :: "bool \<Rightarrow> u64 \<Rightarrow> random \<Rightarrow> nat \<Rightarrow> u64 list" where
  "drawn sq i r 0 = []"
| "drawn sq i r (Suc n) = (let (x, r') = draw sq i r in x # drawn sq (i + 1) r' n)"

primrec after_draws :: "bool \<Rightarrow> u64 \<Rightarrow> random \<Rightarrow> nat \<Rightarrow> random" where
  "after_draws sq i r 0 = r"
| "after_draws sq i r (Suc n) = after_draws sq (i + 1) (snd (draw sq i r)) n"

lemma length_drawn [simp]: "length (drawn sq i r n) = n"
  by (induction n arbitrary: i r) (auto split: prod.splits)

lemma drawn_add: "drawn sq i r (n + k) = drawn sq i r n @ drawn sq (i + of_nat n) (after_draws sq i r n) k"
  by (induction n arbitrary: i r) (simp_all add: case_prod_unfold Let_def add.assoc)

lemma after_draws_add: "after_draws sq i r (n + k) = after_draws sq (i + of_nat n) (after_draws sq i r n) k"
  by (induction n arbitrary: i r) (simp_all add: add.assoc)

text \<open>Drawn one after the other, the numbers are consecutive.\<close>

lemma drawn_sequence: "drawn True i r n = map (\<lambda>j. i + of_nat j) [0..<n]"
proof (induction n arbitrary: i r)
  case (Suc n)
  then show ?case by (simp add: draw_def upt_conv_Cons map_Suc_upt [symmetric] add.assoc del: upt_Suc)
qed simp

text \<open>The lookups among gets that are counted from \<open>i\<close>.\<close>

primrec looked :: "u64 \<Rightarrow> nat \<Rightarrow> nat" where
  "looked i 0 = 0"
| "looked i (Suc n) = (if due (i + 1) then 1 else 0) + looked (i + 1) n"

lemma looked_add: "looked i (n + k) = looked i n + looked (i + of_nat n) k"
  by (induction n arbitrary: i) (simp_all add: add.assoc)

definition recs :: "bool list \<Rightarrow> u64 list \<Rightarrow> (bool \<times> byte list \<times> byte list) list" where
  "recs oks ns = map2 (\<lambda>ok n. (ok, key_of n, value_of n)) oks ns"

lemma length_recs [simp]: "length (recs oks ns) = min (length oks) (length ns)"
  by (simp add: recs_def)

lemma recs_append: "length oks = length ns \<Longrightarrow> recs (oks @ oks') (ns @ ns') = recs oks ns @ recs oks' ns'"
  by (simp add: recs_def)

section \<open>A stretch of the loop\<close>

text \<open>The state of a thread between two parts of the loop.\<close>

definition thread_ok :: "config \<Rightarrow> buffers \<Rightarrow> bench \<Rightarrow> hikv \<Rightarrow> history \<Rightarrow> (nat \<Rightarrow> nat) \<Rightarrow> bool" where
  "thread_ok c bf b s h d \<longleftrightarrow> kv_reached c (s, h, d) \<and> buffers_ok c (h_mem s) bf \<and>
     (get_count b = 0 \<or> (\<exists>kb \<in> c_keys c. mem_load (h_mem s) (key_arr bf) 64 = Some kb))"

text \<open>\<open>a\<close> puts and \<open>g\<close> gets later.\<close>

definition later :: "config \<Rightarrow> nat \<Rightarrow> bool \<Rightarrow> buffers \<Rightarrow> (nat \<Rightarrow> nat) \<Rightarrow> nat \<Rightarrow> nat \<Rightarrow> bench \<Rightarrow> history \<Rightarrow> bench \<Rightarrow> hikv \<Rightarrow> history \<Rightarrow> bool" where
  "later c p sq bf d a g b h b' s' h' \<longleftrightarrow> thread_ok c bf b' s' h' d \<and>
     (\<exists>oks found. length oks = a \<and> found \<le> looked (get_count b) g \<and>
        h' = h(p := h p @ recs oks (drawn sq (put_id b) (put_random b) a)) \<and>
        put_id b' = put_id b + of_nat a \<and> put_random b' = after_draws sq (put_id b) (put_random b) a \<and>
        get_id b' = get_id b + of_nat g \<and> get_random b' = after_draws sq (get_id b) (get_random b) g \<and>
        put_count b' = put_count b + of_nat a \<and> get_count b' = get_count b + of_nat g \<and>
        match_insert b' = match_insert b + of_nat (count_list oks True) \<and>
        real_get_count b' = real_get_count b + of_nat (looked (get_count b) g) \<and>
        match_search b' = match_search b + of_nat found \<and>
        delete_count b' = delete_count b \<and> scan_count b' = scan_count b)"

lemma later_refl: "thread_ok c bf b s h d \<Longrightarrow> later c p sq bf d 0 0 b h b s h"
  by (simp add: later_def recs_def)

lemma later_trans:
  assumes "later c p sq bf d a g b h b1 s1 h1" "later c p sq bf d a' g' b1 h1 b2 s2 h2"
  shows "later c p sq bf d (a + a') (g + g') b h b2 s2 h2"
proof -
  obtain oks f where A: "length oks = a" "f \<le> looked (get_count b) g"
    "h1 = h(p := h p @ recs oks (drawn sq (put_id b) (put_random b) a))"
    "match_insert b1 = match_insert b + of_nat (count_list oks True)" "match_search b1 = match_search b + of_nat f"
    and A': "put_id b1 = put_id b + of_nat a" "put_random b1 = after_draws sq (put_id b) (put_random b) a"
    "get_id b1 = get_id b + of_nat g" "get_random b1 = after_draws sq (get_id b) (get_random b) g"
    "put_count b1 = put_count b + of_nat a" "get_count b1 = get_count b + of_nat g"
    "real_get_count b1 = real_get_count b + of_nat (looked (get_count b) g)"
    "delete_count b1 = delete_count b" "scan_count b1 = scan_count b"
    using assms(1) unfolding later_def by blast
  obtain oks' f' where B: "length oks' = a'" "f' \<le> looked (get_count b1) g'"
    "h2 = h1(p := h1 p @ recs oks' (drawn sq (put_id b1) (put_random b1) a'))"
    "match_insert b2 = match_insert b1 + of_nat (count_list oks' True)" "match_search b2 = match_search b1 + of_nat f'"
    and B': "put_id b2 = put_id b1 + of_nat a'" "put_random b2 = after_draws sq (put_id b1) (put_random b1) a'"
    "get_id b2 = get_id b1 + of_nat g'" "get_random b2 = after_draws sq (get_id b1) (get_random b1) g'"
    "put_count b2 = put_count b1 + of_nat a'" "get_count b2 = get_count b1 + of_nat g'"
    "real_get_count b2 = real_get_count b1 + of_nat (looked (get_count b1) g')"
    "delete_count b2 = delete_count b1" "scan_count b2 = scan_count b1" "thread_ok c bf b2 s2 h2 d"
    using assms(2) unfolding later_def by blast
  have h2: "h2 = h(p := h p @ recs (oks @ oks') (drawn sq (put_id b) (put_random b) (a + a')))"
    unfolding drawn_add using A(1,3) B(3) A'(1,2) by (simp add: recs_append)
  show ?thesis
    unfolding later_def
  proof (intro conjI exI [of _ "oks @ oks'"] exI [of _ "f + f'"])
    show "h2 = h(p := h p @ recs (oks @ oks') (drawn sq (put_id b) (put_random b) (a + a')))" by (rule h2)
    show "f + f' \<le> looked (get_count b) (g + g')" using A(2) B(2) A'(6) by (simp add: looked_add)
  qed (use A B A' B' in \<open>simp_all add: after_draws_add looked_add add.assoc\<close>)
qed

section \<open>One put, one get\<close>

lemma put_later:
  assumes t: "thread_ok c bf b s h d" and p: "p < c_num c" "length (h p) < c_items c" "length (h p) - d p < MAX_QUEUE_SIZE"
    and due: "put_count b < put_num_kv ta" and k: "key_of (fst (draw sq (put_id b) (put_random b))) \<in> c_keys c"
  shows "\<exists>b' s' h'. bench_put (c_mal c) bt p sq ta bf b s = Some (True, b', s') \<and> later c p sq bf d 1 0 b h b' s' h'"
proof -
  obtain n r where nr: "draw sq (put_id b) (put_random b) = (n, r)" by fastforce
  have R: "kv_reached c (s, h, d)" "buffers_ok c (h_mem s) bf" using t by (auto simp: thread_ok_def)
  obtain m1 m2 m3 m where M: "clear (h_mem s) (key_arr bf) KEY_ARR = Some m1" "clear m1 (value_arr bf) VALUE_ARR = Some m2"
    "print_to m2 (key_arr bf) KEY_ARR (key_digits n) = Some m3" "print_to m3 (value_arr bf) VALUE_ARR (digit_bytes n) = Some m"
    "kv_reached c (s\<lparr>h_mem := m\<rparr>, h, d)" "buffers_ok c m bf"
    "mem_load m (key_arr bf) 64 = Some (key_of n)" "mem_load m (value_arr bf) 256 = Some (value_of n)"
    using arrays_filled [OF R] by blast
  let ?s = "s\<lparr>h_mem := m\<rparr>"
  have B: "buffer_ok c m (key_arr bf) 74" "buffer_ok c m (value_arr bf) 266" "length (rest_argv bf) = 6"
    using M(6) by (auto simp: buffers_ok_def)
  have kb: "buffer_ok c m (key_arr bf) 64" "buffer_ok c m (value_arr bf) 256"
    using buffer_sub [OF B(1), of 0 64] buffer_sub [OF B(2), of 0 256] by simp_all
  have kk: "key_of n \<in> c_keys c" using k nr by simp
  have "\<exists>ok s'. hikv_insert (c_mal c) bt (rest_argv bf) p (key_arr bf) (value_arr bf) ?s = Some (ok, s') \<and>
    kv_reached c (s', h(p := h p @ [(ok, key_of n, value_of n)]), d)"
    by (rule reached_put [where h = h and d = d, OF M(5) p(1,2) _ _ _ _ kk p(3) B(3)]) (use kb M(7,8) in simp_all)
  then obtain ok s' where S: "hikv_insert (c_mal c) bt (rest_argv bf) p (key_arr bf) (value_arr bf) ?s = Some (ok, s')"
    "kv_reached c (s', h(p := h p @ [(ok, key_of n, value_of n)]), d)" by blast
  have st: "store_ok c (?s, h, d)" by (rule reached_ok [OF M(5)])
  have ib: "buffer_ok c (h_mem s') x k" "mem_load (h_mem s') x k = mem_load m x k" if "buffer_ok c m x k" for x k
    using insert_buffer [OF st p(1,2) _ _ S(1), of x k] kb that by simp_all
  have "buffers_ok c (h_mem s') bf" using ib B M(6) by (simp add: buffers_ok_def)
  moreover have "mem_load (h_mem s') (key_arr bf) 64 = Some (key_of n)" using ib(2) [OF kb(1)] M(7) by simp
  ultimately have T: "thread_ok c bf b' s' (h(p := h p @ [(ok, key_of n, value_of n)])) d" for b'
    using S(2) kk by (auto simp: thread_ok_def)
  show ?thesis
    using M(1-4) S(1) due nr
    by (intro exI conjI, simp add: bench_put_def)
      (auto simp: later_def recs_def nr intro!: T exI [of _ "[ok]"])
qed


lemma search_memory:
  assumes "hikv_search p key val s = Some (found, s')"
  shows "h_mem s' = h_mem s \<or> (\<exists>v. length v = 256 \<and> mem_store (h_mem s) val v = Some (h_mem s'))"
proof -
  have v: "length v = 256" if "mem_load m a 256 = Some v" for m a v using length_load [OF that] .
  show ?thesis using assms by (auto simp: hikv_search_def access_simps split: Option.bind_splits option.splits dest: v)
qed

text \<open>A write to one of the two arrays.\<close>

lemma value_store:
  assumes r: "kv_reached c (s, h, d)" and b: "buffers_ok c (h_mem s) bf" and l: "length bs \<le> 266"
  obtains m where "mem_store (h_mem s) (value_arr bf) bs = Some m" "kv_reached c (s\<lparr>h_mem := m\<rparr>, h, d)" "buffers_ok c m bf"
    "mem_load m (key_arr bf) 64 = mem_load (h_mem s) (key_arr bf) 64"
proof -
  have B: "buffer_ok c (h_mem s) (key_arr bf) 74" "buffer_ok c (h_mem s) (value_arr bf) 266" "apart (key_arr bf) 74 (value_arr bf) 266"
    using b by (auto simp: buffers_ok_def)
  obtain m where m: "mem_store (h_mem s) (value_arr bf) bs = Some m" "kv_reached c (s\<lparr>h_mem := m\<rparr>, h, d)"
    by (rule reached_store [OF r B(2) l])
  have "apart (key_arr bf) 64 (value_arr bf) (length bs)" using B(3) l by (auto simp: apart_def)
  then have "mem_load m (key_arr bf) 64 = mem_load (h_mem s) (key_arr bf) 64"
    by (rule store_apart [OF m(1)]) (use B l in \<open>auto simp: buffer_ok_def\<close>)
  then show ?thesis using that m buffers_stored [OF m(1) b] by blast
qed

lemma key_filled:
  assumes r: "kv_reached c (s, h, d)" and b: "buffers_ok c (h_mem s) bf"
  shows "\<exists>m1 m. clear (h_mem s) (key_arr bf) KEY_ARR = Some m1 \<and> print_to m1 (key_arr bf) KEY_ARR (key_digits n) = Some m \<and>
    kv_reached c (s\<lparr>h_mem := m\<rparr>, h, d) \<and> buffers_ok c m bf \<and> mem_load m (key_arr bf) 64 = Some (key_of n)"
proof -
  let ?k = "key_arr bf" and ?ks = "key_digits n @ [0]"
  have arr: "KEY_ARR = 74" by (simp add: KEY_ARR_def access_simps)
  have ks: "length ?ks \<le> 74" "take 73 (key_digits n) @ [0] = ?ks" using length_key_digits [of n] by simp_all
  have bk: "buffer_ok c m ?k 74" if "buffers_ok c m bf" for m using that by (auto simp: buffers_ok_def)
  have nw: "unat ?k + 74 \<le> 2 ^ 64" using bk [OF b] by (auto simp: buffer_ok_def)
  obtain m1 where m1: "mem_store (h_mem s) ?k (replicate 74 0) = Some m1" "kv_reached c (s\<lparr>h_mem := m1\<rparr>, h, d)"
    "mem_load m1 ?k 74 = Some (replicate 74 0)"
    using reached_store [OF r bk [OF b], of "replicate 74 0"] by auto
  have b1: "buffers_ok c m1 bf" by (rule buffers_stored [OF m1(1) b])
  obtain m where m: "mem_store m1 ?k ?ks = Some m" "kv_reached c (s\<lparr>h_mem := m\<rparr>, h, d)"
    using reached_store [OF m1(2), of ?k 74 ?ks] bk [OF b1] ks(1) by auto
  have "mem_load m ?k 74 = Some (overwrite 0 ?ks (replicate 74 0))"
    by (rule store_over [OF m1(3) m(1) ks(1) nw])
  moreover have "take 64 (overwrite 0 ?ks (replicate 74 0)) = key_of n"
    using length_key_digits [of n] by (simp add: overwrite_def key_of_def replicate_Suc [symmetric] Suc_diff_Suc flip: replicate_Suc)
  ultimately have "mem_load m ?k 64 = Some (key_of n)" using load_sub [OF nw, of 0 64] by simp
  then show ?thesis using m1(1) m ks(2) buffers_stored [OF m(1) b1] by (simp add: clear_def print_to_def arr)
qed

lemma get_arrays:
  assumes t: "thread_ok c bf b s h d" and k: "key_of n \<in> c_keys c"
  shows "\<exists>m kb. (if due (get_count b)
       then do { m \<leftarrow> clear (h_mem s) (key_arr bf) KEY_ARR;
                 m \<leftarrow> print_to m (key_arr bf) KEY_ARR (key_digits n);
                 print_to m (value_arr bf) VALUE_ARR (digit_bytes n) }
       else Some (h_mem s)) = Some m \<and>
    kv_reached c (s\<lparr>h_mem := m\<rparr>, h, d) \<and> buffers_ok c m bf \<and> kb \<in> c_keys c \<and> mem_load m (key_arr bf) 64 = Some kb \<and>
    (if due (get_count b) then kb = key_of n else mem_load (h_mem s) (key_arr bf) 64 = Some kb)"
proof (cases "due (get_count b)")
  case False
  then have "get_count b \<noteq> 0" by (auto simp: due_def)
  then show ?thesis using t False by (auto simp: thread_ok_def)
next
  case True
  have R: "kv_reached c (s, h, d)" "buffers_ok c (h_mem s) bf" using t by (auto simp: thread_ok_def)
  obtain m1 m2 where M: "clear (h_mem s) (key_arr bf) KEY_ARR = Some m1" "print_to m1 (key_arr bf) KEY_ARR (key_digits n) = Some m2"
    "kv_reached c (s\<lparr>h_mem := m2\<rparr>, h, d)" "buffers_ok c m2 bf" "mem_load m2 (key_arr bf) 64 = Some (key_of n)"
    using key_filled [OF R] by blast
  let ?vs = "digit_bytes n @ [0]"
  have vs: "length ?vs \<le> 266" "take 265 (digit_bytes n) @ [0] = ?vs" using length_digit_bytes [of n] by simp_all
  have arr: "VALUE_ARR = 266" by (simp add: VALUE_ARR_def access_simps)
  obtain m where m: "mem_store m2 (value_arr bf) ?vs = Some m" "kv_reached c (s\<lparr>h_mem := m\<rparr>, h, d)" "buffers_ok c m bf"
    "mem_load m (key_arr bf) 64 = mem_load m2 (key_arr bf) 64"
    using value_store [OF M(3) _ vs(1)] M(4) by auto
  have "print_to m2 (value_arr bf) VALUE_ARR (digit_bytes n) = Some m" using m(1) vs(2) by (simp add: print_to_def arr)
  then show ?thesis using True M(1,2,5) m(2-4) k by auto
qed

text \<open>Whether a lookup of a key finds it: its first put is not item 0.\<close>

definition holds :: "(bool \<times> byte list \<times> byte list) list \<Rightarrow> byte list \<Rightarrow> bool" where
  "holds hs kb = (case first_put hs kb of None \<Rightarrow> False | Some i \<Rightarrow> i \<noteq> 0)"

lemma get_later:
  assumes t: "thread_ok c bf b s h d" and p: "p < c_num c"
    and due: "get_count b < get_num_kv ta" and k: "key_of (fst (draw sq (get_id b) (get_random b))) \<in> c_keys c"
  shows "\<exists>b' s' kb. bench_get p sq ta bf b s = Some (True, b', s') \<and> later c p sq bf d 0 1 b h b' s' h \<and>
    mem_load (h_mem s') (key_arr bf) 64 = Some kb \<and>
    (if due (get_count b) then kb = key_of (fst (draw sq (get_id b) (get_random b))) else mem_load (h_mem s) (key_arr bf) 64 = Some kb) \<and>
    match_search b' = match_search b + (if due (get_count b + 1) \<and> holds (h p) kb then 1 else 0)"
proof -
  obtain n r where nr: "draw sq (get_id b) (get_random b) = (n, r)" by fastforce
  have kk: "key_of n \<in> c_keys c" using k nr by simp
  obtain m kb where M: "(if due (get_count b)
       then do { m \<leftarrow> clear (h_mem s) (key_arr bf) KEY_ARR;
                 m \<leftarrow> print_to m (key_arr bf) KEY_ARR (key_digits n);
                 print_to m (value_arr bf) VALUE_ARR (digit_bytes n) }
       else Some (h_mem s)) = Some m"
    "kv_reached c (s\<lparr>h_mem := m\<rparr>, h, d)" "buffers_ok c m bf" "kb \<in> c_keys c" "mem_load m (key_arr bf) 64 = Some kb"
    "if due (get_count b) then kb = key_of n else mem_load (h_mem s) (key_arr bf) 64 = Some kb"
    using get_arrays [OF t kk] by blast
  let ?s = "s\<lparr>h_mem := m\<rparr>"
  let ?b = "b\<lparr>get_id := get_id b + 1, get_random := r, get_count := get_count b + 1\<rparr>"
  show ?thesis
  proof (cases "due (get_count b + 1)")
    case False
    have "thread_ok c bf ?b ?s h d" using M by (auto simp: thread_ok_def)
    then have "later c p sq bf d 0 1 b h ?b ?s h" using False nr by (auto simp: later_def recs_def)
    moreover have "bench_get p sq ta bf b s = Some (True, ?b, ?s)" using False M(1) due nr by (simp add: bench_get_def)
    ultimately show ?thesis using False M(5,6) nr by (intro exI [of _ ?b] exI [of _ ?s] exI [of _ kb]) simp
  next
    case True
    have B: "buffer_ok c m (value_arr bf) 266" "apart (key_arr bf) 74 (value_arr bf) 266" "unat (key_arr bf) + 74 \<le> 2 ^ 64"
      using M(3) by (auto simp: buffers_ok_def buffer_ok_def)
    have vb: "buffer_ok c m (value_arr bf) 256" using buffer_sub [OF B(1), of 0 256] by simp
    obtain ok s' where S: "hikv_search p (key_arr bf) (value_arr bf) ?s = Some (ok, s')" "kv_reached c (s', h, d)" "ok = holds (h p) kb"
      using reached_get [OF M(2) p _ M(4), of "key_arr bf" "value_arr bf"] M(5) vb
      by (auto simp: holds_def split: option.splits if_splits)
    have K: "buffers_ok c (h_mem s') bf \<and> mem_load (h_mem s') (key_arr bf) 64 = Some kb"
      using search_memory [OF S(1)]
    proof
      assume "h_mem s' = h_mem ?s"
      then show ?thesis using M by simp
    next
      assume "\<exists>v. length v = 256 \<and> mem_store (h_mem ?s) (value_arr bf) v = Some (h_mem s')"
      then obtain v where v: "length v = 256" "mem_store m (value_arr bf) v = Some (h_mem s')" by auto
      have "apart (key_arr bf) 64 (value_arr bf) (length v)" using B(2) v(1) by (auto simp: apart_def)
      then show ?thesis
        using buffers_stored [OF v(2) M(3)] store_apart [OF v(2)] M(5) B(3) vb v(1) by (simp add: buffer_ok_def)
    qed
    then have T: "thread_ok c bf b' s' h d" for b' using S(2) M(4) by (auto simp: thread_ok_def)
    let ?b' = "?b\<lparr>real_get_count := real_get_count b + 1, res := Some ok,
      match_search := (if ok then match_search b + 1 else match_search b)\<rparr>"
    have "later c p sq bf d 0 1 b h ?b' s' h"
      using True nr T by (auto simp: later_def recs_def intro!: exI [of _ "if ok then 1 else 0 :: nat"])
    moreover have "bench_get p sq ta bf b s = Some (True, ?b', s')"
      using True M(1) S(1) due nr by (simp add: bench_get_def)
    ultimately show ?thesis using True K M(6) S(3) nr by (intro exI [of _ ?b'] exI [of _ s'] exI [of _ kb]) simp
  qed
qed


section \<open>The loop\<close>

text \<open>What the loop asks of the store for \<open>a\<close> more puts and \<open>g\<close> more gets.\<close>

definition loop_pre :: "config \<Rightarrow> nat \<Rightarrow> bool \<Rightarrow> test_args \<Rightarrow> buffers \<Rightarrow> (nat \<Rightarrow> nat) \<Rightarrow> nat \<Rightarrow> nat \<Rightarrow> bench \<Rightarrow> hikv \<Rightarrow> history \<Rightarrow> bool" where
  "loop_pre c p sq ta bf d a g b s h \<longleftrightarrow> thread_ok c bf b s h d \<and> p < c_num c \<and>
     length (h p) + a \<le> c_items c \<and> length (h p) + a \<le> MAX_QUEUE_SIZE + d p \<and>
     unat (put_num_kv ta) = unat (put_count b) + a \<and> unat (get_num_kv ta) = unat (get_count b) + g \<and>
     key_of ` set (drawn sq (put_id b) (put_random b) a) \<subseteq> c_keys c \<and>
     key_of ` set (drawn sq (get_id b) (get_random b) g) \<subseteq> c_keys c \<and>
     delete_count b = delete_num_kv ta \<and> scan_count b = scan_num_kv ta"

lemma unat_counted:
  assumes "unat (y :: u64) = unat (x :: u64) + a" "j \<le> a"
  shows "unat (x + of_nat j) = unat x + j"
proof -
  have "unat y < 2 ^ LENGTH(64)" by (rule unsigned_less)
  then show ?thesis using unat_offset [of x "a + 1" j] assms by simp
qed

lemma loop_pre_later:
  assumes pre: "loop_pre c p sq ta bf d a g b s h" and l: "later c p sq bf d i j b h b' s' h'" and ij: "i \<le> a" "j \<le> g"
  shows "loop_pre c p sq ta bf d (a - i) (g - j) b' s' h'"
proof -
  obtain oks where L: "length oks = i" "thread_ok c bf b' s' h' d"
    "h' = h(p := h p @ recs oks (drawn sq (put_id b) (put_random b) i))"
    "put_id b' = put_id b + of_nat i" "put_random b' = after_draws sq (put_id b) (put_random b) i"
    "get_id b' = get_id b + of_nat j" "get_random b' = after_draws sq (get_id b) (get_random b) j"
    "put_count b' = put_count b + of_nat i" "get_count b' = get_count b + of_nat j"
    "delete_count b' = delete_count b" "scan_count b' = scan_count b"
    using l unfolding later_def by blast
  have a: "a = i + (a - i)" "g = j + (g - j)" using ij by simp_all
  have u: "unat (put_num_kv ta) = unat (put_count b) + a" "unat (get_num_kv ta) = unat (get_count b) + g"
    using pre by (auto simp: loop_pre_def)
  have k: "key_of ` set (drawn sq (put_id b) (put_random b) (i + (a - i))) \<subseteq> c_keys c"
    "key_of ` set (drawn sq (get_id b) (get_random b) (j + (g - j))) \<subseteq> c_keys c"
    using pre a by (auto simp: loop_pre_def)
  have "key_of ` set (drawn sq (put_id b') (put_random b') (a - i)) \<subseteq> c_keys c"
    "key_of ` set (drawn sq (get_id b') (get_random b') (g - j)) \<subseteq> c_keys c"
    using k unfolding drawn_add L(4-7) by auto
  then show ?thesis
    using pre L u unat_counted [OF u(1) ij(1)] unat_counted [OF u(2) ij(2)] ij by (auto simp: loop_pre_def)
qed

lemma put_part:
  assumes pre: "loop_pre c p sq ta bf d a g b s h"
  shows "\<exists>b' s' h'. bench_put (c_mal c) bt p sq ta bf b s = Some (0 < a, b', s') \<and> later c p sq bf d (min 1 a) 0 b h b' s' h'"
proof (cases a)
  case 0
  then have "\<not> put_count b < put_num_kv ta" using pre by (simp add: loop_pre_def word_less_nat_alt)
  moreover have "later c p sq bf d (min 1 a) 0 b h b s h" using 0 pre later_refl by (simp add: loop_pre_def)
  ultimately show ?thesis using 0 by (auto simp: bench_put_def)
next
  case (Suc a')
  then have "put_count b < put_num_kv ta" "key_of (fst (draw sq (put_id b) (put_random b))) \<in> c_keys c"
    using pre by (auto simp: loop_pre_def word_less_nat_alt case_prod_unfold Let_def)
  moreover have "length (h p) < c_items c" "length (h p) - d p < MAX_QUEUE_SIZE"
    using pre Suc by (auto simp: loop_pre_def MAX_QUEUE_SIZE_def)
  ultimately show ?thesis using put_later [of c bf b s h d p ta sq bt] pre Suc by (simp add: loop_pre_def)
qed

lemma get_part:
  assumes pre: "loop_pre c p sq ta bf d a g b s h"
  shows "\<exists>b' s'. bench_get p sq ta bf b s = Some (0 < g, b', s') \<and> later c p sq bf d 0 (min 1 g) b h b' s' h"
proof (cases g)
  case 0
  then have "\<not> get_count b < get_num_kv ta" using pre by (simp add: loop_pre_def word_less_nat_alt)
  moreover have "later c p sq bf d 0 (min 1 g) b h b s h" using 0 pre later_refl by (simp add: loop_pre_def)
  ultimately show ?thesis using 0 by (auto simp: bench_get_def)
next
  case (Suc g')
  then have "get_count b < get_num_kv ta" "key_of (fst (draw sq (get_id b) (get_random b))) \<in> c_keys c"
    using pre by (auto simp: loop_pre_def word_less_nat_alt case_prod_unfold Let_def)
  moreover have "thread_ok c bf b s h d" "p < c_num c" using pre by (auto simp: loop_pre_def)
  ultimately obtain b' s' where "bench_get p sq ta bf b s = Some (True, b', s')" "later c p sq bf d 0 1 b h b' s' h"
    using get_later by blast
  then show ?thesis using Suc by auto
qed

text \<open>One round: a put and a get, as far as there are any left.\<close>

lemma round_part:
  assumes pre: "loop_pre c p sq ta bf d a g b s h"
  shows "\<exists>b' s' h'. bench_round (c_mal c) bt p sq ta bf b s = Some (0 < a \<or> 0 < g, b', s') \<and>
    later c p sq bf d (min 1 a) (min 1 g) b h b' s' h'"
proof -
  obtain b1 s1 h1 where P: "bench_put (c_mal c) bt p sq ta bf b s = Some (0 < a, b1, s1)" "later c p sq bf d (min 1 a) 0 b h b1 s1 h1"
    using put_part [OF pre] by blast
  have pre1: "loop_pre c p sq ta bf d (a - min 1 a) g b1 s1 h1" using loop_pre_later [OF pre P(2)] by simp
  obtain b2 s2 where G: "bench_get p sq ta bf b1 s1 = Some (0 < g, b2, s2)" "later c p sq bf d 0 (min 1 g) b1 h1 b2 s2 h1"
    using get_part [OF pre1] by blast
  have "loop_pre c p sq ta bf d (a - min 1 a) (g - min 1 g) b2 s2 h1" using loop_pre_later [OF pre1 G(2)] by simp
  then have "bench_delete sq ta bf b2 s2 = Some (False, b2, s2)" "bench_scan sq ta bf b2 s2 = Some (False, b2, s2)"
    by (simp_all add: loop_pre_def bench_delete_def bench_scan_def)
  then have "bench_round (c_mal c) bt p sq ta bf b s = Some (0 < a \<or> 0 < g, b2, s2)"
    using P(1) G(1) by (simp add: bench_round_def)
  then show ?thesis using later_trans [OF P(2) G(2)] by auto
qed

lemma bench_loop_ok:
  assumes "loop_pre c p sq ta bf d a g b s h"
  shows "\<exists>b' s' h'. bench_loop (c_mal c) bt p sq ta bf b s = Some (b', s') \<and> later c p sq bf d a g b h b' s' h'"
  using assms
proof (induction "a + g" arbitrary: a g b s h rule: less_induct)
  case less
  obtain b1 s1 h1 where R: "bench_round (c_mal c) bt p sq ta bf b s = Some (0 < a \<or> 0 < g, b1, s1)"
    "later c p sq bf d (min 1 a) (min 1 g) b h b1 s1 h1"
    using round_part [OF less.prems] by blast
  show ?case
  proof (cases "0 < a \<or> 0 < g")
    case False
    then show ?thesis using R by (subst bench_loop.simps) auto
  next
    case True
    have "loop_pre c p sq ta bf d (a - min 1 a) (g - min 1 g) b1 s1 h1" by (rule loop_pre_later [OF less.prems R(2)]) simp_all
    moreover have "(a - min 1 a) + (g - min 1 g) < a + g" using True by auto
    ultimately obtain b' s' h' where I: "bench_loop (c_mal c) bt p sq ta bf b1 s1 = Some (b', s')"
      "later c p sq bf d (a - min 1 a) (g - min 1 g) b1 h1 b' s' h'"
      using less.hyps by blast
    have "later c p sq bf d a g b h b' s' h'" using later_trans [OF R(2) I(2)] by simp
    then show ?thesis using R(1) I(1) True by (subst bench_loop.simps) auto
  qed
qed


text \<open>
  A thread that only puts and gets ends. It puts exactly the numbers it draws, in that order, its
  count of accepted puts is the number of accepted records in the history, and it looks up once for
  each get whose count is divisible by 3, 5 or 7.
\<close>

lemma thread_ends:
  assumes "kv_reached c (s, h, d)" "buffers_ok c (h_mem s) bf" "p < c_num c" "delete_num_kv ta = 0" "scan_num_kv ta = 0"
    "puts = drawn sq (put_sequence_id ta) (Random (ucast (put_seed ta))) (unat (put_num_kv ta))"
    "gets = drawn sq (get_sequence_id ta) (Random (ucast (get_seed ta))) (unat (get_num_kv ta))"
    "key_of ` (set puts \<union> set gets) \<subseteq> c_keys c"
    "length (h p) + length puts \<le> c_items c" "length (h p) + length puts \<le> MAX_QUEUE_SIZE + d p"
  shows "\<exists>b s' oks. thread_task (c_mal c) bt p sq ta bf s = Some (b, s') \<and> length oks = length puts \<and>
    kv_reached c (s', h(p := h p @ recs oks puts), d) \<and>
    put_count b = put_num_kv ta \<and> match_insert b = of_nat (count_list oks True) \<and>
    get_count b = get_num_kv ta \<and> real_get_count b = of_nat (looked 0 (length gets)) \<and>
    (\<exists>found \<le> looked 0 (length gets). match_search b = of_nat found)"
proof -
  let ?a = "unat (put_num_kv ta)" and ?g = "unat (get_num_kv ta)"
  have "loop_pre c p sq ta bf d ?a ?g (bench_start ta) s h"
    using assms by (auto simp: loop_pre_def thread_ok_def bench_start_def)
  then obtain b s' h' where L: "thread_task (c_mal c) bt p sq ta bf s = Some (b, s')"
    "later c p sq bf d ?a ?g (bench_start ta) h b s' h'"
    using bench_loop_ok unfolding thread_task_def by blast
  have n: "of_nat ?a = put_num_kv ta" "of_nat ?g = get_num_kv ta" by simp_all
  show ?thesis
    using L assms(6,7) n unfolding later_def thread_ok_def by (force simp: bench_start_def)
qed

section \<open>Which keys are looked up\<close>

text \<open>The get that prepared the key of the \<open>j\<close>-th, counting both from 0.\<close>

primrec prepared :: "nat \<Rightarrow> nat" where
  "prepared 0 = 0"
| "prepared (Suc j) = (if due (of_nat j) then j else prepared j)"

lemma prepared_less: "0 < j \<Longrightarrow> prepared j < j"
  by (induction j) (auto simp: less_Suc_eq)

text \<open>The lookups that find something among the first \<open>n\<close> gets.\<close>

definition hits :: "(bool \<times> byte list \<times> byte list) list \<Rightarrow> u64 list \<Rightarrow> nat \<Rightarrow> nat" where
  "hits hs gets n = length (filter (\<lambda>j. due (of_nat j) \<and> holds hs (key_of (gets ! prepared j))) [1..<n + 1])"

lemma hits_simps:
  "hits hs gets 0 = 0"
  "hits hs gets (Suc n) = hits hs gets n + (if due (of_nat (Suc n)) \<and> holds hs (key_of (gets ! prepared (Suc n))) then 1 else 0)"
  by (simp_all add: hits_def)

lemma draw_nth:
  assumes "j < n"
  shows "fst (draw sq (i + of_nat j) (after_draws sq i r j)) = drawn sq i r n ! j"
proof -
  obtain k where n: "n = j + Suc k" using assms less_imp_Suc_add by auto
  show ?thesis unfolding n drawn_add by (simp add: nth_append case_prod_unfold Let_def)
qed

text \<open>After \<open>j\<close> gets of a thread that only gets.\<close>

definition reading :: "config \<Rightarrow> nat \<Rightarrow> bool \<Rightarrow> test_args \<Rightarrow> buffers \<Rightarrow> history \<Rightarrow> (nat \<Rightarrow> nat) \<Rightarrow> u64 list \<Rightarrow> nat \<Rightarrow> bench \<Rightarrow> hikv \<Rightarrow> bool" where
  "reading c p sq ta bf h d gets j b s \<longleftrightarrow> j \<le> length gets \<and> length gets = unat (get_num_kv ta) \<and>
     later c p sq bf d 0 j (bench_start ta) h b s h \<and> match_search b = of_nat (hits (h p) gets j) \<and>
     (0 < j \<longrightarrow> mem_load (h_mem s) (key_arr bf) 64 = Some (key_of (gets ! prepared j)))"

lemma reading_step:
  assumes r: "reading c p sq ta bf h d gets j b s" and j: "j < length gets" and p: "p < c_num c"
    and gets: "gets = drawn sq (get_sequence_id ta) (Random (ucast (get_seed ta))) (length gets)"
    and k: "key_of ` set gets \<subseteq> c_keys c"
  shows "\<exists>b' s'. bench_get p sq ta bf b s = Some (True, b', s') \<and> reading c p sq ta bf h d gets (Suc j) b' s'"
proof -
  let ?i = "get_sequence_id ta" and ?r = "Random (ucast (get_seed ta))"
  have L: "later c p sq bf d 0 j (bench_start ta) h b s h" "length gets = unat (get_num_kv ta)" using r by (auto simp: reading_def)
  have b: "get_id b = ?i + of_nat j" "get_random b = after_draws sq ?i ?r j" "get_count b = of_nat j" "thread_ok c bf b s h d"
    using L(1) by (auto simp: later_def bench_start_def)
  have n: "fst (draw sq (get_id b) (get_random b)) = gets ! j" unfolding b using draw_nth [OF j, of sq ?i ?r] gets by simp
  have kn: "key_of (fst (draw sq (get_id b) (get_random b))) \<in> c_keys c" unfolding n using k j by auto
  have lt: "get_count b < get_num_kv ta"
    using b(3) j L(2) unat_counted [of "get_num_kv ta" 0 "length gets" j] by (simp add: word_less_nat_alt)
  obtain b' s' kb where G: "bench_get p sq ta bf b s = Some (True, b', s')" "later c p sq bf d 0 1 b h b' s' h"
    "mem_load (h_mem s') (key_arr bf) 64 = Some kb"
    "if due (get_count b) then kb = key_of (fst (draw sq (get_id b) (get_random b))) else mem_load (h_mem s) (key_arr bf) 64 = Some kb"
    "match_search b' = match_search b + (if due (get_count b + 1) \<and> holds (h p) kb then 1 else 0)"
    using get_later [OF b(4) p lt kn] by blast
  have d0: "due 0" by (simp add: due_def)
  have kb: "kb = key_of (gets ! prepared (Suc j))"
    using G(4) r b(3) d0 n by (cases "j = 0") (auto simp: reading_def split: if_splits)
  have c: "get_count b + 1 = of_nat (Suc j)" using b(3) by simp
  have "match_search b' = of_nat (hits (h p) gets (Suc j))"
    using r G(5) unfolding c kb hits_simps reading_def by simp
  moreover have "later c p sq bf d 0 (Suc j) (bench_start ta) h b' s' h" using later_trans [OF L(1) G(2)] by simp
  ultimately have "reading c p sq ta bf h d gets (Suc j) b' s'" using r j G(3) kb by (simp add: reading_def)
  then show ?thesis using G(1) by blast
qed

lemma reading_loop:
  assumes "reading c p sq ta bf h d gets j b s" and ta: "put_num_kv ta = 0" "delete_num_kv ta = 0" "scan_num_kv ta = 0" and p: "p < c_num c"
    and gets: "gets = drawn sq (get_sequence_id ta) (Random (ucast (get_seed ta))) (length gets)"
    and k: "key_of ` set gets \<subseteq> c_keys c"
  shows "\<exists>b' s'. bench_loop mal bt p sq ta bf b s = Some (b', s') \<and> reading c p sq ta bf h d gets (length gets) b' s'"
  using assms(1)
proof (induction "length gets - j" arbitrary: j b s)
  case 0
  then have r: "reading c p sq ta bf h d gets (length gets) b s" by (auto simp: reading_def)
  then have "get_count b = of_nat (unat (get_num_kv ta))" "scan_count b = 0" "delete_count b = 0"
    unfolding reading_def later_def bench_start_def by (elim conjE exE, simp only: bench.simps add_0)+
  then have "get_count b = get_num_kv ta" "scan_count b = 0" "delete_count b = 0" by simp_all
  then have "bench_round mal bt p sq ta bf b s = Some (False, b, s)"
    using ta by (simp add: bench_round_def bench_put_def bench_get_def bench_delete_def bench_scan_def)
  then show ?case using r by (subst bench_loop.simps) simp
next
  case (Suc x)
  have j: "j < length gets" using Suc.hyps(2) by simp
  obtain b1 s1 where G: "bench_get p sq ta bf b s = Some (True, b1, s1)" "reading c p sq ta bf h d gets (Suc j) b1 s1"
    using reading_step [OF Suc.prems j p gets k] by blast
  have "scan_count b1 = 0" "delete_count b1 = 0" using G(2) by (auto simp: reading_def later_def bench_start_def)
  then have R: "bench_round mal bt p sq ta bf b s = Some (True, b1, s1)"
    using G(1) ta by (simp add: bench_round_def bench_put_def bench_delete_def bench_scan_def)
  have "x = length gets - Suc j" using Suc.hyps(2) by simp
  then obtain b' s' where "bench_loop mal bt p sq ta bf b1 s1 = Some (b', s')" "reading c p sq ta bf h d gets (length gets) b' s'"
    using Suc.hyps(1) G(2) by blast
  then show ?case using R by (subst bench_loop.simps) simp
qed

section \<open>Arguments of the threads\<close>

lemma fill_args_ok:
  "i + n \<le> length tas \<Longrightarrow>
   \<exists>tas'. fill_args f i n tas = Some tas' \<and> length tas' = length tas \<and>
     (\<forall>j < length tas. tas' ! j = (if i \<le> j \<and> j < i + n then f j (tas ! j) else tas ! j))"
proof (induction n arbitrary: i tas)
  case (Suc n)
  have i: "i < length tas" using Suc.prems by simp
  obtain tas' where T: "fill_args f (i + 1) n (tas[i := f i (tas ! i)]) = Some tas'" "length tas' = length tas"
    "\<forall>j < length tas. tas' ! j = (if i + 1 \<le> j \<and> j < i + 1 + n then f j (tas[i := f i (tas ! i)] ! j) else tas[i := f i (tas ! i)] ! j)"
    using Suc.IH [of "i + 1" "tas[i := f i (tas ! i)]"] Suc.prems by auto
  have "fill_args f i (Suc n) tas = Some tas'" using i T(1) by (simp add: access_simps)
  moreover have "tas' ! j = (if i \<le> j \<and> j < i + Suc n then f j (tas ! j) else tas ! j)" if "j < length tas" for j
    using T(3) that i by (cases "j = i") auto
  ultimately show ?case using T(2) by blast
qed auto

section \<open>A small store for the benchmark\<close>

lemma bench_keys:
  "key_of 1 = replicate 15 48 @ [49] @ replicate 48 0" "key_of 2 = replicate 15 48 @ [50] @ replicate 48 0"
  "key_of 3 = replicate 15 48 @ [51] @ replicate 48 0" "key_of 4 = replicate 15 48 @ [52] @ replicate 48 0"
  by code_simp+

lemma bench_city:
  "CityHash64 (key_of 1) 64 = Some 120992208795532705" "CityHash64 (key_of 2) 64 = Some 13829056400840581839"
  unfolding bench_keys by code_simp+

lemma bench_city':
  "CityHash64 (key_of 3) 64 = Some 6562796526384127189" "CityHash64 (key_of 4) 64 = Some 14741121907396764736"
  unfolding bench_keys by code_simp+

lemma bench_mix:
  "HashLen16 (120992208795532705 - k2) SEED1 = 14415269734476299811" "HashLen16 (120992208795532705 - k2) SEED2 = 18334173378535914060"
  "HashLen16 (13829056400840581839 - k2) SEED1 = 6915968895844542719" "HashLen16 (13829056400840581839 - k2) SEED2 = 10404412898968376144"
  "HashLen16 (6562796526384127189 - k2) SEED1 = 16291327610503138347" "HashLen16 (6562796526384127189 - k2) SEED2 = 4396391528267229113"
  "HashLen16 (14741121907396764736 - k2) SEED1 = 7990169575021618723" "HashLen16 (14741121907396764736 - k2) SEED2 = 426141634934801070"
  by code_simp+

lemma bench_hashes:
  "hash1 (key_of 1) = Some 14415269734476299811" "hash2 (key_of 1) = Some 18334173378535914060"
  "hash1 (key_of 2) = Some 6915968895844542719" "hash2 (key_of 2) = Some 10404412898968376144"
  "hash1 (key_of 3) = Some 16291327610503138347" "hash2 (key_of 3) = Some 4396391528267229113"
  "hash1 (key_of 4) = Some 7990169575021618723" "hash2 (key_of 4) = Some 426141634934801070"
  by (simp_all add: hash1_def hash2_def CityHash64WithSeed_def CityHash64WithSeeds_def KEY_LENGTH_val bench_city bench_city' bench_mix)

definition bench_config :: config where
  "bench_config = new_config count_up 100 5 (key_of ` {1, 2, 3, 4}) 65536 4096 1 4"

definition bench_bufs :: buffers where
  "bench_bufs = \<lparr>key_arr = 200000, value_arr = 300000, rest_argv = replicate 6 0\<rparr>"

lemma bench_told_apart: "told_apart (key_of ` {1, 2, 3, 4})"
  by (simp add: told_apart_def access_simps sig1_def sig2_def bench_hashes)

lemma bench_pre: "new_pre count_up 100 5 (key_of ` {1, 2, 3, 4}) 65536 4096 1 4 demo_raw demo_mem"
  using demo_pre bench_told_apart by (simp add: new_pre_def)

lemma bench_c: "c_num bench_config = 1" "c_items bench_config = 5" "c_keys bench_config = key_of ` {1, 2, 3, 4}"
  "c_mal bench_config = count_up"
  by (simp_all add: bench_config_def new_config_def)

lemma bench_empty:
  obtains s where "kv_reached bench_config (s, demo_hist [], \<lambda>_. 0)" "buffers_ok bench_config (h_mem s) bench_bufs"
    "h_ht s = demo_table zero_bucket zero_bucket"
proof -
  obtain s0 where s0: "hikv_new count_up 65536 demo_raw True 4096 1 1 4 demo_mem = Some s0" "h_mem s0 = demo_mem"
    by (rule demo_new) blast
  have st: "c_start bench_config p = c_start demo_config p" for p
    by (simp add: bench_config_def demo_config_def new_config_def)
  have "buffers_ok bench_config demo_mem bench_bufs"
    using demo_start by (force simp: buffers_ok_def buffer_ok_def bench_c bench_bufs_def demo_mapped st apart_def)
  moreover have "h_ht s0 = demo_table zero_bucket zero_bucket"
    using new_table [OF s0(1)] demo_table_new by (simp add: demo_raw_def NUM_SLOT_val)
  ultimately show ?thesis using that [of s0] s0(2) reached_new [OF bench_pre s0(1)] by (simp add: bench_config_def fun_upd_idem)
qed

lemma bench_more:
  assumes r: "kv_reached bench_config (s, demo_hist hs, \<lambda>_. 0)" "buffers_ok bench_config (h_mem s) bench_bufs"
    and n: "length hs < 5" "n \<in> {1, 2, 3, 4}"
    and ins: "ht_insert 0 (key_of n) (of_nat (320 * length hs)) (h_ht s) = Some (True, t')"
  obtains s' where "kv_reached bench_config (s', demo_hist (hs @ [(True, key_of n, value_of n)]), \<lambda>_. 0)"
    "buffers_ok bench_config (h_mem s') bench_bufs" "h_ht s' = t'"
proof -
  let ?bf = bench_bufs
  obtain m where M: "kv_reached bench_config (s\<lparr>h_mem := m\<rparr>, demo_hist hs, \<lambda>_. 0)" "buffers_ok bench_config m ?bf"
    "mem_load m (key_arr ?bf) 64 = Some (key_of n)" "mem_load m (value_arr ?bf) 256 = Some (value_of n)"
    using arrays_filled [OF r] by blast
  let ?s = "s\<lparr>h_mem := m\<rparr>"
  have B: "buffer_ok bench_config m (key_arr ?bf) 64" "buffer_ok bench_config m (value_arr ?bf) 256"
    using M(2) buffer_sub [of bench_config m "key_arr ?bf" 74 0 64] buffer_sub [of bench_config m "value_arr ?bf" 266 0 256]
    by (simp_all add: buffers_ok_def)
  have c: "0 < c_num bench_config" "length (demo_hist hs 0) < c_items bench_config" "key_of n \<in> c_keys bench_config"
    "length (demo_hist hs 0) - 0 < MAX_QUEUE_SIZE" "length (replicate 6 (0 :: u64)) = 6"
    using n by (auto simp: bench_c MAX_QUEUE_SIZE_def)
  have ld: "mem_load (h_mem ?s) (key_arr ?bf) 64 = Some (key_of n)" "mem_load (h_mem ?s) (value_arr ?bf) 256 = Some (value_of n)"
    "buffer_ok bench_config (h_mem ?s) (key_arr ?bf) 64" "buffer_ok bench_config (h_mem ?s) (value_arr ?bf) 256"
    using M(3,4) B by simp_all
  obtain ok s' where R: "hikv_insert (c_mal bench_config) 64 (replicate 6 0) 0 (key_arr ?bf) (value_arr ?bf) ?s = Some (ok, s')"
    "ht_insert 0 (key_of n) (of_nat (320 * length (demo_hist hs 0))) (h_ht ?s) = Some (ok, h_ht s')"
    using put_ok [where h = "demo_hist hs" and d = "\<lambda>_. 0", OF reached_ok [OF M(1)] c(1,2) ld(3,4,1,2) c(3-5)] by blast
  have e: "ok = True" "h_ht s' = t'" using R(2) ins by simp_all
  have "kv_step bench_config (?s, demo_hist hs, \<lambda>_. 0) (s', (demo_hist hs)(0 := demo_hist hs 0 @ [(ok, key_of n, value_of n)]), \<lambda>_. 0)"
    by (rule kv_step.put [where h = "demo_hist hs" and d = "\<lambda>_. 0", OF c(1,2) ld(3,4,1,2) c(3-5) R(1)])
  then have "kv_reached bench_config (s', demo_hist (hs @ [(True, key_of n, value_of n)]), \<lambda>_. 0)"
    using reached_step [OF M(1)] e(1) by simp
  moreover have "buffers_ok bench_config (h_mem s') ?bf"
    using insert_buffer [OF reached_ok [OF M(1)] c(1,2) ld(3,4) R(1)] M(2) by (simp add: buffers_ok_def)
  ultimately show ?thesis using that e(2) by blast
qed

abbreviation bench_table :: "hash_bucket \<Rightarrow> hash_bucket \<Rightarrow> hash_table" where
  "bench_table x y \<equiv> \<lparr>ht_num_partition = 1, num_bucket = 4, partition = [x, zero_bucket, zero_bucket, y] # replicate 31 []\<rparr>"

abbreviation bucket_1 :: hash_bucket where
  "bucket_1 \<equiv> \<lparr>signature = [14415269734476299811, 0, 0, 0], addr = [0, 0, 0, 0]\<rparr>"

abbreviation bucket_2 :: hash_bucket where
  "bucket_2 \<equiv> \<lparr>signature = [10404412898968376144, 0, 0, 0], addr = [320, 0, 0, 0]\<rparr>"

lemma bench_slots:
  "insert_slots 14415269734476299811 18334173378535914060 3 0 0 0 4 [zero_bucket, zero_bucket, zero_bucket, zero_bucket]
     = Some (True, [zero_bucket, zero_bucket, zero_bucket, bucket_1])"
  "insert_slots 6915968895844542719 10404412898968376144 3 0 320 0 4 [zero_bucket, zero_bucket, zero_bucket, bucket_1]
     = Some (True, [bucket_2, zero_bucket, zero_bucket, bucket_1])"
  by code_simp+

lemma bench_inserts:
  "ht_insert 0 (key_of 1) 0 (demo_table zero_bucket zero_bucket) = Some (True, bench_table zero_bucket bucket_1)"
  "ht_insert 0 (key_of 2) 320 (bench_table zero_bucket bucket_1) = Some (True, bench_table bucket_2 bucket_1)"
  by (simp_all add: ht_insert_def bench_hashes demo_table_def bucket_id_def access_simps bench_slots del: insert_slots.simps)

lemma bench_two:
  obtains s where "kv_reached bench_config (s, demo_hist [(True, key_of 1, value_of 1), (True, key_of 2, value_of 2)], \<lambda>_. 0)"
    "buffers_ok bench_config (h_mem s) bench_bufs"
proof -
  obtain s0 where s0: "kv_reached bench_config (s0, demo_hist [], \<lambda>_. 0)" "buffers_ok bench_config (h_mem s0) bench_bufs"
    "h_ht s0 = demo_table zero_bucket zero_bucket" by (rule bench_empty)
  obtain s1 where s1: "kv_reached bench_config (s1, demo_hist ([] @ [(True, key_of 1, value_of 1)]), \<lambda>_. 0)"
    "buffers_ok bench_config (h_mem s1) bench_bufs" "h_ht s1 = bench_table zero_bucket bucket_1"
    by (rule bench_more [OF s0(1,2), of 1]) (auto simp: s0(3) bench_inserts)
  obtain s where "kv_reached bench_config (s, demo_hist ([(True, key_of 1, value_of 1)] @ [(True, key_of 2, value_of 2)]), \<lambda>_. 0)"
    "buffers_ok bench_config (h_mem s) bench_bufs"
    by (rule bench_more [where hs = "[(True, key_of 1, value_of 1)]" and n = 2 and s = s1]) (use s1 in \<open>auto simp: bench_inserts\<close>)
  then show ?thesis using that by simp
qed

definition bench_args :: "u64 \<Rightarrow> u64 \<Rightarrow> u64 \<Rightarrow> test_args" where
  "bench_args put get from_id =
     \<lparr>get_num_kv = get, get_seed = 0, get_sequence_id = from_id, put_num_kv = put, put_seed = 0, put_sequence_id = 1,
      delete_num_kv = 0, delete_seed = 0, delete_sequence_id = 0, scan_num_kv = 0, scan_seed = 0, scan_range = 0,
      scan_sequence_id = 0, scan_all = 0\<rparr>"

lemma bench_draws: "drawn True i r 3 = [i, i + 1, i + 2]" "drawn True i r 2 = [i, i + 1]"
  by (simp_all add: draw_def numeral_3_eq_3 numeral_2_eq_2)

section \<open>What the benchmark does\<close>


definition bench_argv :: "string list" where
  "bench_argv = [''test_main'', ''--pm_size=1'', ''--num_warm=2'', ''--num_put=2'', ''--seq=1'']"

lemma bench_argv_options:
  "bench_options 0 bench_argv bench_defaults =
     Some (True, (snd bench_defaults)\<lparr>pm_size_arg := 1, num_warm_kv := 2, num_put_kv := 2\<rparr>)"
proof -
  have d: "decimal 1 = ''1''" "decimal 2 = ''2''" by (simp_all add: decimal.simps digit_char_def char_of_def bit_0)
  have a: "''--pm_size=1'' = ''--pm_size='' @ decimal 1" "''--num_warm=2'' = ''--num_warm='' @ decimal 2"
    "''--num_put=2'' = ''--num_put='' @ decimal 2" "''--seq=1'' = ''--seq='' @ decimal 1" unfolding d by simp_all
  have n: "(1 :: nat) < 2 ^ 64" "(2 :: nat) < 2 ^ 64" by simp_all
  have s: "bench_option 0 ''test_main'' st = Some st" for st
    by (simp add: bench_option_def sscanf_llu_def split: prod.splits)
  have opt: "bench_option i (''--pm_size='' @ decimal 1) (sq, ha) = Some (sq, ha\<lparr>pm_size_arg := 1\<rparr>)"
    "bench_option i (''--num_warm='' @ decimal 2) (sq, ha) = Some (sq, ha\<lparr>num_warm_kv := 2\<rparr>)"
    "bench_option i (''--num_put='' @ decimal 2) (sq, ha) = Some (sq, ha\<lparr>num_put_kv := 2\<rparr>)"
    "bench_option i (''--seq='' @ decimal 1) (sq, ha) = Some (True, ha)" for i sq ha
    using sscanf_decimal [OF n(1), of "''--pm_size=''"] sscanf_decimal [OF n(2), of "''--num_warm=''"]
      sscanf_decimal [OF n(2), of "''--num_put=''"] sscanf_decimal [OF n(1), of "''--seq=''"]
    by (simp_all add: bench_option_def sscanf_llu_def)
  show ?thesis
    unfolding bench_argv_def a bench_options.simps s bench_defaults_def opt Option.bind.simps by simp
qed

lemma bench_big_pre: "new_pre count_up 100 5 (key_of ` {1, 2, 3, 4}) 65536 (2 ^ 30) 1 4 demo_raw demo_mem"
  using demo_big_pre bench_told_apart by (simp add: new_pre_def)


text \<open>
  C30: A benchmark thread that only gets counts as matches exactly the lookups that find a key of the
  store, but a lookup is for the number of the last get whose count before it was divisible by 3, 5 or 7:
  only when the count was divisible both before and after it is that the number of the get itself.
\<close>
theorem benchmark_lookups:
  assumes "kv_reached c (s, h, d)" "buffers_ok c (h_mem s) bf" "p < c_num c"
    "put_num_kv ta = 0" "delete_num_kv ta = 0" "scan_num_kv ta = 0"
    "gets = drawn sq (get_sequence_id ta) (Random (ucast (get_seed ta))) (unat (get_num_kv ta))"
    "key_of ` set gets \<subseteq> c_keys c"
  shows "\<exists>b s'. thread_task mal bt p sq ta bf s = Some (b, s') \<and> kv_reached c (s', h, d) \<and>
    match_search b = of_nat (length (filter (\<lambda>j. due (of_nat j) \<and> holds (h p) (key_of (gets ! prepared j))) [1..<length gets + 1]))"
proof -
  have l: "length gets = unat (get_num_kv ta)" using assms(7) by simp
  have t: "thread_ok c bf (bench_start ta) s h d" using assms(1,2) by (simp add: thread_ok_def bench_start_def)
  have "reading c p sq ta bf h d gets 0 (bench_start ta) s"
    using later_refl [OF t] l by (simp add: reading_def hits_simps bench_start_def)
  moreover have "gets = drawn sq (get_sequence_id ta) (Random (ucast (get_seed ta))) (length gets)" unfolding l by (rule assms(7))
  ultimately show ?thesis
    using reading_loop [OF _ assms(4-6,3) _ assms(8)] unfolding thread_task_def reading_def later_def thread_ok_def hits_def by blast
qed

theorem benchmark_lookups_witness:
  "\<exists>s b s'. kv_reached bench_config (s, demo_hist [(True, key_of 1, value_of 1), (True, key_of 2, value_of 2)], \<lambda>_. 0) \<and>
     thread_task count_up 64 0 True (bench_args 0 3 2) bench_bufs s = Some (b, s') \<and> match_search b = 1"
proof -
  let ?h = "demo_hist [(True, key_of 1, value_of 1), (True, key_of 2, value_of 2)]"
  obtain s where s: "kv_reached bench_config (s, ?h, \<lambda>_. 0)" "buffers_ok bench_config (h_mem s) bench_bufs"
    by (rule bench_two)
  have e: "filter (\<lambda>j. due (of_nat j) \<and> holds (?h 0) (key_of ([2, 3, 4] ! prepared j))) [1..<length [2 :: u64, 3, 4] + 1] = [3]"
    by code_simp
  have "\<exists>b s'. thread_task count_up 64 0 True (bench_args 0 3 2) bench_bufs s = Some (b, s') \<and> kv_reached bench_config (s', ?h, \<lambda>_. 0) \<and>
      match_search b = of_nat (length (filter (\<lambda>j. due (of_nat j) \<and> holds (?h 0) (key_of ([2, 3, 4] ! prepared j))) [1..<length [2 :: u64, 3, 4] + 1]))"
    by (rule benchmark_lookups [OF s]) (simp_all add: bench_c bench_args_def bench_draws del: drawn.simps)
  then show ?thesis using s(1) unfolding e by auto
qed

end
