(* ===== verification/KV_Echo.thy ===== *)
theory KV_Echo
  imports KV_Prelude
begin

text \<open>
  The echo program of \<open>bufferevent/\<close>: the read callback of \<open>server.c\<close> and the request loop of
  \<open>client.c\<close>, joined by one TCP connection. The connection is the bytes on their way in each
  direction; a \<open>read\<close> returns any of the bytes that have arrived, and libevent moves any of them to
  the input buffer before it calls the read callback, once. The elapsed times that both sides add
  up for their statistics are left out.
\<close>

section \<open>State\<close>

text \<open>
  Where the client is: at the head of its loop, waiting for a reply of which it has a part, or
  behind the loop. Neither side closes the connection before that.
\<close>

datatype client_phase = Sending | Receiving int int | Finished

record echo =
  file_left :: "byte list"
  at_eof :: bool
  phase :: client_phase
  to_server :: "byte list"
  ev_input :: "byte list"
  to_client :: "byte list"
  received :: "byte list"
  request_cnt :: int

definition echo_start :: "byte list \<Rightarrow> echo" where
  "echo_start f =
     \<lparr>file_left = f, at_eof = False, phase = Sending, to_server = [], ev_input = [], to_client = [],
      received = [], request_cnt = 0\<rparr>"

section \<open>The server\<close>

definition ECHO_BUF_SIZE :: nat where "ECHO_BUF_SIZE = 4096"

text \<open>
  The array holds \<open>BUF_SIZE + 1\<close> bytes and may be filled to the last one; the terminating zero is
  then written behind it.
\<close>

definition echo_read_cb :: "echo \<Rightarrow> echo option" where
  "echo_read_cb s =
     do { let len = min (ECHO_BUF_SIZE + 1) (length (ev_input s));
          let msg = take len (ev_input s) @ replicate (ECHO_BUF_SIZE + 1 - len) 0;
          msg \<leftarrow> wr msg len 0;
          Some (s\<lparr>ev_input := drop len (ev_input s), to_client := to_client s @ take len msg,
                  request_cnt := request_cnt s + 1\<rparr>) }"

section \<open>The client\<close>

text \<open>\<open>fread\<close> of \<open>n\<close> bytes: what it returns, what is left, and whether it hit the end of the file.\<close>

definition fread :: "nat \<Rightarrow> byte list \<Rightarrow> byte list \<times> byte list \<times> bool" where
  "fread n f = (take n f, drop n f, length f < n)"

definition send_chunk :: "nat \<Rightarrow> echo \<Rightarrow> echo" where
  "send_chunk buf_size s =
     (case fread buf_size (file_left s) of (chunk, f, hit) \<Rightarrow>
        s\<lparr>file_left := f, at_eof := hit, to_server := to_server s @ chunk, phase := Receiving 0 (int (length chunk))\<rparr>)"

text \<open>
  One \<open>read\<close> that returned \<open>xs\<close>. When the reply is complete the loop goes on, or is left after 10
  seconds (\<open>late\<close>).
\<close>

definition receive_reply :: "bool \<Rightarrow> byte list \<Rightarrow> echo \<Rightarrow> echo" where
  "receive_reply late xs s =
     (case phase s of
        Receiving temp send_size \<Rightarrow>
          (let temp = temp + int (length xs);
               s = s\<lparr>received := received s @ xs\<rparr>
           in if temp = send_size then s\<lparr>phase := (if late then Finished else Sending)\<rparr>
              else s\<lparr>phase := Receiving temp send_size\<rparr>)
      | _ \<Rightarrow> s)"

section \<open>Runs\<close>

inductive echo_step :: "nat \<Rightarrow> echo \<Rightarrow> echo \<Rightarrow> bool" for buf_size where
  client_sends: "phase s = Sending \<Longrightarrow> \<not> at_eof s \<Longrightarrow> echo_step buf_size s (send_chunk buf_size s)"
| client_stops: "phase s = Sending \<Longrightarrow> at_eof s \<Longrightarrow> echo_step buf_size s (s\<lparr>phase := Finished\<rparr>)"
| client_reads: "phase s = Receiving temp n \<Longrightarrow> to_client s = xs @ ys \<Longrightarrow> xs \<noteq> [] \<Longrightarrow> length xs \<le> buf_size \<Longrightarrow>
    echo_step buf_size s (receive_reply late xs (s\<lparr>to_client := ys\<rparr>))"
| server_reads: "to_server s = xs @ ys \<Longrightarrow> xs \<noteq> [] \<Longrightarrow>
    echo_read_cb (s\<lparr>ev_input := ev_input s @ xs, to_server := ys\<rparr>) = Some s' \<Longrightarrow> echo_step buf_size s s'"

text \<open>The runs that start with a file \<open>f\<close>.\<close>

definition echo_reached :: "nat \<Rightarrow> byte list \<Rightarrow> echo \<Rightarrow> bool" where
  "echo_reached buf_size f = (echo_step buf_size)\<^sup>*\<^sup>* (echo_start f)"

text \<open>What a step leaves to do: bytes still to be moved, and whether the client is about to act.\<close>

definition echo_work :: "echo \<Rightarrow> nat" where
  "echo_work s =
     5 * length (file_left s) + 4 * length (to_server s) + 3 * length (ev_input s) + 2 * length (to_client s)
     + (if phase s = Sending then 1 else 0)"

section \<open>The invariant\<close>

text \<open>
  Every byte is in exactly one place, in order; the reply the client waits for is exactly what is
  on its way; the end of the file is seen by a short chunk.
\<close>

definition echo_inv :: "nat \<Rightarrow> byte list \<Rightarrow> echo \<Rightarrow> bool" where
  "echo_inv buf_size f s \<longleftrightarrow>
     f = received s @ to_client s @ ev_input s @ to_server s @ file_left s \<and> ev_input s = [] \<and>
     (at_eof s \<longrightarrow> file_left s = []) \<and>
     (case phase s of
        Receiving temp n \<Rightarrow>
          0 \<le> temp \<and> temp + int (length (to_client s) + length (to_server s)) = n \<and> n \<le> int buf_size \<and>
          (temp < n \<or> n = 0) \<and> int buf_size dvd int (length (received s)) - temp \<and> at_eof s = (n < int buf_size)
      | _ \<Rightarrow> to_client s = [] \<and> to_server s = [] \<and> at_eof s = (\<not> int buf_size dvd int (length (received s))))"

lemma echo_start_inv: "echo_inv n f (echo_start f)"
  by (simp add: echo_inv_def echo_start_def)

lemma echo_read_cb_ok:
  assumes "length (ev_input s) \<le> ECHO_BUF_SIZE"
  shows "echo_read_cb s = Some (s\<lparr>ev_input := [], to_client := to_client s @ ev_input s, request_cnt := request_cnt s + 1\<rparr>)"
proof -
  have "min (ECHO_BUF_SIZE + 1) (length (ev_input s)) = length (ev_input s)" using assms by simp
  then show ?thesis using assms by (simp add: echo_read_cb_def access_simps list_update_append)
qed

text \<open>A full input buffer overruns the array.\<close>

lemma echo_read_cb_overrun:
  assumes "ECHO_BUF_SIZE < length (ev_input s)" shows "echo_read_cb s = None"
proof -
  have "min (ECHO_BUF_SIZE + 1) (length (ev_input s)) = ECHO_BUF_SIZE + 1" using assms by simp
  then show ?thesis using assms by (simp add: echo_read_cb_def access_simps)
qed

lemma send_chunk_inv:
  assumes inv: "echo_inv n f s" and s: "phase s = Sending" "\<not> at_eof s" and n: "0 < n"
  shows "echo_inv n f (send_chunk n s)"
  using assms by (auto simp: echo_inv_def send_chunk_def fread_def min_def)

lemma short_chunk:
  assumes "int n dvd a" "0 < m" "m < int n" shows "\<not> int n dvd a + m"
  using assms by (metis dvd_add_right_iff linorder_not_less zdvd_not_zless)

lemma receive_inv:
  assumes inv: "echo_inv n f s" and s: "phase s = Receiving temp k" "to_client s = xs @ ys" "xs \<noteq> []"
  shows "echo_inv n f (receive_reply late xs (s\<lparr>to_client := ys\<rparr>))"
proof -
  define r where "r = int (length (received s)) - temp"
  have f: "f = received s @ xs @ ys @ to_server s @ file_left s" and e: "ev_input s = []" "at_eof s \<longrightarrow> file_left s = []"
    and t: "0 \<le> temp" "temp + int (length xs) + int (length ys) + int (length (to_server s)) = k" "k \<le> int n"
    and d: "int n dvd r" and eof: "at_eof s = (k < int n)"
    using inv s by (auto simp: echo_inv_def r_def)
  have xs: "0 < length xs" using s by simp
  show ?thesis
  proof (cases "temp + int (length xs) = k")
    case True
    then have "int (length ys) + int (length (to_server s)) = 0" using t by linarith
    then have empty: "ys = []" "to_server s = []" by (simp_all add: add_nonneg_eq_0_iff)
    have l: "int (length (received s @ xs)) = r + k" using True by (simp add: r_def)
    have "k < int n \<longleftrightarrow> \<not> int n dvd r + k"
      using short_chunk [OF d, of k] d t True xs by (cases "k = int n") auto
    then have "at_eof s = (\<not> int n dvd int (length (received s @ xs)))" using eof l by simp
    then show ?thesis using f e s True empty by (simp add: echo_inv_def receive_reply_def)
  next
    case False
    then have "temp + int (length xs) < k" using t by linarith
    moreover have "int (length (received s @ xs)) - (temp + int (length xs)) = r" by (simp add: r_def)
    ultimately show ?thesis using f e t d eof s False by (simp add: echo_inv_def receive_reply_def)
  qed
qed

lemma echo_step_inv:
  assumes "echo_step n s s'" "echo_inv n f s" "0 < n" "n \<le> ECHO_BUF_SIZE"
  shows "echo_inv n f s'"
  using assms(1)
proof cases
  case client_sends then show ?thesis using send_chunk_inv assms by metis
next
  case client_stops then show ?thesis using assms(2) by (simp add: echo_inv_def)
next
  case (client_reads temp k xs ys late) then show ?thesis using receive_inv assms(2) by metis
next
  case (server_reads xs ys)
  have "length (to_server s) \<le> n" "ev_input s = []"
    using assms(2,4) by (auto simp: echo_inv_def split: client_phase.splits)
  then have "s' = s\<lparr>to_server := ys, ev_input := [], to_client := to_client s @ xs, request_cnt := request_cnt s + 1\<rparr>"
    using server_reads assms(4) by (simp add: echo_read_cb_ok)
  then show ?thesis
    using assms(2) server_reads(1) \<open>ev_input s = []\<close> by (auto simp: echo_inv_def split: client_phase.splits)
qed

lemma echo_reached_inv:
  assumes "echo_reached n f s" "0 < n" "n \<le> ECHO_BUF_SIZE"
  shows "echo_inv n f s"
  using assms(1) unfolding echo_reached_def
  by (induction rule: rtranclp_induct) (use echo_start_inv echo_step_inv assms(2,3) in \<open>blast+\<close>)

lemma echo_step_work: "echo_step n s s' \<Longrightarrow> 0 < n \<Longrightarrow> echo_work s' < echo_work s"
proof (induction rule: echo_step.induct)
  case (client_sends s)
  then show ?case by (auto simp: echo_work_def send_chunk_def fread_def)
next
  case (client_reads s temp k xs ys late)
  then show ?case by (cases xs) (auto simp: echo_work_def receive_reply_def Let_def)
next
  case (server_reads s xs ys s')
  define i where "i = min (ECHO_BUF_SIZE + 1) (length (ev_input s @ xs))"
  have "i \<noteq> 0" using server_reads.hyps(2) by (simp add: i_def ECHO_BUF_SIZE_def)
  moreover have "i < ECHO_BUF_SIZE + 1 \<and> i \<le> length (ev_input s) + length xs \<and> file_left s' = file_left s \<and> phase s' = phase s \<and> to_server s' = ys \<and>
      length (ev_input s') = length (ev_input s) + length xs - i \<and> length (to_client s') = length (to_client s) + i"
    using server_reads.hyps(3) by (auto simp: echo_read_cb_def Let_def i_def [symmetric] i_def wr_def split: if_splits)
  ultimately show ?case using server_reads.hyps(1,2) by (cases xs) (auto simp: echo_work_def)
qed (simp add: echo_work_def)

text \<open>A state with no way on is behind the loop, or waits for the reply to a chunk of no bytes.\<close>

lemma echo_progress:
  assumes inv: "echo_inv n f s" and n: "0 < n" "n \<le> ECHO_BUF_SIZE" and stuck: "\<not> (\<exists>s'. echo_step n s s')"
  shows "phase s = Finished \<or> phase s = Receiving 0 0 \<and> received s = f \<and> n dvd length f"
proof (cases "phase s")
  case Sending then show ?thesis using stuck client_sends client_stops by metis
next
  case (Receiving temp k)
  have len: "length (to_server s) \<le> n" and ev: "ev_input s = []"
    using inv Receiving by (auto simp: echo_inv_def)
  have "to_server s = []"
  proof (rule ccontr)
    assume a: "to_server s \<noteq> []"
    have "\<exists>s'. echo_read_cb (s\<lparr>ev_input := ev_input s @ to_server s, to_server := []\<rparr>) = Some s'"
      using len ev n by (simp add: echo_read_cb_ok)
    then show False using stuck server_reads [of s "to_server s" "[]" _ n] a by auto
  qed
  moreover have "to_client s = []"
  proof (rule ccontr)
    assume a: "to_client s \<noteq> []"
    then show False
      using stuck client_reads [OF Receiving, of "[hd (to_client s)]" "tl (to_client s)" n] n by simp
  qed
  ultimately show ?thesis using inv Receiving ev n by (auto simp: echo_inv_def)
qed simp

end
