(* ===== verification/KV_EchoSingle.thy ===== *)
theory KV_EchoSingle
  imports KV_Echo "HOL-Library.Signed_Division"
begin

text \<open>
  The two other echo programs. \<open>single_thread/\<close>: the server's callback copies what it received as a
  C string, and the client makes one \<open>recv\<close> per chunk. \<open>multi_thread/\<close>: the server's callback opens
  its statistics file and leaves the connection alone, since the rest of it is commented out. The
  number of files a process may open is the argument \<open>max_files\<close>.
\<close>

section \<open>single\_thread\<close>

datatype single_phase = Send_next | Await_reply | Closed

record single =
  s_file :: "byte list"
  s_eof :: bool
  s_phase :: single_phase
  s_to_server :: "byte list"
  s_to_client :: "byte list"
  s_received :: "byte list"
  s_open :: bool

definition single_start :: "byte list \<Rightarrow> single" where
  "single_start f =
     \<lparr>s_file = f, s_eof = False, s_phase = Send_next, s_to_server = [], s_to_client = [], s_received = [], s_open = True\<rparr>"

definition SINGLE_BUF_SIZE :: nat where "SINGLE_BUF_SIZE = 1024"

text \<open>\<open>strcpy\<close> and \<open>strlen\<close> end at the first zero byte; \<open>msg\<close> has one behind what was received.\<close>

definition c_string :: "byte list \<Rightarrow> byte list" where
  "c_string msg = takeWhile (\<lambda>b. b \<noteq> 0) msg"

text \<open>\<open>server_process_cb\<close> with what its \<open>recv\<close> returned; an empty list is the end of the stream.\<close>

definition server_process_cb :: "byte list \<Rightarrow> single \<Rightarrow> single" where
  "server_process_cb msg s =
     (if msg = [] then s\<lparr>s_open := False\<rparr> else s\<lparr>s_to_client := s_to_client s @ c_string (msg @ [0])\<rparr>)"

inductive single_step :: "single \<Rightarrow> single \<Rightarrow> bool" where
  sends: "s_phase s = Send_next \<Longrightarrow> \<not> s_eof s \<Longrightarrow> fread SINGLE_BUF_SIZE (s_file s) = (chunk, f, hit) \<Longrightarrow>
    single_step s (s\<lparr>s_file := f, s_eof := hit, s_to_server := s_to_server s @ chunk, s_phase := Await_reply\<rparr>)"
| stops: "s_phase s = Send_next \<Longrightarrow> s_eof s \<Longrightarrow> single_step s (s\<lparr>s_phase := Closed\<rparr>)"
| reads: "s_phase s = Await_reply \<Longrightarrow> s_to_client s = xs @ ys \<Longrightarrow> xs \<noteq> [] \<Longrightarrow> length xs \<le> SINGLE_BUF_SIZE \<Longrightarrow>
    single_step s (s\<lparr>s_to_client := ys, s_received := s_received s @ xs, s_phase := Send_next\<rparr>)"
| serves: "s_open s \<Longrightarrow> s_to_server s = xs @ ys \<Longrightarrow> xs \<noteq> [] \<Longrightarrow> length xs \<le> SINGLE_BUF_SIZE \<Longrightarrow>
    single_step s (server_process_cb xs (s\<lparr>s_to_server := ys\<rparr>))"
| hangs_up: "s_open s \<Longrightarrow> s_phase s = Closed \<Longrightarrow> s_to_server s = [] \<Longrightarrow> single_step s (server_process_cb [] s)"

definition single_reached :: "byte list \<Rightarrow> single \<Rightarrow> bool" where
  "single_reached f = single_step\<^sup>*\<^sup>* (single_start f)"

lemma c_string_terminated [simp]: "c_string (xs @ [0]) = c_string xs"
  by (induction xs) (auto simp: c_string_def)

lemma c_string_no_zero: "0 \<notin> set (c_string xs)"
  unfolding c_string_def using set_takeWhileD by fastforce

lemma c_string_whole: "0 \<notin> set xs \<Longrightarrow> c_string xs = xs"
  by (induction xs) (auto simp: c_string_def)

text \<open>Nothing that reaches the client holds a zero byte, and a file without one arrives in order.\<close>

definition single_inv :: "byte list \<Rightarrow> single \<Rightarrow> bool" where
  "single_inv f s \<longleftrightarrow>
     0 \<notin> set (s_received s @ s_to_client s) \<and>
     (0 \<notin> set f \<longrightarrow> f = s_received s @ s_to_client s @ s_to_server s @ s_file s) \<and>
     (s_eof s \<longrightarrow> s_file s = [])"

lemma single_step_inv: "single_step s s' \<Longrightarrow> single_inv f s \<Longrightarrow> single_inv f s'"
proof (induction rule: single_step.induct)
  case (serves s xs ys)
  have "c_string xs = xs" if "0 \<notin> set f"
    by (rule c_string_whole) (use serves that in \<open>auto simp: single_inv_def\<close>)
  then show ?case using serves by (auto simp: single_inv_def server_process_cb_def c_string_no_zero)
qed (auto simp: single_inv_def fread_def server_process_cb_def)

lemma single_reached_inv: "single_reached f s \<Longrightarrow> single_inv f s"
  unfolding single_reached_def
proof (induction rule: rtranclp_induct)
  case base then show ?case by (simp add: single_inv_def single_start_def)
next
  case (step y z) then show ?case using single_step_inv by blast
qed

section \<open>multi\_thread\<close>

text \<open>One connection of the server: the pending request, the replies, and the files left open.\<close>

record multi =
  pending :: "byte list"
  replies :: "byte list"
  open_files :: nat
  m_start_flag :: bool

text \<open>A failed \<open>fopen\<close> returns a null pointer, and \<open>fseek\<close> follows it.\<close>

definition request_process_cb :: "nat \<Rightarrow> multi \<Rightarrow> multi option" where
  "request_process_cb max_files s =
     (if open_files s < max_files
      then (let s = s\<lparr>open_files := open_files s + 1\<rparr> in Some (if m_start_flag s then s else s\<lparr>m_start_flag := True\<rparr>))
      else None)"

text \<open>The event is persistent and level triggered: it fires again while the request is unread.\<close>

fun fire :: "nat \<Rightarrow> nat \<Rightarrow> multi \<Rightarrow> multi option" where
  "fire max_files 0 s = Some s"
| "fire max_files (Suc n) s =
     (if pending s = [] then Some s else do { s' \<leftarrow> request_process_cb max_files s; fire max_files n s' })"

lemma fire_leaks:
  assumes "pending s \<noteq> []" "open_files s \<le> max_files"
  shows "fire max_files n s =
     (if n \<le> max_files - open_files s
      then Some (s\<lparr>open_files := open_files s + n, m_start_flag := m_start_flag s \<or> n > 0\<rparr>) else None)"
  using assms by (induction n arbitrary: s) (auto simp: request_process_cb_def Let_def)

text \<open>
  \<open>accept_cb\<close> measures how long \<open>pthread_create\<close> took from the microseconds of two clock readings,
  with one second borrowed when they went down.
\<close>

definition pthread_elapsed_time :: "int \<times> int \<Rightarrow> int \<times> int \<Rightarrow> int" where
  "pthread_elapsed_time accept_time end_time =
     (let end_time = (if snd accept_time > snd end_time then (fst end_time - 1, snd end_time + 1000000) else end_time)
      in snd end_time - snd accept_time)"

definition microseconds :: "int \<times> int \<Rightarrow> int" where
  "microseconds t = fst t * 1000000 + snd t"

lemma pthread_elapsed_mod:
  assumes "0 \<le> snd a" "snd a < 1000000" "0 \<le> snd e" "snd e < 1000000"
  shows "pthread_elapsed_time a e = (microseconds e - microseconds a) mod 1000000"
proof -
  have "microseconds e - microseconds a = (fst e - fst a) * 1000000 + (snd e - snd a)"
    by (simp add: microseconds_def algebra_simps)
  then have "(microseconds e - microseconds a) mod 1000000 = (snd e - snd a) mod 1000000"
    by (simp only: mod_mult_self3)
  also have "\<dots> = (if snd e < snd a then snd e - snd a + 1000000 else snd e - snd a)"
    using assms mod_pos_pos_trivial [of "snd e - snd a" 1000000] mod_pos_pos_trivial [of "snd e - snd a + 1000000" 1000000] by auto
  finally show ?thesis by (simp add: pthread_elapsed_time_def)
qed

text \<open>The connection's place in the order of \<open>accept\<close> gives the core of its thread.\<close>

definition core_sequence :: "int \<Rightarrow> int" where
  "core_sequence sequence = sequence mod 46 + 1"

section \<open>itoa\<close>

text \<open>
  \<open>itoa\<close> of \<open>common.c\<close>, the same file in the three programs. The first loop writes the last digit
  again and again, since it never divides \<open>n\<close>; the array ends at some point.
\<close>

partial_function (option) itoa_digits :: "int \<Rightarrow> byte list \<Rightarrow> nat \<Rightarrow> (byte list \<times> nat) option" where
  "itoa_digits n s i =
     do { s \<leftarrow> wr s i (word_of_int (n smod 10 + 48));
          if n sdiv 10 > 0 then itoa_digits n s (i + 1) else Some (s, i + 1) }"

text \<open>The second loop exchanges from the terminator's place on, with three exclusive ors.\<close>

fun swap_loop :: "byte list \<Rightarrow> nat \<Rightarrow> nat \<Rightarrow> nat \<Rightarrow> byte list option" where
  "swap_loop s i j 0 = Some s"
| "swap_loop s i j (Suc k) =
     do { a \<leftarrow> rd s j;
          b \<leftarrow> rd s (i - j);
          let a = xor a b;
          let b = xor b a;
          let a = xor a b;
          s \<leftarrow> wr s j a;
          s \<leftarrow> wr s (i - j) b;
          swap_loop s i (j + 1) k }"

definition itoa :: "int \<Rightarrow> byte list \<Rightarrow> byte list option" where
  "itoa n s =
     do { (s, i) \<leftarrow> itoa_digits n s 0;
          (s, i) \<leftarrow> (if n < 0 then do { s \<leftarrow> wr s i 45; Some (s, i + 1) } else Some (s, i));
          s \<leftarrow> swap_loop s i 0 (i div 2);
          wr s i 0 }"

lemma itoa_digits_long: "n \<ge> 10 \<Longrightarrow> itoa_digits n s i = None"
proof (induction "length s - i" arbitrary: s i)
  case 0
  then show ?case by (subst itoa_digits.simps) (simp add: access_simps)
next
  case (Suc k)
  have "n sdiv 10 > 0" using Suc.prems by (simp add: signed_divide_int_def sgn_if pos_imp_zdiv_pos_iff)
  then show ?case using Suc by (subst itoa_digits.simps) (simp add: wr_def)
qed

lemma itoa_digits_short:
  assumes "n < 10" "i < length s" shows "itoa_digits n s i = Some (s[i := word_of_int (n smod 10 + 48)], i + 1)"
proof -
  have "\<not> n sdiv 10 > 0" using assms(1) by (auto simp: signed_divide_int_def sgn_if pos_imp_zdiv_pos_iff not_less pos_imp_zdiv_nonneg_iff)
  then show ?thesis using assms(2) by (subst itoa_digits.simps) (simp add: access_simps)
qed

end
