(* ===== verification/KV_EchoFacts.thy ===== *)
theory KV_EchoFacts
  imports KV_EchoSingle
begin

text \<open>
  What a user of the echo programs sees: whether the client gets back what it sent, and whether it
  comes to an end.
\<close>

section \<open>bufferevent\<close>

text \<open>
  C34: The echo through \<open>bufferevent\<close>, for chunks of up to 4096 bytes. In every state of every run,
  whatever pieces the network delivers, the bytes received, on the way back and on the way there
  are, in this order, the part of the file sent so far; no callback overruns its array; and a
  client that left its loop at the end of the file has received the file.
\<close>
theorem echo_returns_file:
  assumes "echo_reached n f s" "0 < n" "n \<le> ECHO_BUF_SIZE"
  shows "received s @ to_client s @ to_server s @ file_left s = f \<and>
     (to_server s = xs @ ys \<longrightarrow> echo_read_cb (s\<lparr>ev_input := ev_input s @ xs, to_server := ys\<rparr>) \<noteq> None) \<and>
     (phase s = Finished \<and> at_eof s \<longrightarrow> received s = f)"
proof -
  note inv = echo_reached_inv [OF assms]
  have "length (to_server s) \<le> n" using inv assms(2) by (auto simp: echo_inv_def split: client_phase.splits)
  then have "to_server s = xs @ ys \<Longrightarrow> echo_read_cb (s\<lparr>ev_input := ev_input s @ xs, to_server := ys\<rparr>) \<noteq> None"
    using inv assms(3) by (simp add: echo_inv_def echo_read_cb_ok)
  then show ?thesis using inv by (auto simp: echo_inv_def)
qed

text \<open>
  C35: Every run ends. It ends behind the client's loop, unless the length of the file is a multiple
  of the chunk size: then, unless the ten seconds are over first, it ends with the client waiting
  for the reply to a chunk of no bytes, and no run leaves the loop at the end of the file.
\<close>
theorem echo_ends:
  assumes "0 < n" "n \<le> ECHO_BUF_SIZE"
  shows "wfp (\<lambda>s' s. echo_step n s s') \<and>
    (echo_reached n f s \<and> \<not> (\<exists>s'. echo_step n s s') \<longrightarrow>
       phase s = Finished \<or> phase s = Receiving 0 0 \<and> received s = f \<and> n dvd length f) \<and>
    (echo_reached n f s \<and> n dvd length f \<and> phase s = Finished \<longrightarrow> \<not> at_eof s)"
proof (intro conjI impI)
  show "wfp (\<lambda>s' s. echo_step n s s')"
    unfolding wfp_def by (rule wf_subset [OF wf_measure [of echo_work]]) (use echo_step_work assms(1) in auto)
next
  assume "echo_reached n f s \<and> \<not> (\<exists>s'. echo_step n s s')"
  then show "phase s = Finished \<or> phase s = Receiving 0 0 \<and> received s = f \<and> n dvd length f"
    using echo_progress echo_reached_inv assms by blast
next
  assume "echo_reached n f s \<and> n dvd length f \<and> phase s = Finished"
  then show "\<not> at_eof s" using echo_reached_inv [of n f s] assms by (auto simp: echo_inv_def)
qed

text \<open>A run over a file of one byte in chunks of two, and the run over an empty file.\<close>

lemma echo_reachedI: "echo_reached n f s \<Longrightarrow> echo_step n s s' \<Longrightarrow> echo_reached n f s'"
  unfolding echo_reached_def by (rule rtranclp.rtrancl_into_rtrancl)

lemma echo_reached_start: "echo_reached n f (echo_start f)"
  by (simp add: echo_reached_def)

definition echo_done :: echo where
  "echo_done = \<lparr>file_left = [], at_eof = True, phase = Finished, to_server = [], ev_input = [], to_client = [],
     received = [7], request_cnt = 1\<rparr>"

lemma echo_done_reached: "echo_reached 2 [7] echo_done"
proof -
  let ?s = "\<lambda>p a b r k. \<lparr>file_left = [], at_eof = True, phase = p, to_server = a, ev_input = [], to_client = b, received = r, request_cnt = k\<rparr>"
  have "echo_reached 2 [7] (?s (Receiving 0 1) [7] [] [] 0)"
    by (rule echo_reachedI [OF echo_reached_start])
      (use client_sends [of "echo_start [7]" 2] in \<open>simp add: echo_start_def send_chunk_def fread_def\<close>)
  then have "echo_reached 2 [7] (?s (Receiving 0 1) [] [7] [] 1)"
    by (rule echo_reachedI, intro server_reads [of _ "[7]" "[]"]) (simp_all add: echo_read_cb_ok ECHO_BUF_SIZE_def)
  then have "echo_reached 2 [7] (?s Sending [] [] [7] 1)"
    by (rule echo_reachedI) (use client_reads [of "?s (Receiving 0 1) [] [7] [] 1" 0 1 "[7]" "[]" 2 False] in \<open>simp add: receive_reply_def\<close>)
  then show ?thesis
    by (rule echo_reachedI) (use client_stops [of "?s Sending [] [] [7] 1" 2] in \<open>simp add: echo_done_def\<close>)
qed

lemma echo_returns_file_witness: "received echo_done = [7]"
  using echo_returns_file [OF echo_done_reached, of "[]" "[]"] by (simp add: echo_done_def ECHO_BUF_SIZE_def)

definition echo_stuck :: echo where
  "echo_stuck = \<lparr>file_left = [], at_eof = True, phase = Receiving 0 0, to_server = [], ev_input = [], to_client = [],
     received = [], request_cnt = 0\<rparr>"

lemma echo_stuck_reached: "echo_reached 2 [] echo_stuck"
  by (rule echo_reachedI [OF echo_reached_start])
    (use client_sends [of "echo_start []" 2] in \<open>simp add: echo_start_def send_chunk_def fread_def echo_stuck_def\<close>)

lemma echo_stuck_no_step: "\<not> (\<exists>s'. echo_step 2 echo_stuck s')"
  by (auto simp: echo_step.simps echo_stuck_def)

lemma echo_ends_witness:
  "(0 :: nat) < 2 \<and> \<not> (\<exists>s'. echo_step 2 echo_stuck s') \<and> phase echo_stuck = Receiving 0 0 \<and> received echo_stuck = []"
  using echo_ends [of 2 "[]" echo_stuck] echo_stuck_reached echo_stuck_no_step
  by (simp add: ECHO_BUF_SIZE_def echo_stuck_def)

section \<open>single\_thread and multi\_thread\<close>

text \<open>
  C36: The echo of \<open>single_thread/\<close> is one of C strings. No byte the client ever receives is zero. A
  file without a zero byte comes back in order, as far as the client reads it. A chunk that starts
  with a zero byte and reaches the server in one piece is answered by nothing, and the client,
  which sent it alone, waits for ever.
\<close>
theorem single_echo_strings:
  assumes "single_reached f s"
  shows "0 \<notin> set (s_received s @ s_to_client s) \<and>
    (0 \<notin> set f \<longrightarrow> f = s_received s @ s_to_client s @ s_to_server s @ s_file s) \<and>
    (s_open s \<and> s_phase s = Await_reply \<and> s_to_client s = [] \<and> s_to_server s = 0 # xs \<and> length (0 # xs) \<le> SINGLE_BUF_SIZE \<longrightarrow>
      single_step s (s\<lparr>s_to_server := []\<rparr>) \<and> \<not> (\<exists>s'. single_step (s\<lparr>s_to_server := []\<rparr>) s'))"
proof (intro conjI impI)
  show "0 \<notin> set (s_received s @ s_to_client s)"
    "0 \<notin> set f \<Longrightarrow> f = s_received s @ s_to_client s @ s_to_server s @ s_file s"
    using single_reached_inv [OF assms] by (auto simp: single_inv_def)
next
  assume a: "s_open s \<and> s_phase s = Await_reply \<and> s_to_client s = [] \<and> s_to_server s = 0 # xs \<and> length (0 # xs) \<le> SINGLE_BUF_SIZE"
  then have "server_process_cb (0 # xs) (s\<lparr>s_to_server := []\<rparr>) = s\<lparr>s_to_server := []\<rparr>"
    by (cases s) (simp add: server_process_cb_def c_string_def)
  then show "single_step s (s\<lparr>s_to_server := []\<rparr>)" using serves [of s "0 # xs" "[]"] a by simp
  show "\<not> (\<exists>s'. single_step (s\<lparr>s_to_server := []\<rparr>) s')" using a by (auto simp: single_step.simps)
qed

definition single_sent :: single where
  "single_sent = \<lparr>s_file = [], s_eof = True, s_phase = Await_reply, s_to_server = [0, 1], s_to_client = [], s_received = [], s_open = True\<rparr>"

lemma single_sent_reached: "single_reached [0, 1] single_sent"
  unfolding single_reached_def
  by (rule r_into_rtranclp)
    (use sends [of "single_start [0, 1]" "[0, 1]" "[]" True] in
      \<open>simp add: single_start_def fread_def SINGLE_BUF_SIZE_def single_sent_def\<close>)

lemma single_echo_strings_witness:
  "single_step single_sent (single_sent\<lparr>s_to_server := []\<rparr>) \<and> \<not> (\<exists>s'. single_step (single_sent\<lparr>s_to_server := []\<rparr>) s')"
  using single_echo_strings [OF single_sent_reached, of "[1]"] by (simp add: single_sent_def SINGLE_BUF_SIZE_def)

text \<open>
  The server of \<open>multi_thread/\<close> never answers and does not last: while a request is pending its
  callback fires again and again, each time leaving one more file open, until the next one cannot
  be opened and its null pointer is followed; up to there the request is still unread and nothing
  has been sent.
\<close>
theorem multi_server_leaks:
  assumes "pending s \<noteq> []" "open_files s \<le> max_files"
  shows "fire max_files (max_files - open_files s + 1) s = None \<and>
    (n \<le> max_files - open_files s \<longrightarrow>
       (\<exists>s'. fire max_files n s = Some s' \<and> pending s' = pending s \<and> replies s' = replies s \<and> open_files s' = open_files s + n))"
  using fire_leaks [OF assms] by (simp del: fire.simps)

lemma multi_server_leaks_witness:
  "fire 1024 1022 \<lparr>pending = [1], replies = [], open_files = 3, m_start_flag = False\<rparr> = None"
  using multi_server_leaks [of "\<lparr>pending = [1], replies = [], open_files = 3, m_start_flag = False\<rparr>" 1024] by (simp del: fire.simps)

end
