(* ===== verification/KV_Save.thy ===== *)
theory KV_Save
  imports KV_Decimal KV_Plog
begin

text \<open>
  The metadata file of a store in persistent memory: \<open>save\<close> and the first part of \<open>restore\<close> of
  \<open>bufferevent_single/Hikv/obj/hikv.h\<close>, which are compiled under \<open>PM_USED\<close>. Addresses are saved
  relative to the start of the pool, since the pool is mapped somewhere else the next time. The
  address the pool is mapped at is an argument, and so is what the objects hold before they are
  filled. Where an extraction from the file fails, the code goes on with what its variables hold;
  here that is \<open>None\<close>.
\<close>

section \<open>The file\<close>

definition newline :: string where "newline = [char_of (10 :: nat)]"

definition out_u64 :: "u64 \<Rightarrow> string" where
  "out_u64 w = decimal (unat w)"

definition out_int :: "int \<Rightarrow> string" where
  "out_int n = (if n < 0 then CHR ''-'' # decimal (nat (- n)) else decimal (nat n))"

text \<open>\<open>>>\<close>: blanks are skipped; then a sign and digits, up to the first other character.\<close>

definition read_number :: "string \<Rightarrow> (bool \<times> nat \<times> string) option" where
  "read_number s =
     (let s1 = dropWhile is_space s;
          neg = (s1 \<noteq> [] \<and> hd s1 = CHR ''-'');
          s2 = (if s1 \<noteq> [] \<and> (hd s1 = CHR ''-'' \<or> hd s1 = CHR ''+'') then tl s1 else s1);
          ds = takeWhile is_digit s2
      in if ds = [] then None else Some (neg, digits_value ds, dropWhile is_digit s2))"

definition read_u64 :: "string \<Rightarrow> (u64 \<times> string) option" where
  "read_u64 s =
     do { (neg, n, r) \<leftarrow> read_number s;
          if n \<ge> 2 ^ 64 then None else Some (if neg then - of_nat n else of_nat n, r) }"

definition read_int :: "string \<Rightarrow> (int \<times> string) option" where
  "read_int s =
     do { (neg, n, r) \<leftarrow> read_number s;
          let v = (if neg then - int n else int n);
          if - (2 ^ 31) \<le> v \<and> v < 2 ^ 31 then Some (v, r) else None }"

section \<open>save\<close>

fun save_allocator :: "pm_alloctor \<Rightarrow> nat \<Rightarrow> nat \<Rightarrow> string option" where
  "save_allocator a i 0 = Some []"
| "save_allocator a i (Suc k) =
     do { st \<leftarrow> rd (partition_start_address a) i;
          en \<leftarrow> rd (partition_end_address a) i;
          cu \<leftarrow> rd (partition_cur_offset a) i;
          r \<leftarrow> save_allocator a (i + 1) k;
          Some (out_u64 (st - pm_start_address a) @ '' '' @ out_u64 (en - pm_start_address a) @ '' '' @ out_u64 cu @ newline @ r) }"

fun save_table :: "u64 \<Rightarrow> ptr list \<Rightarrow> nat \<Rightarrow> nat \<Rightarrow> string option" where
  "save_table start ps i 0 = Some []"
| "save_table start ps i (Suc k) =
     do { p \<leftarrow> rd ps i;
          r \<leftarrow> save_table start ps (i + 1) k;
          Some (out_u64 (p - start) @ newline @ r) }"

fun save_log :: "u64 \<Rightarrow> plog \<Rightarrow> nat \<Rightarrow> nat \<Rightarrow> string option" where
  "save_log start lg i 0 = Some []"
| "save_log start lg i (Suc k) =
     do { st \<leftarrow> rd (plog_partition_start_address lg) i;
          cu \<leftarrow> rd (plog_partition_cur_offset lg) i;
          sz \<leftarrow> rd (plog_partition_size lg) i;
          r \<leftarrow> save_log start lg (i + 1) k;
          Some (out_u64 (st - start) @ '' '' @ out_u64 cu @ '' '' @ out_u64 sz @ newline @ r) }"

text \<open>The hash index is its number of buckets and the addresses of its partitions.\<close>

definition save :: "pm_alloctor \<Rightarrow> int \<Rightarrow> ptr list \<Rightarrow> plog \<Rightarrow> string option" where
  "save a nb ps lg =
     do { let np = unat (num_partition a);
          s1 \<leftarrow> save_allocator a 0 np;
          s2 \<leftarrow> save_table (pm_start_address a) ps 0 np;
          s3 \<leftarrow> save_log (pm_start_address a) lg 0 np;
          Some (out_u64 (pm_size a) @ newline @ out_u64 (num_partition a) @ newline @ s1 @ out_int nb @ newline @ s2 @ s3) }"

section \<open>restore\<close>

fun restore_allocator :: "nat \<Rightarrow> nat \<Rightarrow> string \<Rightarrow> pm_alloctor \<Rightarrow> (pm_alloctor \<times> string) option" where
  "restore_allocator i 0 inp a = Some (a, inp)"
| "restore_allocator i (Suc k) inp a =
     do { (tmp, inp) \<leftarrow> read_u64 inp;
          st \<leftarrow> wr (partition_start_address a) i (tmp + pm_start_address a);
          (tmp, inp) \<leftarrow> read_u64 inp;
          en \<leftarrow> wr (partition_end_address a) i (tmp + pm_start_address a);
          (tmp, inp) \<leftarrow> read_u64 inp;
          cu \<leftarrow> wr (partition_cur_offset a) i tmp;
          sz \<leftarrow> wr (partition_size a) i (en ! i - st ! i);
          restore_allocator (i + 1) k inp
            (a\<lparr>partition_start_address := st, partition_end_address := en, partition_cur_offset := cu, partition_size := sz\<rparr>) }"

fun restore_table :: "u64 \<Rightarrow> nat \<Rightarrow> nat \<Rightarrow> string \<Rightarrow> ptr list \<Rightarrow> (ptr list \<times> string) option" where
  "restore_table start i 0 inp ps = Some (ps, inp)"
| "restore_table start i (Suc k) inp ps =
     do { (tmp, inp) \<leftarrow> read_u64 inp;
          ps \<leftarrow> wr ps i (tmp + start);
          restore_table start (i + 1) k inp ps }"

fun restore_log :: "u64 \<Rightarrow> nat \<Rightarrow> nat \<Rightarrow> string \<Rightarrow> plog \<Rightarrow> (plog \<times> string) option" where
  "restore_log start i 0 inp lg = Some (lg, inp)"
| "restore_log start i (Suc k) inp lg =
     do { (tmp, inp) \<leftarrow> read_u64 inp;
          st \<leftarrow> wr (plog_partition_start_address lg) i (tmp + start);
          (cur, inp) \<leftarrow> read_u64 inp;
          cu \<leftarrow> wr (plog_partition_cur_offset lg) i cur;
          (tmp, inp) \<leftarrow> read_u64 inp;
          sz \<leftarrow> wr (plog_partition_size lg) i tmp;
          restore_log start (i + 1) k inp
            (lg\<lparr>plog_partition_start_address := st, plog_partition_cur_offset := cu, plog_partition_size := sz\<rparr>) }"

text \<open>The pool is mapped at \<open>dest\<close>; the assertion that it is not null is the only check.\<close>

definition restore :: "ptr \<Rightarrow> string \<Rightarrow> pm_alloctor \<Rightarrow> ptr list \<Rightarrow> plog \<Rightarrow> (pm_alloctor \<times> int \<times> ptr list \<times> plog) option" where
  "restore dest inp a ps lg =
     do { (psize, inp) \<leftarrow> read_u64 inp;
          (np, inp) \<leftarrow> read_u64 inp;
          if dest = 0 then None
          else do {
            (a, inp) \<leftarrow> restore_allocator 0 (unat np) inp (a\<lparr>num_partition := np, pm_start_address := dest, pm_size := psize\<rparr>);
            (nb, inp) \<leftarrow> read_int inp;
            (ps, inp) \<leftarrow> restore_table dest 0 (unat np) inp ps;
            (lg, inp) \<leftarrow> restore_log dest 0 (unat np) inp (lg\<lparr>plog_num_partition := np\<rparr>);
            Some (a, nb, ps, lg) } }"

section \<open>One number through the file\<close>

lemma is_space_facts [simp]: "is_space (char_of (10 :: nat))" "is_space CHR '' ''" "\<not> is_digit (char_of (10 :: nat))" "\<not> is_digit CHR '' ''"
  by (simp_all add: is_space_def is_digit_def)

lemma read_number_skip: "is_space ch \<Longrightarrow> read_number (ch # s) = read_number s"
  by (simp add: read_number_def)

lemma decimal_span:
  assumes "r = [] \<or> \<not> is_digit (hd r)"
  shows "takeWhile is_digit (decimal n @ r) = decimal n" "dropWhile is_digit (decimal n @ r) = r"
  using assms decimal_digits [of n] by (cases r; auto simp: takeWhile_append dropWhile_append takeWhile_eq_all_conv dropWhile_eq_Nil_conv)+

lemma read_decimal:
  assumes "r = [] \<or> \<not> is_digit (hd r)"
  shows "read_number (decimal n @ r) = Some (False, n, r)" "read_number (CHR ''-'' # decimal n @ r) = Some (True, n, r)"
proof -
  have h: "hd (decimal n) \<in> set (decimal n)" by simp
  have "dropWhile is_space (decimal n @ r) = decimal n @ r" using h decimal_digits [of n] by (cases "decimal n") auto
  moreover have "hd (decimal n @ r) \<noteq> CHR ''-''" "hd (decimal n @ r) \<noteq> CHR ''+''" using h decimal_digits [of n] by auto
  ultimately show "read_number (decimal n @ r) = Some (False, n, r)"
    using decimal_span [OF assms, of n] by (simp add: read_number_def Let_def)
  have "\<not> is_space CHR ''-''" by (simp add: is_space_def)
  then show "read_number (CHR ''-'' # decimal n @ r) = Some (True, n, r)"
    using decimal_span [OF assms, of n] by (simp add: read_number_def Let_def)
qed

lemma read_u64_skip [simp]: "read_u64 (newline @ s) = read_u64 s" "read_u64 (CHR '' '' # s) = read_u64 s"
  by (simp_all add: read_u64_def newline_def read_number_skip)

lemma read_int_skip [simp]: "read_int (newline @ s) = read_int s"
  by (simp add: read_int_def newline_def read_number_skip)

lemma unat_small: "unat (w :: u64) < 18446744073709551616"
  using unsigned_less [of w] by simp

lemma read_u64_out [simp]:
  "read_u64 (out_u64 w @ newline @ s) = Some (w, newline @ s)" "read_u64 (out_u64 w @ CHR '' '' # s) = Some (w, CHR '' '' # s)"
  using unat_small [of w] by (simp_all add: read_u64_def out_u64_def newline_def read_decimal not_le)

lemma read_int_out [simp]:
  assumes "- (2 ^ 31) \<le> n" "n < 2 ^ 31"
  shows "read_int (out_int n @ newline @ s) = Some (n, newline @ s)"
  using assms by (cases "n < 0") (auto simp: read_int_def out_int_def newline_def read_decimal)

section \<open>The three loops\<close>

text \<open>What a loop that fills the places \<open>i\<close> to \<open>i + k - 1\<close> of an array with \<open>g\<close> leaves there.\<close>

definition filled :: "nat \<Rightarrow> nat \<Rightarrow> (nat \<Rightarrow> 'a) \<Rightarrow> 'a list \<Rightarrow> 'a list" where
  "filled i k g xs = map (\<lambda>j. if i \<le> j \<and> j < i + k then g j else xs ! j) [0..<length xs]"

lemma length_filled [simp]: "length (filled i k g xs) = length xs"
  by (simp add: filled_def)

lemma filled_0 [simp]: "filled i 0 g xs = xs"
  by (rule nth_equalityI) (auto simp: filled_def)

lemma filled_Suc: "i < length xs \<Longrightarrow> filled (Suc i) k g (xs[i := g i]) = filled i (Suc k) g xs"
  by (rule nth_equalityI) (auto simp: filled_def nth_list_update)

lemma take_filled: "n \<le> length xs \<Longrightarrow> take n (filled 0 n g xs) = map g [0..<n]"
  by (rule nth_equalityI) (auto simp: filled_def)

text \<open>
  Each loop of \<open>restore\<close> reads back what its loop of \<open>save\<close> wrote. The input starts at the end of
  the line before.
\<close>

definition moved_to :: "u64 \<Rightarrow> u64 \<Rightarrow> u64 list \<Rightarrow> nat \<Rightarrow> u64" where
  "moved_to start dest xs j = xs ! j - start + dest"

lemma allocator_round:
  assumes "i + k \<le> length (partition_start_address a)" "i + k \<le> length (partition_end_address a)" "i + k \<le> length (partition_cur_offset a)"
    "i + k \<le> length (partition_start_address b)" "i + k \<le> length (partition_end_address b)" "i + k \<le> length (partition_cur_offset b)"
    "i + k \<le> length (partition_size b)"
  shows "\<exists>s. save_allocator a i k = Some s \<and> (\<forall>rest. restore_allocator i k (newline @ s @ rest) b =
     Some (b\<lparr>partition_start_address := filled i k (moved_to (pm_start_address a) (pm_start_address b) (partition_start_address a)) (partition_start_address b),
             partition_end_address := filled i k (moved_to (pm_start_address a) (pm_start_address b) (partition_end_address a)) (partition_end_address b),
             partition_cur_offset := filled i k ((!) (partition_cur_offset a)) (partition_cur_offset b),
             partition_size := filled i k (\<lambda>j. partition_end_address a ! j - partition_start_address a ! j) (partition_size b)\<rparr>, newline @ rest))"
  using assms
proof (induction k arbitrary: i b)
  case 0 then show ?case by simp
next
  case (Suc k)
  let ?b = "b\<lparr>partition_start_address := (partition_start_address b)[i := moved_to (pm_start_address a) (pm_start_address b) (partition_start_address a) i],
      partition_end_address := (partition_end_address b)[i := moved_to (pm_start_address a) (pm_start_address b) (partition_end_address a) i],
      partition_cur_offset := (partition_cur_offset b)[i := partition_cur_offset a ! i],
      partition_size := (partition_size b)[i := partition_end_address a ! i - partition_start_address a ! i]\<rparr>"
  have IH: "\<exists>s. save_allocator a (Suc i) k = Some s \<and> (\<forall>rest. restore_allocator (Suc i) k (newline @ s @ rest) ?b =
     Some (?b\<lparr>partition_start_address := filled (Suc i) k (moved_to (pm_start_address a) (pm_start_address ?b) (partition_start_address a)) (partition_start_address ?b),
             partition_end_address := filled (Suc i) k (moved_to (pm_start_address a) (pm_start_address ?b) (partition_end_address a)) (partition_end_address ?b),
             partition_cur_offset := filled (Suc i) k ((!) (partition_cur_offset a)) (partition_cur_offset ?b),
             partition_size := filled (Suc i) k (\<lambda>j. partition_end_address a ! j - partition_start_address a ! j) (partition_size ?b)\<rparr>, newline @ rest))"
    by (rule Suc.IH) (use Suc.prems in simp_all)
  then obtain s where s: "save_allocator a (Suc i) k = Some s" by blast
  have "filled (Suc i) k (\<lambda>j. partition_end_address a ! j - partition_start_address a ! j)
      ((partition_size b)[i := partition_end_address a ! i - partition_start_address a ! i])
    = filled i (Suc k) (\<lambda>j. partition_end_address a ! j - partition_start_address a ! j) (partition_size b)"
    by (rule filled_Suc) (use Suc.prems in simp)
  then show ?case using IH s Suc.prems by (simp add: access_simps filled_Suc moved_to_def [symmetric])
qed

lemma table_round:
  assumes "i + k \<le> length ps" "i + k \<le> length qs"
  shows "\<exists>s. save_table start ps i k = Some s \<and>
     (\<forall>rest. restore_table dest i k (newline @ s @ rest) qs = Some (filled i k (moved_to start dest ps) qs, newline @ rest))"
  using assms
proof (induction k arbitrary: i qs)
  case 0 then show ?case by simp
next
  case (Suc k)
  have "\<exists>s. save_table start ps (Suc i) k = Some s \<and> (\<forall>rest. restore_table dest (Suc i) k (newline @ s @ rest) (qs[i := moved_to start dest ps i])
      = Some (filled (Suc i) k (moved_to start dest ps) (qs[i := moved_to start dest ps i]), newline @ rest))"
    by (rule Suc.IH) (use Suc.prems in simp_all)
  then show ?case using Suc.prems by (auto simp: access_simps filled_Suc moved_to_def [symmetric])
qed

lemma log_round:
  assumes "i + k \<le> length (plog_partition_start_address a)" "i + k \<le> length (plog_partition_cur_offset a)" "i + k \<le> length (plog_partition_size a)"
    "i + k \<le> length (plog_partition_start_address b)" "i + k \<le> length (plog_partition_cur_offset b)" "i + k \<le> length (plog_partition_size b)"
  shows "\<exists>s. save_log start a i k = Some s \<and> (\<forall>rest. restore_log dest i k (newline @ s @ rest) b =
     Some (b\<lparr>plog_partition_start_address := filled i k (moved_to start dest (plog_partition_start_address a)) (plog_partition_start_address b),
             plog_partition_cur_offset := filled i k ((!) (plog_partition_cur_offset a)) (plog_partition_cur_offset b),
             plog_partition_size := filled i k ((!) (plog_partition_size a)) (plog_partition_size b)\<rparr>, newline @ rest))"
  using assms
proof (induction k arbitrary: i b)
  case 0 then show ?case by simp
next
  case (Suc k)
  let ?b = "b\<lparr>plog_partition_start_address := (plog_partition_start_address b)[i := moved_to start dest (plog_partition_start_address a) i],
      plog_partition_cur_offset := (plog_partition_cur_offset b)[i := plog_partition_cur_offset a ! i],
      plog_partition_size := (plog_partition_size b)[i := plog_partition_size a ! i]\<rparr>"
  have IH: "\<exists>s. save_log start a (Suc i) k = Some s \<and> (\<forall>rest. restore_log dest (Suc i) k (newline @ s @ rest) ?b =
     Some (?b\<lparr>plog_partition_start_address := filled (Suc i) k (moved_to start dest (plog_partition_start_address a)) (plog_partition_start_address ?b),
             plog_partition_cur_offset := filled (Suc i) k ((!) (plog_partition_cur_offset a)) (plog_partition_cur_offset ?b),
             plog_partition_size := filled (Suc i) k ((!) (plog_partition_size a)) (plog_partition_size ?b)\<rparr>, newline @ rest))"
    by (rule Suc.IH) (use Suc.prems in simp_all)
  then show ?case using Suc.prems by (auto simp: access_simps filled_Suc moved_to_def [symmetric])
qed

text \<open>The arrays of the three objects have 32 places.\<close>

definition pool_arrays :: "pm_alloctor \<Rightarrow> bool" where
  "pool_arrays a \<longleftrightarrow> length (partition_start_address a) = 32 \<and> length (partition_end_address a) = 32 \<and>
     length (partition_cur_offset a) = 32 \<and> length (partition_size a) = 32"

definition log_arrays :: "plog \<Rightarrow> bool" where
  "log_arrays lg \<longleftrightarrow> length (plog_partition_start_address lg) = 32 \<and> length (plog_partition_cur_offset lg) = 32 \<and>
     length (plog_partition_size lg) = 32"

text \<open>
  C37: What is saved is restored. The file that \<open>save\<close> writes for up to 32 partitions is read back by
  \<open>restore\<close> into the same sizes, offsets and bucket count, and into addresses that lie in the pool
  at its new place as they lay at the old one; mapped at the old place, all is as it was. A
  partition's size comes back as the difference of its bounds.
\<close>
theorem restore_after_save:
  assumes "unat (num_partition a) = n" "n \<le> 32"
    "pool_arrays a" "length ps = 32" "log_arrays lg" "pool_arrays ra" "length rp = 32" "log_arrays rl"
    "- (2 ^ 31) \<le> nb" "nb < 2 ^ 31" "dest \<noteq> 0"
  shows "\<exists>file a' ps' lg'. save a nb ps lg = Some file \<and> restore dest file ra rp rl = Some (a', nb, ps', lg') \<and>
    pm_size a' = pm_size a \<and> num_partition a' = num_partition a \<and> pm_start_address a' = dest \<and> plog_num_partition lg' = num_partition a \<and>
    take n (partition_start_address a') = map (\<lambda>x. x - pm_start_address a + dest) (take n (partition_start_address a)) \<and>
    take n (partition_end_address a') = map (\<lambda>x. x - pm_start_address a + dest) (take n (partition_end_address a)) \<and>
    take n (partition_cur_offset a') = take n (partition_cur_offset a) \<and>
    take n (partition_size a') = map2 (-) (take n (partition_end_address a)) (take n (partition_start_address a)) \<and>
    take n ps' = map (\<lambda>x. x - pm_start_address a + dest) (take n ps) \<and>
    take n (plog_partition_start_address lg') = map (\<lambda>x. x - pm_start_address a + dest) (take n (plog_partition_start_address lg)) \<and>
    take n (plog_partition_cur_offset lg') = take n (plog_partition_cur_offset lg) \<and>
    take n (plog_partition_size lg') = take n (plog_partition_size lg)"
proof -
  let ?ra = "ra\<lparr>num_partition := num_partition a, pm_start_address := dest, pm_size := pm_size a\<rparr>"
  obtain s1 where s1: "save_allocator a 0 n = Some s1" "\<And>rest. restore_allocator 0 n (newline @ s1 @ rest) ?ra = Some (?ra\<lparr>
      partition_start_address := filled 0 n (moved_to (pm_start_address a) dest (partition_start_address a)) (partition_start_address ra),
      partition_end_address := filled 0 n (moved_to (pm_start_address a) dest (partition_end_address a)) (partition_end_address ra),
      partition_cur_offset := filled 0 n ((!) (partition_cur_offset a)) (partition_cur_offset ra),
      partition_size := filled 0 n (\<lambda>j. partition_end_address a ! j - partition_start_address a ! j) (partition_size ra)\<rparr>, newline @ rest)"
    using allocator_round [of 0 n a ?ra] assms(2-8) by (auto simp: pool_arrays_def)
  obtain s2 where s2: "save_table (pm_start_address a) ps 0 n = Some s2"
      "\<And>rest. restore_table dest 0 n (newline @ s2 @ rest) rp = Some (filled 0 n (moved_to (pm_start_address a) dest ps) rp, newline @ rest)"
    using table_round [of 0 n ps rp "pm_start_address a" dest] assms(2-8) by auto
  let ?rl = "rl\<lparr>plog_num_partition := num_partition a\<rparr>"
  obtain s3 where s3: "save_log (pm_start_address a) lg 0 n = Some s3" "\<And>rest. restore_log dest 0 n (newline @ s3 @ rest) ?rl = Some (?rl\<lparr>
      plog_partition_start_address := filled 0 n (moved_to (pm_start_address a) dest (plog_partition_start_address lg)) (plog_partition_start_address rl),
      plog_partition_cur_offset := filled 0 n ((!) (plog_partition_cur_offset lg)) (plog_partition_cur_offset rl),
      plog_partition_size := filled 0 n ((!) (plog_partition_size lg)) (plog_partition_size rl)\<rparr>, newline @ rest)"
    using log_round [of 0 n lg ?rl "pm_start_address a" dest] assms(2-8) by (auto simp: log_arrays_def)
  have s3': "restore_log dest 0 n (newline @ s3) ?rl = Some (?rl\<lparr>
      plog_partition_start_address := filled 0 n (moved_to (pm_start_address a) dest (plog_partition_start_address lg)) (plog_partition_start_address rl),
      plog_partition_cur_offset := filled 0 n ((!) (plog_partition_cur_offset lg)) (plog_partition_cur_offset rl),
      plog_partition_size := filled 0 n ((!) (plog_partition_size lg)) (plog_partition_size rl)\<rparr>, newline)"
    using s3(2) [of "[]"] by simp
  have m: "map (moved_to s d xs) [0..<n] = map (\<lambda>x. x - s + d) (take n xs)" if "length xs = 32" for s d xs
    by (rule nth_equalityI) (use that assms(2) in \<open>auto simp: moved_to_def\<close>)
  have m2: "map (\<lambda>j. xs ! j - ys ! j) [0..<n] = map2 (-) (take n xs) (take n ys)" if "length xs = 32" "length ys = 32" for xs ys :: "u64 list"
    by (rule nth_equalityI) (use that assms(2) in auto)
  have id: "map ((!) xs) [0..<n] = take n xs" if "length xs = 32" for xs :: "u64 list"
    by (rule nth_equalityI) (use that assms(2) in auto)
  show ?thesis
    using s1 s2 s3(1) s3' assms
    by (simp add: pool_arrays_def log_arrays_def save_def restore_def Let_def take_filled m m2 id)
qed

definition saved_pool :: pm_alloctor where
  "saved_pool = \<lparr>pm_size = 1024, num_partition = 1, pm_start_address = 4096, partition_size = replicate 32 1024,
     partition_start_address = replicate 32 4096, partition_end_address = replicate 32 5120,
     partition_cur_offset = replicate 32 64\<rparr>"

definition saved_log :: plog where
  "saved_log = \<lparr>plog_num_partition = 1, plog_partition_size = replicate 32 960,
     plog_partition_start_address = replicate 32 4160, plog_partition_cur_offset = replicate 32 320\<rparr>"

lemma restore_after_save_witness:
  "\<exists>file a' ps' lg'. save saved_pool 7 (replicate 32 4096) saved_log = Some file \<and>
     restore 8192 file saved_pool (replicate 32 0) saved_log = Some (a', 7, ps', lg') \<and>
     take 1 (partition_start_address a') = [8192] \<and> take 1 (plog_partition_start_address lg') = [8256] \<and>
     take 1 (plog_partition_cur_offset lg') = [320]"
  using restore_after_save [of saved_pool 1 "replicate 32 4096" saved_log saved_pool "replicate 32 0" saved_log 7 8192]
  by (simp add: pool_arrays_def log_arrays_def saved_pool_def saved_log_def) blast

end
