(* ===== verification/KV_Sync.thy ===== *)
theory KV_Sync
  imports KV_NtCopy
begin

text \<open>
  The low-level helpers: the spin lock of \<open>bufferevent_single/Hikv/lib/spinlock.h\<close> under any
  interleaving of threads, and the flushes of \<open>lib/pflush.c\<close>. An \<open>xchgb\<close> is one atomic step; the
  time stamp counter is the sequence of its readings.
\<close>

section \<open>Spin lock\<close>

text \<open>
  Where a thread is: outside, before the exchange of \<open>spin_lock\<close>, in its inner loop, or holding
  the lock. A thread unlocks only what it holds.
\<close>

datatype spin_pc = Outside | Exchanging | Spinning | Holding

record spin =
  lock_byte :: byte
  pc :: "nat \<Rightarrow> spin_pc"

definition BUSY_X :: byte where "BUSY_X = 1"

definition spin_start :: spin where
  "spin_start = \<lparr>lock_byte = 0, pc = (\<lambda>_. Outside)\<rparr>"

text \<open>\<open>xchg_8\<close> returns the old byte.\<close>

definition xchg_8 :: "byte \<Rightarrow> spin \<Rightarrow> byte \<times> spin" where
  "xchg_8 x s = (lock_byte s, s\<lparr>lock_byte := x\<rparr>)"

definition goes :: "nat \<Rightarrow> spin_pc \<Rightarrow> spin \<Rightarrow> spin" where
  "goes t p s = s\<lparr>pc := (pc s)(t := p)\<rparr>"

definition spin_lock_try :: "nat \<Rightarrow> spin \<Rightarrow> spin" where
  "spin_lock_try t s = (case xchg_8 BUSY_X s of (old, s') \<Rightarrow> goes t (if old = 0 then Holding else Spinning) s')"

definition spin_lock_wait :: "nat \<Rightarrow> spin \<Rightarrow> spin" where
  "spin_lock_wait t s = (if lock_byte s \<noteq> 0 then s else goes t Exchanging s)"

definition spin_unlock :: "nat \<Rightarrow> spin \<Rightarrow> spin" where
  "spin_unlock t s = goes t Outside (s\<lparr>lock_byte := 0\<rparr>)"

text \<open>\<open>spin_trylock\<close> answers 0 when it took the lock.\<close>

definition spin_trylock :: "nat \<Rightarrow> spin \<Rightarrow> byte \<times> spin" where
  "spin_trylock t s = (case xchg_8 BUSY_X s of (old, s') \<Rightarrow> (old, goes t (if old = 0 then Holding else Outside) s'))"

inductive spin_step :: "spin \<Rightarrow> spin \<Rightarrow> bool" where
  calls: "pc s t = Outside \<Longrightarrow> spin_step s (goes t Exchanging s)"
| exchanges: "pc s t = Exchanging \<Longrightarrow> spin_step s (spin_lock_try t s)"
| waits: "pc s t = Spinning \<Longrightarrow> spin_step s (spin_lock_wait t s)"
| unlocks: "pc s t = Holding \<Longrightarrow> spin_step s (spin_unlock t s)"
| tries: "pc s t = Outside \<Longrightarrow> spin_step s (snd (spin_trylock t s))"

definition spin_inv :: "spin \<Rightarrow> bool" where
  "spin_inv s \<longleftrightarrow>
     (\<forall>t u. pc s t = Holding \<longrightarrow> pc s u = Holding \<longrightarrow> t = u) \<and> (lock_byte s = 0 \<longleftrightarrow> (\<forall>t. pc s t \<noteq> Holding))"

lemma spin_step_inv: "spin_step s s' \<Longrightarrow> spin_inv s \<Longrightarrow> spin_inv s'"
  by (induction rule: spin_step.induct)
    ((auto simp: spin_inv_def goes_def spin_lock_try_def spin_lock_wait_def spin_unlock_def spin_trylock_def xchg_8_def BUSY_X_def
      split: if_splits; metis spin_pc.distinct)+)

lemma spin_reached_inv: "spin_step\<^sup>*\<^sup>* spin_start s \<Longrightarrow> spin_inv s"
proof (induction rule: rtranclp_induct)
  case base then show ?case by (simp add: spin_inv_def spin_start_def)
next
  case (step s s') then show ?case using spin_step_inv by blast
qed

text \<open>
  C38: The spin lock excludes: in every interleaving of \<open>spin_lock\<close>, \<open>spin_trylock\<close> and \<open>spin_unlock\<close> at
  most one thread holds the lock, and the byte is 0 exactly when none does. A thread that is about
  to exchange then gets the lock with its next step, and one that spins is let out of its inner
  loop.
\<close>
theorem spin_lock_excludes:
  assumes "spin_step\<^sup>*\<^sup>* spin_start s"
  shows "(pc s t = Holding \<and> pc s u = Holding \<longrightarrow> t = u) \<and> (lock_byte s = 0 \<longleftrightarrow> \<not> (\<exists>t. pc s t = Holding)) \<and>
    (lock_byte s = 0 \<and> pc s t = Exchanging \<longrightarrow> pc (spin_lock_try t s) t = Holding) \<and>
    (lock_byte s = 0 \<and> pc s t = Spinning \<longrightarrow> pc (spin_lock_wait t s) t = Exchanging)"
  using spin_reached_inv [OF assms]
  by (auto simp: spin_inv_def goes_def spin_lock_try_def spin_lock_wait_def xchg_8_def split: if_splits)

text \<open>Two threads, of which the first has the lock.\<close>

definition spin_demo :: spin where
  "spin_demo = goes 1 Spinning (goes 0 Holding (spin_start\<lparr>lock_byte := 1\<rparr>))"

lemma spin_demo_reached: "spin_step\<^sup>*\<^sup>* spin_start spin_demo"
proof -
  let ?a = "goes 0 Exchanging spin_start"
  let ?b = "spin_lock_try 0 ?a"
  let ?c = "goes 1 Exchanging ?b"
  have "spin_step spin_start ?a" by (rule calls) (simp add: spin_start_def)
  moreover have "spin_step ?a ?b" by (rule exchanges) (simp add: goes_def)
  moreover have "spin_step ?b ?c" by (rule calls) (simp add: spin_lock_try_def goes_def xchg_8_def spin_start_def)
  moreover have "spin_step ?c (spin_lock_try 1 ?c)" by (rule exchanges) (simp add: goes_def)
  moreover have "spin_lock_try 1 ?c = spin_demo"
    by (simp add: spin_lock_try_def goes_def xchg_8_def spin_start_def spin_demo_def BUSY_X_def fun_eq_iff)
  ultimately show ?thesis by (metis rtranclp.simps)
qed

lemma spin_lock_excludes_witness: "pc spin_demo 0 = Holding \<and> lock_byte spin_demo \<noteq> 0"
  using spin_lock_excludes [OF spin_demo_reached, of 0 1] by (auto simp: spin_demo_def goes_def spin_start_def)

section \<open>Flushes\<close>

text \<open>\<open>persist_data\<close> flushes line by line; its loop is the one of \<open>flushopt\<close>.\<close>

definition persist_data :: "nvmem \<Rightarrow> ptr \<Rightarrow> nat \<Rightarrow> nvmem option" where
  "persist_data m a len = flush_loop m (and a (not (64 - 1))) (a + of_nat len)"

lemma persist_data_ok:
  assumes "unat a + len + 64 \<le> 2 ^ 64"
  obtains m' where "persist_data m a len = Some m'" "bytes m' = bytes m" "\<forall>p. dirty m' p \<longrightarrow> dirty m p \<and> \<not> in_range a len p"
proof -
  have "persist_data m a len = flushopt m a len" by (simp add: persist_data_def flushopt_def FLUSH_ALIGN_def)
  then show ?thesis using flushopt_ok [OF assms, of m] that by metis
qed

definition cycles_to_ns :: "int \<Rightarrow> u64 \<Rightarrow> u64 option" where
  "cycles_to_ns cpu_speed_mhz cycles =
     (let d = word_of_int cpu_speed_mhz :: u64 in if d = 0 then None else Some (cycles * 1000 div d))"

definition ns_to_cycles :: "int \<Rightarrow> u64 \<Rightarrow> u64" where
  "ns_to_cycles cpu_speed_mhz ns = ns * word_of_int cpu_speed_mhz div 1000"

text \<open>The readings of the counter are \<open>tsc k\<close>, \<open>tsc (k + 1)\<close>, and so on; the result is the next one.\<close>

partial_function (option) wait_cycles :: "(nat \<Rightarrow> u64) \<Rightarrow> u64 \<Rightarrow> u64 \<Rightarrow> nat \<Rightarrow> nat option" where
  "wait_cycles tsc start cycles k =
     (if tsc k - start < cycles then wait_cycles tsc start cycles (k + 1) else Some (k + 1))"

definition emulate_latency_ns :: "(nat \<Rightarrow> u64) \<Rightarrow> int \<Rightarrow> int \<Rightarrow> nat \<Rightarrow> nat option" where
  "emulate_latency_ns tsc cpu_speed_mhz ns k =
     (if ns \<le> 0 then Some k
      else wait_cycles tsc (tsc k) (ns_to_cycles cpu_speed_mhz (word_of_int ns)) (k + 1))"

text \<open>The difference is one of 64-bit numbers, passed as an \<open>int\<close>.\<close>

definition pflush :: "(nat \<Rightarrow> u64) \<Rightarrow> int \<Rightarrow> int \<Rightarrow> nat \<Rightarrow> nvmem \<Rightarrow> ptr \<Rightarrow> (nat \<times> nvmem) option" where
  "pflush tsc cpu_speed_mhz write_latency_ns k m a =
     do { let start = tsc k;
          let m = clflushopt m a;
          let stop = tsc (k + 1);
          ns \<leftarrow> cycles_to_ns cpu_speed_mhz (stop - start);
          k' \<leftarrow> emulate_latency_ns tsc cpu_speed_mhz (sint (ucast (word_of_int write_latency_ns - ns) :: 32 word)) (k + 2);
          Some (k', m) }"

text \<open>The wait ends when the counter has moved on by the cycles asked for, and not before.\<close>

lemma wait_cycles_ends:
  assumes "cycles \<le> tsc n - start" "k \<le> n"
  shows "\<exists>j. k \<le> j \<and> j \<le> n \<and> wait_cycles tsc start cycles k = Some (j + 1) \<and> cycles \<le> tsc j - start"
  using assms(2)
proof (induction "n - k" arbitrary: k rule: less_induct)
  case less
  show ?case
  proof (cases "tsc k - start < cycles")
    case False
    then have "wait_cycles tsc start cycles k = Some (k + 1)" by (subst wait_cycles.simps) simp
    then show ?thesis using False less.prems by (auto simp: not_less)
  next
    case True
    then have "k \<noteq> n" using assms(1) by auto
    then have "k < n" using less.prems by simp
    then have "n - (k + 1) < n - k" by simp
    then obtain j where "k + 1 \<le> j" "j \<le> n" "wait_cycles tsc start cycles (k + 1) = Some (j + 1)" "cycles \<le> tsc j - start"
      using less.hyps [of "k + 1"] \<open>k < n\<close> by (auto simp: Suc_le_eq)
    moreover have "wait_cycles tsc start cycles k = wait_cycles tsc start cycles (k + 1)" using True by (subst wait_cycles.simps) simp
    ultimately show ?thesis by (intro exI [of _ j]) simp
  qed
qed

end
