(* ===== verification/KV_Delete.thy ===== *)
theory KV_Delete
  imports KV_Tree KV_Remove
begin

text \<open>
  \<open>btree_delete\<close> on a well-formed tree: a key that is there loses one record, in the leaf the
  search finds; for a key that is not there the function calls itself for ever, unless its leaf is
  the rightmost.
\<close>

section \<open>Turning the direction of a leaf\<close>

text \<open>A page whose records and links are the same; a removal that finds nothing leaves one.\<close>

definition same_page :: "('k::linorder) page \<Rightarrow> 'k page \<Rightarrow> bool" where
  "same_page pg pg' \<longleftrightarrow> (\<exists>c. pg' = pg\<lparr>hdr := (hdr pg)\<lparr>switch_counter := c\<rparr>\<rparr>)"

lemma same_page_refl [simp]: "same_page pg pg"
  unfolding same_page_def by (rule exI [of _ "switch_counter (hdr pg)"]) simp

lemma same_page_sel:
  assumes "same_page pg pg'"
  shows "records pg' = records pg" "entries pg' = entries pg" "leftmost_ptr (hdr pg') = leftmost_ptr (hdr pg)"
    "sibling_ptr (hdr pg') = sibling_ptr (hdr pg)" "page_shape pg' = page_shape pg"
  using assms by (auto simp: same_page_def entries_def page_shape_def)

lemma remove_key_links:
  assumes "remove_key key pg = Some (found, pg')"
  shows "leftmost_ptr (hdr pg') = leftmost_ptr (hdr pg)" "sibling_ptr (hdr pg') = sibling_ptr (hdr pg)" "level (hdr pg') = level (hdr pg)"
  using assms by (auto simp: remove_key_def Let_def split: option.splits bind_splits if_splits)

lemma remove_key_absent:
  assumes shape: "page_shape pg" and key: "key \<notin> fst ` set (entries pg)"
  shows "\<exists>pg'. remove_key key pg = Some (False, pg') \<and> same_page pg pg'"
proof -
  obtain z zs where rs: "records pg = entries pg @ z # zs" "snd z = 0" using shape_split [OF shape] .
  have nn: "\<forall>e \<in> set (entries pg). snd e \<noteq> 0" using entries_nonnull [of _ pg] by blast
  have "remove_loop lm key 0 False (records pg) = Some (False, records pg)" for lm
    using remove_loop_ok [OF nn rs(2), of lm key "[]" zs] rs(1) key by auto
  then have "remove_key key pg = Some (False, if IS_FORWARD (switch_counter (hdr pg))
      then pg\<lparr>hdr := (hdr pg)\<lparr>switch_counter := switch_counter (hdr pg) + 1\<rparr>\<rparr> else pg)"
    by (simp add: remove_key_def Let_def)
  moreover have "same_page pg (pg\<lparr>hdr := (hdr pg)\<lparr>switch_counter := switch_counter (hdr pg) + 1\<rparr>\<rparr>)"
    unfolding same_page_def by blast
  ultimately show ?thesis by simp
qed

lemma search_other_page:
  assumes q: "H q = Some pg" "records pg' = records pg" and lm: "leftmost_ptr (hdr p) \<noteq> 0"
  shows "linear_search (H(q \<mapsto> pg')) p key = linear_search H p key"
  using assms by (cases "sibling_ptr (hdr p) = q") (auto simp: linear_search_def Let_def)

lemma descend_leaf_same:
  assumes "descend_leaf H key p = Some r"
    and q: "H q = Some pg" "records pg' = records pg" "leftmost_ptr (hdr pg) = 0" "leftmost_ptr (hdr pg') = 0"
  shows "descend_leaf (H(q \<mapsto> pg')) key p = Some r"
  using assms
proof (induction rule: descend_leaf.raw_induct [rotated, consumes 1])
  case (1 dl H key p r)
  show ?case
  proof (cases "H p")
    case None then show ?thesis using 1 by simp
  next
    case (Some x)
    show ?thesis
    proof (cases "leftmost_ptr (hdr x) = 0")
      case True
      then have "\<exists>y. (H(q \<mapsto> pg')) p = Some y \<and> leftmost_ptr (hdr y) = 0" using Some q by (cases "p = q") auto
      then show ?thesis using 1 Some True by (subst descend_leaf.simps) auto
    next
      case False
      then have x: "(H(q \<mapsto> pg')) p = Some x" using Some "1.prems" by (cases "p = q") auto
      obtain t where t: "linear_search H x key = Some t" "dl H key t = Some r" using 1 Some False by (auto split: bind_splits)
      then have "descend_leaf (H(q \<mapsto> pg')) key t = Some r" using 1 by blast
      moreover have "linear_search (H(q \<mapsto> pg')) x key = Some t"
        using search_other_page [OF _ _ False] "1.prems" t(1) by metis
      ultimately show ?thesis using x False by (subst descend_leaf.simps) simp
    qed
  qed
qed

section \<open>A key that is not there\<close>

lemma delete_leaf_absent:
  assumes wf: "wf_level H 0 (A @ (lo, q) # B)" and loc: "located key lo B" and pg: "H q = Some pg"
    and key: "key \<notin> fst ` set (entries pg)" and same: "same_page pg pg'"
  shows "delete_leaf (H(q \<mapsto> pg')) key q = Some (if sibling_ptr (hdr pg) = 0 then 0 else q)"
proof -
  have w: "page_at 0 lo pg" "link_ok H q (first B None)" "pages_at H 0 B" "q \<notin> snd ` set B"
    by (rule wf_level_page [OF wf]; use pg in simp)+
  have "sorted (map fst (flat H B))" by (rule wf_level_page [OF wf]) (simp add: sorted_append)
  then have nb: "sibling_ptr (hdr pg) \<noteq> 0 \<Longrightarrow>
      \<exists>s e. H (sibling_ptr (hdr pg)) = Some s \<and> rd (records s) 0 = Some e \<and> key < fst e"
    using sibling_above [OF w(2,3) _ loc pg] by blast
  have ne: "sibling_ptr (hdr pg) \<noteq> 0 \<Longrightarrow> sibling_ptr (hdr pg) \<noteq> q"
    using w(2,4) pg by (cases B) (auto simp: link_ok_def)
  have ok: "page_ok pg" "leftmost_ptr (hdr pg) = 0" "distinct (map snd (entries pg))" "page_shape pg"
    using w(1) by (auto simp: page_at_def page_ok_shape)
  note sel = same_page_sel [OF same]
  have z: "first_ptr (entries pg) key = 0" "first_ptr (rev (entries pg)) key = 0"
    using key by (simp_all add: first_ptr_def map_of_eq_None_iff [THEN iffD2])
  have fwd: "leaf_search_fwd key (records pg) = Some 0" using leaf_search_fwd_ok [OF ok(1,3), of key] z by simp
  have bwd: "leaf_search_bwd key (length (entries pg)) (records pg) = Some 0"
    using leaf_search_bwd_ok [OF ok(4), of key] z ok(3) by simp
  have cnt: "count_page pg' = Some (length (entries pg))" using count_page_shape [of pg'] sel ok(4) by simp
  have "linear_search (H(q \<mapsto> pg')) pg' key = Some 0"
    using fwd bwd cnt sel ok(2) nb ne
    by (cases "sibling_ptr (hdr pg) = 0"; cases "IS_FORWARD (switch_counter (hdr pg'))") (auto simp: linear_search_def Let_def)
  then show ?thesis using sel by (subst delete_leaf.simps) simp
qed

lemma btree_delete_absent_ok:
  assumes ok: "tree_ok b" and key: "key \<notin> fst ` set (records_of b)"
    and d: "descend_leaf (heap b) key (root b) = Some q" "heap b q = Some pg"
  shows "sibling_ptr (hdr pg) = 0 \<Longrightarrow> btree_delete (Suc f) key b = Some b"
    and "sibling_ptr (hdr pg) \<noteq> 0 \<Longrightarrow> btree_delete f key b = None"
proof -
  obtain A lo B where q: "leaves b = A @ (lo, q) # B" "located key lo B" "page_at 0 lo pg"
    "wf_level (heap b) 0 (A @ (lo, q) # B)" using find_leaf [OF ok, of key] d by (metis option.inject)
  have "key \<in> fst ` set (records_of b) \<longleftrightarrow> key \<in> fst ` set (entries pg)"
    unfolding records_of_def q(1) by (rule located_contents(1) [OF q(4,2) d(2)])
  then have k: "key \<notin> fst ` set (entries pg)" using key by simp
  have at: "leftmost_ptr (hdr pg) = 0" "page_shape pg" using q(3) by (auto simp: page_at_def page_ok_shape)
  have del: "delete_leaf (heap b) key q = Some (if sibling_ptr (hdr pg) = 0 then 0 else q)"
    using delete_leaf_absent [OF q(4,2) d(2) k same_page_refl] d(2) by (simp add: fun_upd_idem)
  show "sibling_ptr (hdr pg) = 0 \<Longrightarrow> btree_delete (Suc f) key b = Some b" using d(1) del by simp
  assume sib: "sibling_ptr (hdr pg) \<noteq> 0"
  have "btree_delete f key (b\<lparr>heap := (heap b)(q \<mapsto> pg')\<rparr>) = None" if "same_page pg pg'" for pg'
    using that
  proof (induction f arbitrary: pg')
    case (Suc f)
    note sel = same_page_sel [OF Suc.prems]
    have "descend_leaf ((heap b)(q \<mapsto> pg')) key (root b) = Some q"
      by (rule descend_leaf_same [OF d(1,2)]) (simp_all add: sel at)
    moreover have "delete_leaf ((heap b)(q \<mapsto> pg')) key q = Some q"
      using delete_leaf_absent [OF q(4,2) d(2) k Suc.prems] sib by simp
    moreover obtain pg2 where "remove_key key pg' = Some (False, pg2)" "same_page pg' pg2"
      using remove_key_absent [of pg' key] sel at(2) k by auto
    moreover have "same_page pg pg2" using Suc.prems \<open>same_page pg' pg2\<close> by (auto simp: same_page_def)
    moreover have "q \<noteq> 0" by (rule wf_level_page [OF q(4)])
    ultimately show ?case using Suc.IH [of pg2] by (simp del: fun_upd_apply add: fun_upd_same)
  qed simp
  from this [OF same_page_refl] show "btree_delete f key b = None" using d(2) by (simp add: fun_upd_idem)
qed

section \<open>A key that is there\<close>

lemma remove_first_split:
  assumes "key \<in> fst ` set xs"
  obtains ys v zs where "xs = ys @ (key, v) # zs" "remove_first key xs = ys @ zs" "key \<notin> fst ` set ys"
  using assms
proof (induction xs arbitrary: thesis)
  case (Cons e xs)
  show ?case
  proof (cases "fst e = key")
    case True then show ?thesis using Cons.prems(1) [of "[]" "snd e" xs] by (cases e) auto
  next
    case False
    then obtain ys v zs where "xs = ys @ (key, v) # zs" "remove_first key xs = ys @ zs" "key \<notin> fst ` set ys"
      using Cons.IH Cons.prems(2) by auto
    then show ?thesis using Cons.prems(1) [of "e # ys" v zs] False by auto
  qed
qed simp

text \<open>Changing a leaf leaves the levels above, and so the order of the leaves, as they are.\<close>

lemma leaves_leaf_update:
  assumes ok: "tree_ok b" and q: "heap b q = Some pg" "unat (level (hdr pg)) = 0"
  shows "leaves (b\<lparr>heap := (heap b)(q \<mapsto> pg')\<rparr>) = leaves b"
proof (cases "nat (height b) - 1")
  case 0 then show ?thesis by (simp add: leaves_def root_level_def)
next
  case (Suc e)
  have ch: "chain (heap b) 1 e (root_level b)" "flat (heap b) (down (heap b) e (root_level b)) = leaves b"
    using chain_shrink [of "heap b" 0 e "root_level b"] ok Suc by (simp_all add: tree_ok_def leaves_def)
  have "flat ((heap b)(q \<mapsto> pg')) (down ((heap b)(q \<mapsto> pg')) e (root_level b)) = leaves b"
    using chain_frame [OF ch(1), of "(heap b)(q \<mapsto> pg')"] ch(2) q by fastforce
  then show ?thesis using Suc by (simp add: leaves_def root_level_def del: fun_upd_apply)
qed

lemma btree_delete_present_ok:
  assumes ok: "tree_ok b" and vals: "values_ok b" and key: "key \<in> fst ` set (records_of b)"
  obtains b' xs v ys where "btree_delete (Suc f) key b = Some b'" "leaves b' = leaves b"
    "records_of b = xs @ (key, v) # ys" "records_of b' = xs @ ys"
proof -
  obtain q A lo B pg where q: "descend_leaf (heap b) key (root b) = Some q"
    "leaves b = A @ (lo, q) # B" "located key lo B" "heap b q = Some pg" "page_at 0 lo pg"
    "wf_level (heap b) 0 (A @ (lo, q) # B)" by (rule find_leaf [OF ok])
  have w: "q \<notin> snd ` set A" "q \<notin> snd ` set B" "q \<noteq> 0" by (rule wf_level_page [OF q(6)]; blast)+
  have shape: "page_shape pg" "unat (level (hdr pg)) = 0" using q(5) by (auto simp: page_at_def page_ok_shape)
  have rec: "records_of b = contents (heap b) A @ entries pg @ contents (heap b) B"
    using q(4) by (simp add: records_of_def q(2) page_entries_def)
  have "key \<in> fst ` set (records_of b) \<longleftrightarrow> key \<in> fst ` set (entries pg)"
    unfolding records_of_def q(2) by (rule located_contents(1) [OF q(6,3,4)])
  then have k: "key \<in> fst ` set (entries pg)" using key by simp
  then obtain v0 where v0: "map_of (entries pg) key = Some v0" by (metis map_of_eq_None_iff not_Some_eq)
  then have in_pg: "(key, v0) \<in> set (entries pg)" by (rule map_of_SomeD)
  then have v: "v0 \<noteq> 0" "v0 \<notin> dom (heap b)"
    using entries_nonnull [of "(key, v0)" pg] vals rec by (force simp: values_ok_def)+
  note ls = leaf_sibling [OF q(6,3,4)]
  have "v0 \<noteq> sibling_ptr (hdr pg)" using ls(2) v by (metis)
  then have del: "delete_leaf (heap b) key q = Some q"
    using ls(1) v0 q(4) by (subst delete_leaf.simps) (simp add: first_ptr_def)
  obtain pg' where pg': "remove_key key pg = Some (True, pg')" "entries pg' = remove_first key (entries pg)"
    using remove_key_ok [OF shape(1), of key] k by metis
  define b' where "b' = b\<lparr>heap := (heap b)(q \<mapsto> pg')\<rparr>"
  have run: "btree_delete (Suc f) key b = Some b'" using q(1,4) del pg'(1) w(3) by (simp add: b'_def del: fun_upd_apply)
  have lv: "leaves b' = leaves b" unfolding b'_def by (rule leaves_leaf_update [OF ok q(4) shape(2)])
  have "contents (heap b') A = contents (heap b) A" "contents (heap b') B = contents (heap b) B"
    unfolding b'_def by (rule contents_cong; use w in force)+
  then have rec': "records_of b' = contents (heap b) A @ remove_first key (entries pg) @ contents (heap b) B"
    using pg'(2) unfolding records_of_def lv q(2) by (simp add: page_entries_def b'_def)
  obtain xs u ys where "entries pg = xs @ (key, u) # ys" "remove_first key (entries pg) = xs @ ys"
    by (rule remove_first_split [OF k])
  then show ?thesis
    using that [OF run lv, of "contents (heap b) A @ xs" u "ys @ contents (heap b) B"] rec rec' by simp
qed

section \<open>The properties\<close>

text \<open>
  C22: Deleting a key that is there. On any well-formed tree whose values are not page addresses one
  call of \<open>btree_delete\<close> returns with exactly one record of that key gone: the other records are
  there in the same order, in the same leaves.
\<close>
theorem btree_delete_removes:
  assumes "tree_ok b" "values_ok b" "key \<in> fst ` set (records_of b)"
  shows "\<exists>b' xs v ys. btree_delete (Suc f) key b = Some b' \<and> leaves b' = leaves b \<and>
    records_of b = xs @ (key, v) # ys \<and> records_of b' = xs @ ys"
  using btree_delete_present_ok [OF assms, of f] by metis

text \<open>
  C23: Deleting a key that is not there. When the leaf the key would be in is the rightmost of the
  tree, nothing happens; otherwise \<open>btree_delete\<close> calls itself again and again and never returns,
  however many calls are allowed.
\<close>
theorem btree_delete_absent_loops:
  assumes "tree_ok b" "key \<notin> fst ` set (records_of b)"
  shows "\<exists>q pg. descend_leaf (heap b) key (root b) = Some q \<and> heap b q = Some pg \<and>
    (if sibling_ptr (hdr pg) = 0 then btree_delete (Suc f) key b = Some b else btree_delete f key b = None)"
  using find_leaf [OF assms(1), of key] btree_delete_absent_ok [OF assms] by metis

text \<open>A tree of two leaves below a root.\<close>

definition two_leaves :: "nat btree" where
  "two_leaves =
     \<lparr>height = 2, root = 3,
      heap = [1 \<mapsto> \<lparr>hdr = \<lparr>leftmost_ptr = 0, sibling_ptr = 2, level = 0, switch_counter = 0, is_deleted = False, last_index = 0\<rparr>,
                    records = [(10, 100), (0, 0), (0, 0), (0, 0), (0, 0), (0, 0)]\<rparr>,
              2 \<mapsto> \<lparr>hdr = \<lparr>leftmost_ptr = 0, sibling_ptr = 0, level = 0, switch_counter = 0, is_deleted = False, last_index = 0\<rparr>,
                    records = [(20, 200), (0, 0), (0, 0), (0, 0), (0, 0), (0, 0)]\<rparr>,
              3 \<mapsto> \<lparr>hdr = \<lparr>leftmost_ptr = 1, sibling_ptr = 0, level = 1, switch_counter = 0, is_deleted = False, last_index = 0\<rparr>,
                    records = [(20, 2), (0, 0), (0, 0), (0, 0), (0, 0), (0, 0)]\<rparr>],
      allocs = 3, page_count = replicate 32 0, num_kv = replicate 32 0\<rparr>"

lemma two_leaves_ok:
  "tree_ok two_leaves" "values_ok two_leaves" "records_of two_leaves = [(10, 100), (20, 200)]" "leaves two_leaves = [(None, 1), (Some 20, 2)]"
proof -
  show lv: "leaves two_leaves = [(None, 1), (Some 20, 2)]"
    by (simp add: leaves_def root_level_def two_leaves_def children_def children_of_def entries_def)
  then show rec: "records_of two_leaves = [(10, 100), (20, 200)]"
    by (simp add: records_of_def) (simp add: two_leaves_def page_entries_def entries_def)
  then show "values_ok two_leaves" by (simp add: values_ok_def) (simp add: two_leaves_def)
  show "tree_ok two_leaves"
    by (simp add: tree_ok_def root_level_def wf_level_def two_leaves_def children_def children_of_def entries_def page_at_def
        page_ok_def link_ok_def IS_FORWARD_def)
qed

lemma btree_delete_removes_witness:
  "\<exists>b'. btree_delete 1 20 two_leaves = Some b' \<and> records_of b' = [(10, 100)]"
proof -
  obtain b' xs v ys where r: "btree_delete (Suc 0) 20 two_leaves = Some b'" "records_of two_leaves = xs @ (20, v) # ys" "records_of b' = xs @ ys"
    using btree_delete_removes [OF two_leaves_ok(1,2), of 20 0] two_leaves_ok(3) by auto
  have "xs = [(10, 100)] \<and> ys = []" using r(2) two_leaves_ok(3) by (cases xs) (auto simp: Cons_eq_append_conv)
  then show ?thesis using r by simp
qed

lemma btree_delete_absent_loops_witness: "btree_delete 1000 15 two_leaves = None"
proof -
  have ls: "linear_search (heap two_leaves) \<lparr>hdr = \<lparr>leftmost_ptr = 1, sibling_ptr = 0, level = 1, switch_counter = 0, is_deleted = False, last_index = 0\<rparr>,
                    records = [(20, 2), (0, 0), (0, 0), (0, 0), (0, 0), (0, 0)]\<rparr> 15 = Some 1"
    by (simp add: linear_search_def int_search_fwd_def rd_def IS_FORWARD_def)
  have "descend_leaf (heap two_leaves) 15 1 = Some 1" by (subst descend_leaf.simps) (simp add: two_leaves_def)
  then have "descend_leaf (heap two_leaves) 15 3 = Some 1"
    using ls by (subst descend_leaf.simps) (simp add: two_leaves_def)
  then show ?thesis
    using btree_delete_absent_loops [OF two_leaves_ok(1), of 15 1000] two_leaves_ok(3) by (simp add: two_leaves_def del: btree_delete.simps)
qed

end
