(* ===== verification/KV_Rebalance.thy ===== *)
theory KV_Rebalance
  imports KV_Delete
begin

text \<open>
  The removal with rebalancing of \<open>bufferevent_single/Hikv/obj/btree.h\<close> and \<open>btree.cc\<close>:
  \<open>page::remove_rebalancing\<close> and \<open>btree::btree_delete_internal\<close>. Nothing calls it; the comment in
  front of it says that it is blocked for performance.
\<close>

section \<open>The parent\<close>

text \<open>
  The loop over the parent's records: the record whose pointer is the page, with the pointer before
  it. \<open>None\<close> inside is a loop that ended without one, and leaves the caller's variables unset.
\<close>

function find_child :: "ptr \<Rightarrow> ptr \<Rightarrow> nat \<Rightarrow> ('k \<times> ptr) list \<Rightarrow> ('k \<times> ptr) option option" where
  "find_child lm p i rs =
     (case rd rs i of
        None \<Rightarrow> None
      | Some e \<Rightarrow>
          if snd e = 0 then Some None
          else (let before = (if i = 0 then lm else snd (rs ! (i - 1)))
                in if snd e = p \<and> before \<noteq> snd e then Some (Some (fst e, before))
                   else find_child lm p (i + 1) rs))"
  by pat_completeness auto
termination
  by (relation "measure (\<lambda>(lm, p, i, rs). length rs - i)") (auto simp: rd_def split: if_splits)

declare find_child.simps [simp del]

text \<open>
  Locking a \<open>std::mutex\<close> that the thread holds already has no normal outcome. \<open>page::remove\<close> locks
  the page whatever its argument \<open>with_lock\<close> says.
\<close>

definition relock :: "unit option" where
  "relock = None"

text \<open>
  \<open>btree_delete_internal\<close>: whether the page is the leftmost child, and otherwise the key that was
  removed from the parent and the page left of it.
\<close>

definition btree_delete_internal ::
  "('k::linorder) \<Rightarrow> ptr \<Rightarrow> u32 \<Rightarrow> 'k btree \<Rightarrow> ((bool \<times> ('k \<times> ptr) option) \<times> 'k btree) option" where
  "btree_delete_internal key p lv b =
     do { r \<leftarrow> heap b (root b);
          if level (hdr r) < lv then Some ((False, None), b)
          else do {
            a \<leftarrow> descend_level (heap b) key lv (root b);
            pg \<leftarrow> heap b a;
            if leftmost_ptr (hdr pg) = p then Some ((True, None), b)
            else do {
              f \<leftarrow> find_child (leftmost_ptr (hdr pg)) p 0 (records pg);
              (case f of
                 None \<Rightarrow> Some ((False, None), b)
               | Some (k, l) \<Rightarrow> do { _ \<leftarrow> relock;
                                  (_, pg') \<leftarrow> remove_key k pg;
                                  Some ((False, Some (k, l)), b\<lparr>heap := (heap b)(a \<mapsto> pg')\<rparr>) }) } } }"

partial_function (option) left_neighbour :: "(ptr \<Rightarrow> 'k page option) \<Rightarrow> ptr \<Rightarrow> ptr \<Rightarrow> ptr option" where
  "left_neighbour H this l =
     do { pg \<leftarrow> H l;
          if sibling_ptr (hdr pg) \<noteq> this then left_neighbour H this (sibling_ptr (hdr pg)) else Some l }"

section \<open>Moving records\<close>

text \<open>The loops that end at the first record without a pointer, from index \<open>i\<close>.\<close>

function append_records ::
  "('k::linorder \<times> ptr) list \<Rightarrow> nat \<Rightarrow> 'k page \<times> nat \<Rightarrow> ('k page \<times> nat) option" where
  "append_records rs i (pg, cnt) =
     (case rd rs i of
        None \<Rightarrow> None
      | Some e \<Rightarrow>
          if snd e = 0 then Some (pg, cnt)
          else do { sc \<leftarrow> insert_key (fst e) (snd e) cnt True pg; append_records rs (i + 1) sc })"
  by pat_completeness auto
termination
  by (relation "measure (\<lambda>(rs, i, sc). length rs - i)") (auto simp: rd_def split: if_splits)

declare append_records.simps [simp del]

text \<open>
  The new separator goes into the parent, or into a new root. \<open>m\<close> is half of the records, rounded
  down: the division is one of integers, so the \<open>ceil\<close> around it changes nothing.
\<close>

definition link_parent ::
  "(nat \<Rightarrow> ptr) \<Rightarrow> nat \<Rightarrow> nat \<Rightarrow> ptr \<Rightarrow> ('k::{linorder,zero}) \<Rightarrow> ptr \<Rightarrow> u32 \<Rightarrow> 'k btree \<Rightarrow> 'k btree option" where
  "link_parent mal f tid l parent_key right lv b =
     (if l = root b
      then do { (nr, b) \<leftarrow> getNewPage_root mal tid l parent_key right lv b; Some (setNewRoot nr b) }
      else btree_insert_internal mal f tid parent_key right lv b)"

text \<open>From the left neighbour to this page.\<close>

definition redistribute_right ::
  "('k::{linorder,zero}) \<Rightarrow> nat \<Rightarrow> nat \<Rightarrow> nat \<Rightarrow> 'k page \<Rightarrow> 'k page \<Rightarrow> ('k \<times> 'k page \<times> 'k page) option" where
  "redistribute_right deleted_key m num left_num lpg pg =
     (if leftmost_ptr (hdr pg) = 0
      then do { (pg, _) \<leftarrow> migrate (records lpg) (rev [m..<left_num]) (pg, num);
                lrs \<leftarrow> wr_ptr (records lpg) m 0;
                e \<leftarrow> rd (records pg) 0;
                Some (fst e, lpg\<lparr>hdr := (hdr lpg)\<lparr>last_index := int m - 1\<rparr>, records := lrs\<rparr>, pg) }
      else do { (pg, num) \<leftarrow> insert_key deleted_key (leftmost_ptr (hdr pg)) num True pg;
                (pg, _) \<leftarrow> migrate (records lpg) (rev [m + 1..<left_num]) (pg, num);
                e \<leftarrow> rd (records lpg) m;
                lrs \<leftarrow> wr_ptr (records lpg) m 0;
                Some (fst e, lpg\<lparr>hdr := (hdr lpg)\<lparr>last_index := int m - 1\<rparr>, records := lrs\<rparr>,
                      pg\<lparr>hdr := (hdr pg)\<lparr>leftmost_ptr := snd e\<rparr>\<rparr>) })"

text \<open>
  From this page to the left neighbour and a new right one. In an internal page of as many records
  as its neighbour the record before the first is read.
\<close>

definition redistribute_left ::
  "('k::{linorder,zero}) \<Rightarrow> nat \<Rightarrow> nat \<Rightarrow> nat \<Rightarrow> 'k page \<Rightarrow> 'k page \<Rightarrow> 'k page \<Rightarrow> ('k \<times> 'k page \<times> 'k page) option" where
  "redistribute_left deleted_key m num left_num lpg pg new =
     (let d = num - m
      in if leftmost_ptr (hdr pg) = 0
         then do { (lpg, _) \<leftarrow> migrate (records pg) [0..<d] (lpg, left_num);
                   (new, _) \<leftarrow> append_records (records pg) d (new, 0);
                   e \<leftarrow> rd (records new) 0;
                   Some (fst e, lpg, new) }
         else do { (lpg, left_num) \<leftarrow> insert_key deleted_key (leftmost_ptr (hdr pg)) left_num True lpg;
                   (lpg, _) \<leftarrow> migrate (records pg) [0..<d - 1] (lpg, left_num);
                   if d = 0 then None
                   else do { e \<leftarrow> rd (records pg) (d - 1);
                             (new, _) \<leftarrow> append_records (records pg) d (new\<lparr>hdr := (hdr new)\<lparr>leftmost_ptr := snd e\<rparr>\<rparr>, 0);
                             Some (fst e, lpg, new) } })"

text \<open>All of this page to the left neighbour.\<close>

definition merge_left :: "('k::{linorder,zero}) \<Rightarrow> nat \<Rightarrow> 'k page \<Rightarrow> 'k page \<Rightarrow> 'k page option" where
  "merge_left deleted_key left_num lpg pg =
     do { sc \<leftarrow> (if leftmost_ptr (hdr pg) \<noteq> 0
                then insert_key deleted_key (leftmost_ptr (hdr pg)) left_num True lpg
                else Some (lpg, left_num));
          (lpg, _) \<leftarrow> append_records (records pg) 0 sc;
          Some (lpg\<lparr>hdr := (hdr lpg)\<lparr>sibling_ptr := sibling_ptr (hdr pg)\<rparr>\<rparr>) }"

definition mark_deleted :: "'k page \<Rightarrow> 'k page" where
  "mark_deleted pg = pg\<lparr>hdr := (hdr pg)\<lparr>is_deleted := True\<rparr>\<rparr>"

section \<open>remove\_rebalancing\<close>

text \<open>
  What follows the removal from the parent, for a page that is not its leftmost child. The unset
  variables of a parent without the page are followed, which is \<open>None\<close>.
\<close>

definition rebalance ::
  "(nat \<Rightarrow> ptr) \<Rightarrow> nat \<Rightarrow> nat \<Rightarrow> ptr \<Rightarrow> ('k::{linorder,zero}) \<Rightarrow> ptr \<Rightarrow> 'k btree \<Rightarrow> (bool \<times> 'k btree) option" where
  "rebalance mal f tid this deleted_key l b =
     do { l \<leftarrow> left_neighbour (heap b) this l;
          pg \<leftarrow> heap b this;
          lpg \<leftarrow> heap b l;
          num \<leftarrow> count_page pg;
          left_num \<leftarrow> count_page lpg;
          let total = num + left_num + (if leftmost_ptr (hdr pg) \<noteq> 0 then 1 else 0);
          let lv = level (hdr pg) + 1;
          if total > cardinality - 1
          then (let m = total div 2
                in if num < left_num
                   then do { (parent_key, lpg, pg) \<leftarrow> redistribute_right deleted_key m num left_num lpg pg;
                             b \<leftarrow> link_parent mal f tid l parent_key this lv (b\<lparr>heap := (heap b)(l \<mapsto> lpg, this \<mapsto> pg)\<rparr>);
                             Some (True, b) }
                   else do { (np, b) \<leftarrow> getNewPage mal tid (level (hdr pg)) (b\<lparr>heap := (heap b)(this \<mapsto> mark_deleted pg)\<rparr>);
                             new \<leftarrow> heap b np;
                             (parent_key, lpg, new) \<leftarrow> redistribute_left deleted_key m num left_num lpg pg
                               (new\<lparr>hdr := (hdr new)\<lparr>sibling_ptr := sibling_ptr (hdr pg)\<rparr>\<rparr>);
                             let lpg = lpg\<lparr>hdr := (hdr lpg)\<lparr>sibling_ptr := np\<rparr>\<rparr>;
                             b \<leftarrow> link_parent mal f tid l parent_key np lv (b\<lparr>heap := (heap b)(l \<mapsto> lpg, np \<mapsto> new)\<rparr>);
                             Some (True, b) })
          else do { lpg \<leftarrow> merge_left deleted_key left_num lpg pg;
                    Some (True, b\<lparr>heap := (heap b)(this \<mapsto> mark_deleted pg, l \<mapsto> lpg)\<rparr>) } }"

definition remove_rebalancing ::
  "(nat \<Rightarrow> ptr) \<Rightarrow> nat \<Rightarrow> nat \<Rightarrow> ptr \<Rightarrow> ('k::{linorder,zero}) \<Rightarrow> bool \<Rightarrow> 'k btree \<Rightarrow> (bool \<times> 'k btree) option" where
  "remove_rebalancing mal f tid this key only_rebalance b =
     do { pg \<leftarrow> heap b this;
          if is_deleted (hdr pg) then Some (False, b)
          else if \<not> only_rebalance \<and> this = root b
          then do { n \<leftarrow> count_page pg;
                    let shrink = (level (hdr pg) > 0 \<and> n = 1 \<and> sibling_ptr (hdr pg) = 0);
                    let b1 = (if shrink then b\<lparr>root := leftmost_ptr (hdr pg)\<rparr> else b);
                    (_, pg') \<leftarrow> remove_key key (if shrink then mark_deleted pg else pg);
                    Some (True, b1\<lparr>heap := (heap b1)(this \<mapsto> pg')\<rparr>) }
          else do {
            (stop, ret, b) \<leftarrow>
              (if only_rebalance then Some (False, True, b)
               else do { n \<leftarrow> count_page pg;
                         (ret, pg') \<leftarrow> remove_key key pg;
                         Some (int n - 1 \<ge> int ((cardinality - 1) div 2),
                               if leftmost_ptr (hdr pg) = 0 then ret else True, b\<lparr>heap := (heap b)(this \<mapsto> pg')\<rparr>) });
            if stop then Some (ret, b)
            else do {
              ((is_leftmost_node, d), b) \<leftarrow> btree_delete_internal key this (level (hdr pg) + 1) b;
              if is_leftmost_node
              then do { me \<leftarrow> heap b this;
                        let s = sibling_ptr (hdr me);
                        spg \<leftarrow> heap b s;
                        e \<leftarrow> rd (records spg) 0;
                        (_, spg') \<leftarrow> remove_key (fst e) spg;
                        Some (True, b\<lparr>heap := (heap b)(s \<mapsto> spg')\<rparr>) }
              else do { (deleted_key, l) \<leftarrow> d; rebalance mal f tid this deleted_key l b } } } }"

section \<open>What they do\<close>

text \<open>An insertion into a page of either direction.\<close>

lemma insert_key_shape:
  assumes shape: "page_shape pg" and room: "length (entries pg) + 1 < cardinality" and v: "v \<noteq> 0"
  obtains pg' where "insert_key key v (length (entries pg)) True pg = Some (pg', length (entries pg) + 1)"
    "entries pg' = ins_after key v (entries pg)" "page_shape pg'"
    "leftmost_ptr (hdr pg') = leftmost_ptr (hdr pg)" "sibling_ptr (hdr pg') = sibling_ptr (hdr pg)"
proof -
  define c where "c = (if IS_FORWARD (switch_counter (hdr pg)) then switch_counter (hdr pg) else switch_counter (hdr pg) + 1)"
  define ev where "ev = pg\<lparr>hdr := (hdr pg)\<lparr>switch_counter := c\<rparr>\<rparr>"
  have c: "IS_FORWARD c" unfolding c_def IS_FORWARD_def by (auto simp flip: even_iff_mod_2_eq_zero)
  have same: "same_page pg ev" unfolding same_page_def ev_def by blast
  note sel = same_page_sel [OF same]
  have ok: "page_ok ev" using shape sel(5) c by (simp add: page_ok_shape ev_def)
  obtain pg' where pg': "insert_key key v (length (entries ev)) True ev = Some (pg', length (entries ev) + 1)"
    "entries pg' = ins_after key v (entries ev)" "page_ok pg'" "hdr pg' = (hdr ev)\<lparr>last_index := int (length (entries ev))\<rparr>"
    by (rule insert_key_ok [OF ok _ v]) (use room sel in auto)
  have h: "(if \<not> IS_FORWARD (switch_counter (hdr pg)) then (hdr pg)\<lparr>switch_counter := switch_counter (hdr pg) + 1\<rparr> else hdr pg) = hdr ev"
    by (simp add: ev_def c_def)
  have h': "(if \<not> IS_FORWARD (switch_counter (hdr ev)) then (hdr ev)\<lparr>switch_counter := switch_counter (hdr ev) + 1\<rparr> else hdr ev) = hdr ev"
    using ok by (simp add: page_ok_def)
  have e: "records ev = records pg" "ev\<lparr>hdr := x, records := rs\<rparr> = pg\<lparr>hdr := x, records := rs\<rparr>" for x rs
    by (simp_all add: ev_def)
  have "insert_key key v n True pg = insert_key key v n True ev" for n
    unfolding insert_key_def Let_def h h' e by (rule refl)
  then show ?thesis using pg' sel by (intro that [of pg']) (simp_all add: page_ok_shape)
qed

lemma append_records_ok:
  assumes rs: "rs = xs @ ys @ z # zs" "snd z = 0" "\<forall>e \<in> set ys. snd e \<noteq> 0" and shape: "page_shape pg"
    and srt: "sorted_keys (entries pg @ ys)" and room: "length (entries pg) + length ys < cardinality"
  shows "\<exists>pg'. append_records rs (length xs) (pg, length (entries pg)) = Some (pg', length (entries pg) + length ys) \<and>
     entries pg' = entries pg @ ys \<and> page_shape pg' \<and> leftmost_ptr (hdr pg') = leftmost_ptr (hdr pg)"
  using assms
proof (induction ys arbitrary: xs pg)
  case Nil
  then show ?case by (subst append_records.simps) (simp add: rd_def nth_append)
next
  case (Cons y ys)
  have rd: "rd rs (length xs) = Some y" using Cons.prems(1) by (simp add: rd_def nth_append)
  obtain pg1 where pg1: "insert_key (fst y) (snd y) (length (entries pg)) True pg = Some (pg1, length (entries pg) + 1)"
    "entries pg1 = ins_after (fst y) (snd y) (entries pg)" "page_shape pg1" "leftmost_ptr (hdr pg1) = leftmost_ptr (hdr pg)"
    by (rule insert_key_shape [of pg "snd y" "fst y"]) (use Cons.prems in auto)
  have "\<forall>e \<in> set (entries pg). fst e \<le> fst y" using Cons.prems(5) by (auto simp: sorted_append)
  then have e1: "entries pg1 = entries pg @ [y]" using pg1(2) by (simp add: ins_after_last)
  have "\<exists>pg'. append_records rs (length (xs @ [y])) (pg1, length (entries pg1)) = Some (pg', length (entries pg1) + length ys) \<and>
     entries pg' = entries pg1 @ ys \<and> page_shape pg' \<and> leftmost_ptr (hdr pg') = leftmost_ptr (hdr pg1)"
    by (rule Cons.IH) (use Cons.prems pg1(3) e1 in auto)
  moreover have "append_records rs (length xs) (pg, length (entries pg)) = append_records rs (length (xs @ [y])) (pg1, length (entries pg1))"
    using rd Cons.prems(3) pg1(1) e1 by (subst append_records.simps) simp
  ultimately show ?case using e1 pg1(4) by auto
qed

lemma merge_left_ok:
  assumes "page_shape lpg" "page_shape pg" "leftmost_ptr (hdr pg) = 0" "sorted_keys (entries lpg @ entries pg)"
    "length (entries lpg) + length (entries pg) < cardinality"
  shows "\<exists>m. merge_left k (length (entries lpg)) lpg pg = Some m \<and> entries m = entries lpg @ entries pg \<and>
     sibling_ptr (hdr m) = sibling_ptr (hdr pg) \<and> page_shape m"
proof -
  obtain z zs where rs: "records pg = entries pg @ z # zs" "snd z = 0" using shape_split [OF assms(2)] .
  have "\<forall>e \<in> set (entries pg). snd e \<noteq> 0" using entries_nonnull [of _ pg] by blast
  then have "\<exists>pg'. append_records (records pg) 0 (lpg, length (entries lpg)) = Some (pg', length (entries lpg) + length (entries pg)) \<and>
     entries pg' = entries lpg @ entries pg \<and> page_shape pg' \<and> leftmost_ptr (hdr pg') = leftmost_ptr (hdr lpg)"
    using append_records_ok [of "records pg" "[]" "entries pg" z zs lpg] assms rs by simp
  then show ?thesis using assms(3) by (auto simp: merge_left_def entries_def page_shape_def)
qed

text \<open>The records of the neighbour from the back, in front of those of the page.\<close>

lemma migrate_front:
  assumes "page_shape pg" "m \<le> n" "n \<le> length xs" "\<forall>e \<in> set xs. snd e \<noteq> 0"
    "sorted_keys (take n xs @ entries pg)" "distinct (map fst (take n xs @ entries pg))"
    "length (entries pg) + (n - m) < cardinality"
  shows "\<exists>pg'. migrate (xs @ ws) (rev [m..<n]) (pg, length (entries pg)) = Some (pg', length (entries pg) + (n - m)) \<and>
     entries pg' = drop m (take n xs) @ entries pg \<and> page_shape pg' \<and> leftmost_ptr (hdr pg') = leftmost_ptr (hdr pg)"
  using assms
proof (induction "n - m" arbitrary: n pg)
  case 0
  then show ?case by simp
next
  case (Suc d)
  then obtain k where k: "n = Suc k" "m \<le> k" by (cases n) auto
  have rd: "rd (xs @ ws) k = Some (xs ! k)" and t: "take n xs = take k xs @ [xs ! k]"
    using Suc.prems(3) k by (simp_all add: rd_def nth_append take_Suc_conv_app_nth)
  obtain pg1 where pg1: "insert_key (fst (xs ! k)) (snd (xs ! k)) (length (entries pg)) True pg = Some (pg1, length (entries pg) + 1)"
    "entries pg1 = ins_after (fst (xs ! k)) (snd (xs ! k)) (entries pg)" "page_shape pg1" "leftmost_ptr (hdr pg1) = leftmost_ptr (hdr pg)"
    by (rule insert_key_shape [of pg "snd (xs ! k)" "fst (xs ! k)"]) (use Suc k in auto)
  have "\<forall>e \<in> set (entries pg). fst (xs ! k) < fst e"
  proof
    fix e assume e: "e \<in> set (entries pg)"
    have "fst (xs ! k) \<le> fst e" using Suc.prems(5) e unfolding t by (simp add: sorted_append)
    moreover have "fst (xs ! k) \<noteq> fst e" using Suc.prems(6) e unfolding t by force
    ultimately show "fst (xs ! k) < fst e" by simp
  qed
  then have e1: "entries pg1 = xs ! k # entries pg" using pg1(2) by (simp add: ins_after_front)
  have "\<exists>pg'. migrate (xs @ ws) (rev [m..<k]) (pg1, length (entries pg1)) = Some (pg', length (entries pg1) + (k - m)) \<and>
     entries pg' = drop m (take k xs) @ entries pg1 \<and> page_shape pg' \<and> leftmost_ptr (hdr pg') = leftmost_ptr (hdr pg1)"
  proof (rule Suc.hyps(1))
    show "d = k - m" "m \<le> k" "k \<le> length xs" "page_shape pg1" "\<forall>e \<in> set xs. snd e \<noteq> 0"
      using Suc.hyps(2) Suc.prems(3,4) k pg1(3) by simp_all
    show "sorted_keys (take k xs @ entries pg1)" "distinct (map fst (take k xs @ entries pg1))"
      using Suc.prems(5,6) unfolding t e1 by simp_all
    show "length (entries pg1) + (k - m) < cardinality" using Suc.prems(7) k e1 by simp
  qed
  moreover have "migrate (xs @ ws) (rev [m..<n]) (pg, length (entries pg)) = migrate (xs @ ws) (rev [m..<k]) (pg1, length (entries pg1))"
    using k rd pg1(1) e1 by simp
  moreover have "length (entries pg1) + (k - m) = length (entries pg) + (n - m)"
    "drop m (take k xs) @ entries pg1 = drop m (take n xs) @ entries pg"
    using k e1 t Suc.prems(3) by (simp_all add: Suc_diff_le)
  ultimately show ?case using pg1(4) by metis
qed

text \<open>The null written at index \<open>m\<close> cuts the page there.\<close>

lemma entries_cut:
  assumes shape: "page_shape pg" and m: "0 < m" "m < length (entries pg)"
    and cut: "rs = (records pg)[m := (fst (records pg ! m), 0)]"
  shows "entries (pg\<lparr>hdr := (hdr pg)\<lparr>last_index := int m - 1\<rparr>, records := rs\<rparr>) = take m (entries pg)"
    "page_shape (pg\<lparr>hdr := (hdr pg)\<lparr>last_index := int m - 1\<rparr>, records := rs\<rparr>)"
proof -
  obtain z zs where r: "records pg = entries pg @ z # zs" using shape_split [OF shape] by metis
  have "rs = take m (entries pg) @ (fst (entries pg ! m), 0) # drop (Suc m) (entries pg) @ z # zs"
    using m by (simp add: cut r list_update_append nth_append upd_conv_take_nth_drop)
  moreover have "\<forall>e \<in> set (take m (entries pg)). snd e \<noteq> 0" using entries_nonnull [of _ pg] by (meson in_set_takeD)
  ultimately have "takeWhile (\<lambda>e. snd e \<noteq> 0) rs = take m (entries pg)" by (simp only:) (simp add: takeWhile_append2)
  then show e: "entries (pg\<lparr>hdr := (hdr pg)\<lparr>last_index := int m - 1\<rparr>, records := rs\<rparr>) = take m (entries pg)"
    by (simp add: entries_def)
  show "page_shape (pg\<lparr>hdr := (hdr pg)\<lparr>last_index := int m - 1\<rparr>, records := rs\<rparr>)"
  proof -
    have "sorted_keys (take m (entries pg))" using shape by (simp add: page_shape_def sorted_wrt_take flip: take_map)
    moreover have "length (entries pg) < 6" "length rs = 6" using shape by (simp_all add: page_shape_def cut)
    moreover have "take m (entries pg) \<noteq> []" "length (take m (entries pg)) = m" using m by auto
    ultimately show ?thesis unfolding page_shape_def e using m by simp
  qed
qed

lemma redistribute_right_ok:
  assumes "page_shape lpg" "page_shape pg" "leftmost_ptr (hdr pg) = 0"
    "sorted_keys (entries lpg @ entries pg)" "distinct (map fst (entries lpg @ entries pg))"
    and n: "cardinality \<le> length (entries lpg) + length (entries pg)" "length (entries pg) < length (entries lpg)"
    and m: "m = (length (entries lpg) + length (entries pg)) div 2"
  shows "\<exists>k lpg' pg'. redistribute_right dk m (length (entries pg)) (length (entries lpg)) lpg pg = Some (k, lpg', pg') \<and>
     entries lpg' @ entries pg' = entries lpg @ entries pg \<and> length (entries lpg') = m \<and> page_shape lpg' \<and> page_shape pg' \<and>
     k = fst (hd (entries pg'))"
proof -
  define l where "l = length (entries lpg)"
  have lt: "0 < m" "m < l" "l < cardinality" using assms(1) n m by (auto simp: page_shape_def l_def)
  obtain z zs where r: "records lpg = entries lpg @ z # zs" using shape_split [OF assms(1)] by metis
  have nn: "\<forall>e \<in> set (entries lpg). snd e \<noteq> 0" using entries_nonnull [of _ lpg] by blast
  have room: "length (entries pg) + (l - m) < cardinality" using lt m n by (simp add: l_def)
  obtain pg' where pg': "migrate (records lpg) (rev [m..<l]) (pg, length (entries pg)) = Some (pg', length (entries pg) + (l - m))"
    "entries pg' = drop m (entries lpg) @ entries pg" "page_shape pg'"
    using migrate_front [of pg m l "entries lpg" "z # zs"] assms(2,4,5) lt nn room r by (auto simp: l_def)
  define lpg' where "lpg' = lpg\<lparr>hdr := (hdr lpg)\<lparr>last_index := int m - 1\<rparr>, records := (records lpg)[m := (fst (records lpg ! m), 0)]\<rparr>"
  have cut: "entries lpg' = take m (entries lpg)" "page_shape lpg'"
    using entries_cut [OF assms(1) lt(1) _ refl] lt(2) by (simp_all add: lpg'_def l_def)
  have w: "wr_ptr (records lpg) m 0 = Some ((records lpg)[m := (fst (records lpg ! m), 0)])"
    using r lt by (simp add: access_simps l_def)
  have ne: "entries pg' \<noteq> []" using pg'(2) lt by (simp add: l_def)
  have "rd (records pg') 0 = Some (hd (entries pg'))"
  proof -
    obtain z' zs' where "records pg' = entries pg' @ z' # zs'" using shape_split [OF pg'(3)] by metis
    then show ?thesis using ne by (cases "entries pg'") (simp_all add: rd_def)
  qed
  then have "redistribute_right dk m (length (entries pg)) l lpg pg = Some (fst (hd (entries pg')), lpg', pg')"
    using assms(3) pg'(1) w by (simp add: redistribute_right_def lpg'_def)
  moreover have "entries lpg' @ entries pg' = entries lpg @ entries pg" using cut(1) pg'(2) by simp
  moreover have "length (entries lpg') = m" using cut(1) lt by (simp add: l_def)
  ultimately show ?thesis using cut(2) pg'(3) by (auto simp: l_def)
qed

section \<open>The properties\<close>


text \<open>Removing the key of a page's first record removes that record.\<close>

lemma remove_key_of_first:
  assumes "page_shape spg" "rd (records spg) 0 = Some e" "remove_key (fst e) spg = Some (x, spg')"
  shows "entries spg' = tl (entries spg)"
proof -
  have "entries spg = [] \<or> e = hd (entries spg)"
  proof (rule shape_split [OF assms(1)])
    fix z zs assume "records spg = entries spg @ z # zs"
    then show ?thesis using assms(2) by (cases "entries spg") (auto simp: rd_def)
  qed
  moreover have "entries spg' = remove_first (fst e) (entries spg)" using remove_key_ok [OF assms(1), of "fst e"] assms(3) by auto
  ultimately show ?thesis by (cases "entries spg") auto
qed


text \<open>The two leaves of the small tree: merged, and after removing the record 10 of the left one.\<close>

definition leaf_page :: "ptr \<Rightarrow> nat \<times> ptr \<Rightarrow> nat page" where
  "leaf_page sib e =
     \<lparr>hdr = \<lparr>leftmost_ptr = 0, sibling_ptr = sib, level = 0, switch_counter = 0, is_deleted = False, last_index = 0\<rparr>,
      records = [e, (0, 0), (0, 0), (0, 0), (0, 0), (0, 0)]\<rparr>"

lemma leaf_pages:
  "heap two_leaves 1 = Some (leaf_page 2 (10, 100))" "heap two_leaves 2 = Some (leaf_page 0 (20, 200))"
  "v \<noteq> 0 \<Longrightarrow> page_shape (leaf_page s (k, v))" "v \<noteq> 0 \<Longrightarrow> entries (leaf_page s (k, v)) = [(k, v)]"
  "leftmost_ptr (hdr (leaf_page s e)) = 0" "sibling_ptr (hdr (leaf_page s e)) = s" "\<not> is_deleted (hdr (leaf_page s e))"
  "level (hdr (leaf_page s e)) = 0"
  by (simp_all add: two_leaves_def leaf_page_def page_shape_def entries_def)



end
