(* ===== verification/KV_Snapshot.thy ===== *)
theory KV_Snapshot
  imports KV_Search
begin

text \<open>
  What a reader sees of a page while \<open>insert_key\<close> of \<open>bufferevent_single/Hikv/obj/btree.h\<close> runs. Readers
  take no lock; the insert shifts the records up by single stores in an order that is meant to
  keep every state between two stores readable ("FAST"). A store of a pointer is one 8-byte store;
  a key is 64 bytes long, so a reader can also meet a key of which only a part is stored.
\<close>

section \<open>The stores of an insert\<close>

datatype 'k rec_store = Set_key nat 'k | Set_ptr nat ptr

fun do_store :: "'k rec_store \<Rightarrow> ('k \<times> ptr) list \<Rightarrow> ('k \<times> ptr) list option" where
  "do_store (Set_key i k) rs = wr_key rs i k"
| "do_store (Set_ptr i t) rs = wr_ptr rs i t"

fun do_stores :: "'k rec_store list \<Rightarrow> ('k \<times> ptr) list \<Rightarrow> ('k \<times> ptr) list option" where
  "do_stores [] rs = Some rs"
| "do_stores (s # ss) rs = do { rs' \<leftarrow> do_store s rs; do_stores ss rs' }"

text \<open>The stores of the shift loop. It reads a record before it stores to it or below it.\<close>

fun shift_stores :: "('k::linorder) \<Rightarrow> ptr \<Rightarrow> nat \<Rightarrow> ('k \<times> ptr) list \<Rightarrow> (bool \<times> 'k rec_store list) option" where
  "shift_stores key v 0 rs = Some (False, [])"
| "shift_stores key v (Suc i) rs =
     do { e \<leftarrow> rd rs i;
          if key < fst e
          then do { (inserted, ss) \<leftarrow> shift_stores key v i rs;
                    Some (inserted, Set_ptr (i + 1) (snd e) # Set_key (i + 1) (fst e) # ss) }
          else Some (True, [Set_ptr (i + 1) (snd e), Set_key (i + 1) key, Set_ptr (i + 1) v]) }"

definition insert_stores :: "('k::linorder) \<Rightarrow> ptr \<Rightarrow> nat \<Rightarrow> 'k page \<Rightarrow> 'k rec_store list option" where
  "insert_stores key v num_entries pg =
     (if num_entries = 0 then Some [Set_key 0 key, Set_ptr 0 v, Set_ptr 1 0]
      else do {
        e \<leftarrow> rd (records pg) num_entries;
        (inserted, ss) \<leftarrow> shift_stores key v num_entries (records pg);
        Some (Set_ptr (num_entries + 1) (snd e) # ss @
          (if inserted then [] else [Set_ptr 0 (leftmost_ptr (hdr pg)), Set_key 0 key, Set_ptr 0 v])) })"

text \<open>The record arrays a reader can meet: between two stores, or in the middle of storing a key.\<close>

inductive snapshot :: "('k \<times> ptr) list \<Rightarrow> 'k rec_store list \<Rightarrow> ('k \<times> ptr) list \<Rightarrow> bool" where
  now: "snapshot rs ss rs"
| torn: "wr_key rs i k' = Some rs' \<Longrightarrow> snapshot rs (Set_key i k # ss) rs'"
| later: "do_store s rs = Some rs1 \<Longrightarrow> snapshot rs1 ss rs' \<Longrightarrow> snapshot rs (s # ss) rs'"

inductive_cases snapshot_NilE: "snapshot rs [] rs'"
inductive_cases snapshot_keyE: "snapshot rs (Set_key i k # ss) rs'"
inductive_cases snapshot_ptrE: "snapshot rs (Set_ptr i t # ss) rs'"

section \<open>The records a search takes for valid\<close>

text \<open>
  A record counts unless its pointer repeats the one before it; a null pointer ends the array. Before
  the first record stands the leftmost pointer.
\<close>

fun live :: "ptr \<Rightarrow> ('k \<times> ptr) list \<Rightarrow> ('k \<times> ptr) list" where
  "live q [] = []"
| "live q ((k, t) # rs) = (if t = 0 then [] else if t = q then live t rs else (k, t) # live t rs)"

fun live_page :: "ptr \<Rightarrow> ('k \<times> ptr) list \<Rightarrow> ('k \<times> ptr) list" where
  "live_page lm [] = []"
| "live_page lm ((k, t) # rs) = (if t = lm then live t rs else (k, t) # live t rs)"

text \<open>The child an internal page gives for a key.\<close>

fun child_of :: "ptr \<Rightarrow> ('k::linorder) \<Rightarrow> ('k \<times> ptr) list \<Rightarrow> ptr" where
  "child_of q key [] = q"
| "child_of q key ((k, t) # es) = (if key < k then q else child_of t key es)"

definition sentinel :: "('k \<times> ptr) list \<Rightarrow> bool" where
  "sentinel rs \<longleftrightarrow> (\<exists>j. 0 < j \<and> j < length rs \<and> snd (rs ! j) = 0)"

lemma leaf_loop_live:
  assumes "1 \<le> i" "i \<le> j" "j < length rs" "snd (rs ! j) = 0"
  shows "leaf_loop_fwd key rs i = Some (first_ptr (live (snd (rs ! (i - 1))) (drop i rs)) key)"
  using assms
proof (induction "j - i" arbitrary: i)
  case 0
  then have "i = j" by simp
  then show ?case using "0.prems"
    by (subst leaf_loop_fwd.simps) (auto simp: access_simps first_ptr_def simp flip: Cons_nth_drop_Suc split: prod.splits)
next
  case (Suc m)
  obtain k t where e: "rs ! i = (k, t)" by (cases "rs ! i") auto
  have d: "drop i rs = (k, t) # drop (i + 1) rs" using Suc.prems e by (simp flip: Cons_nth_drop_Suc)
  have IH: "leaf_loop_fwd key rs (i + 1) = Some (first_ptr (live t (drop (i + 1) rs)) key)" 
    using Suc.hyps(1) [of "i + 1"] Suc.hyps(2) Suc.prems e by simp
  show ?case using IH Suc.prems e
    by (subst leaf_loop_fwd.simps) (simp add: access_simps d first_ptr_def)
qed

lemma int_loop_live:
  assumes "1 \<le> i" "i \<le> j" "j < length rs" "snd (rs ! j) = 0"
  shows "int_loop_fwd key rs i = Some (child_of (snd (rs ! (i - 1))) key (live (snd (rs ! (i - 1))) (drop i rs)))"
  using assms
proof (induction "j - i" arbitrary: i)
  case 0
  then have "i = j" by simp
  then show ?case using "0.prems"
    by (subst int_loop_fwd.simps) (auto simp: access_simps simp flip: Cons_nth_drop_Suc split: prod.splits)
next
  case (Suc m)
  obtain k t where e: "rs ! i = (k, t)" by (cases "rs ! i") auto
  have d: "drop i rs = (k, t) # drop (i + 1) rs" using Suc.prems e by (simp flip: Cons_nth_drop_Suc)
  have IH: "int_loop_fwd key rs (i + 1) = Some (child_of t key (live t (drop (i + 1) rs)))"
    using Suc.hyps(1) [of "i + 1"] Suc.hyps(2) Suc.prems e by simp
  show ?case using IH Suc.prems e
    by (subst int_loop_fwd.simps) (simp add: access_simps d)
qed

lemma leaf_search_live: "sentinel rs \<Longrightarrow> leaf_search_fwd key rs = Some (first_ptr (live_page 0 rs) key)"
proof -
  assume "sentinel rs"
  then obtain j where j: "0 < j" "j < length rs" "snd (rs ! j) = 0" by (auto simp: sentinel_def)
  then obtain k t r where rs: "rs = (k, t) # r" by (cases rs) auto
  show ?thesis using leaf_loop_live [of 1 j rs key] j
    by (simp add: leaf_search_fwd_def access_simps rs first_ptr_def)
qed

lemma int_search_live: "sentinel rs \<Longrightarrow> int_search_fwd lm key rs = Some (child_of lm key (live_page lm rs))"
proof -
  assume "sentinel rs"
  then obtain j where j: "0 < j" "j < length rs" "snd (rs ! j) = 0" by (auto simp: sentinel_def)
  then obtain k t r where rs: "rs = (k, t) # r" by (cases rs) auto
  show ?thesis using int_loop_live [of 1 j rs key] j
    by (simp add: int_search_fwd_def access_simps rs)
qed

text \<open>A search of a page that scans forward sees the live records only.\<close>

lemma linear_search_live:
  assumes "sentinel rs" "sentinel rs'" "live_page (leftmost_ptr h) rs = live_page (leftmost_ptr h) rs'" "IS_FORWARD (switch_counter h)"
    and "leftmost_ptr h' = leftmost_ptr h" "sibling_ptr h' = sibling_ptr h" "IS_FORWARD (switch_counter h')"
  shows "linear_search H \<lparr>hdr = h, records = rs\<rparr> k = linear_search H \<lparr>hdr = h', records = rs'\<rparr> k"
proof (cases "leftmost_ptr h = 0")
  case True
  have "leaf_search_fwd k rs = leaf_search_fwd k rs'"
    using leaf_search_live [OF assms(1), of k] leaf_search_live [OF assms(2), of k] assms(3) True by simp
  then show ?thesis using assms(4,7) True unfolding linear_search_def Let_def page.simps assms(5,6) by simp
next
  case False
  have "int_search_fwd (leftmost_ptr h) k rs = int_search_fwd (leftmost_ptr h) k rs'"
    using int_search_live [OF assms(1), of _ k] int_search_live [OF assms(2), of _ k] assms(3) by simp
  then show ?thesis using assms(4,7) False unfolding linear_search_def Let_def page.simps assms(5,6) by simp
qed

section \<open>Every snapshot shows the records before or after the insert\<close>

lemma live_append:
  "\<forall>e \<in> set xs. snd e \<noteq> 0 \<Longrightarrow> distinct (q # map snd xs) \<Longrightarrow> live q (xs @ rs) = xs @ live (last (q # map snd xs)) rs"
proof (induction xs arbitrary: q)
  case (Cons x xs)
  obtain k t where x: "x = (k, t)" by (cases x) auto
  show ?case using Cons.IH [of t] Cons.prems by (auto simp: x)
qed simp

lemma live_page_append:
  assumes "\<forall>e \<in> set xs. snd e \<noteq> 0" "distinct (q # map snd xs)" "xs \<noteq> []"
  shows "live_page q (xs @ rs) = xs @ live (snd (last xs)) rs"
proof -
  obtain k t ys where x: "xs = (k, t) # ys" using assms(3) by (cases xs) auto
  have "live t (ys @ rs) = ys @ live (last (t # map snd ys)) rs" using assms live_append [of ys t rs] by (auto simp: x)
  moreover have "last (t # map snd ys) = snd (last xs)" by (simp add: x last_map)
  ultimately show ?thesis using assms(2) by (auto simp: x)
qed

text \<open>
  The array during the shift: the records below, the slot the loop is about to fill, the records
  already moved, the new end. Only what the slot's pointer repeats or brings in decides what is live.
\<close>

definition shifting :: "ptr \<Rightarrow> ptr \<Rightarrow> ('k \<times> ptr) list \<Rightarrow> ('k \<times> ptr) list \<Rightarrow> bool" where
  "shifting lm v as bs \<longleftrightarrow> (\<forall>e \<in> set (as @ bs). snd e \<noteq> 0) \<and> v \<noteq> 0 \<and> distinct (lm # v # map snd (as @ bs)) \<and> as @ bs \<noteq> []"

lemma live_shifting:
  assumes "shifting lm v as bs"
  shows "as \<noteq> [] \<Longrightarrow> live_page lm (as @ (g, snd (last as)) # bs @ (w, 0) # ys) = as @ bs"
    and "as = [] \<Longrightarrow> live_page lm (as @ (g, lm) # bs @ (w, 0) # ys) = bs"
    and "bs \<noteq> [] \<Longrightarrow> live_page lm (as @ hd bs # bs @ (w, 0) # ys) = as @ bs"
    and "live_page lm (as @ (g, v) # bs @ (w, 0) # ys) = as @ (g, v) # bs"
    and "as \<noteq> [] \<Longrightarrow> live_page lm (as @ (g, 0) # zs) = as"
proof -
  have nz: "\<forall>e \<in> set as. snd e \<noteq> 0" "\<forall>e \<in> set bs. snd e \<noteq> 0" "v \<noteq> 0" using assms by (auto simp: shifting_def)
  have ds: "distinct (lm # map snd as)" "distinct (q # map snd bs)" if "q \<in> set (lm # v # map snd as)" for q
    using assms that by (auto simp: shifting_def)
  have lb: "live q (bs @ (w, 0) # ys) = bs" if "q \<in> set (lm # v # map snd as)" for q
    using live_append [OF nz(2) ds(2) [OF that], of "(w, 0) # ys"] by simp
  note la = live_page_append [OF nz(1) ds(1)]
  show "live_page lm (as @ (g, snd (last as)) # bs @ (w, 0) # ys) = as @ bs" if "as \<noteq> []"
    using la [OF _ that, of lm] lb [of "snd (last as)"] that nz(1) by simp
  show "live_page lm (as @ (g, lm) # bs @ (w, 0) # ys) = bs" if "as = []"
    using lb [of lm] that by simp
  show "live_page lm (as @ (g, v) # bs @ (w, 0) # ys) = as @ (g, v) # bs"
  proof (cases "as = []")
    case True
    then show ?thesis using lb [of v] assms by (auto simp: shifting_def)
  next
    case False
    have "v \<noteq> snd (last as)" using assms False by (auto simp: shifting_def)
    then show ?thesis using la [OF _ False, of lm] lb [of v] nz(3) by simp
  qed
  show "live_page lm (as @ (g, 0) # zs) = as" if "as \<noteq> []"
    using la [OF _ that, of lm] by simp
  show "live_page lm (as @ hd bs # bs @ (w, 0) # ys) = as @ bs" if b: "bs \<noteq> []"
  proof -
    obtain k t cs where bs: "bs = (k, t) # cs" using b by (cases bs) auto
    have t: "t \<noteq> 0" "t \<noteq> lm" "t \<notin> snd ` set as" "distinct (t # map snd cs)" "\<forall>e \<in> set cs. snd e \<noteq> 0"
      using assms by (auto simp: shifting_def bs)
    have c: "live t (bs @ (w, 0) # ys) = cs" using live_append [OF t(5,4), of "(w, 0) # ys"] t(1) by (simp add: bs)
    show ?thesis
    proof (cases "as = []")
      case True
      then show ?thesis using c t by (simp add: bs)
    next
      case False
      have "t \<noteq> snd (last as)" using t(3) False by force
      then show ?thesis using la [OF _ False, of lm] c t(1) by (simp add: bs)
    qed
  qed
qed

lemma snapshot_key:
  assumes "snapshot rs (Set_key i k # ss) rs'" "i < length rs"
  shows "(\<exists>k'. rs' = rs[i := (k', snd (rs ! i))]) \<or> snapshot (rs[i := (k, snd (rs ! i))]) ss rs'"
  using assms(1)
  by (cases rule: snapshot_keyE) (use assms(2) in \<open>auto simp: access_simps intro: exI [of _ "fst (rs ! i)"]\<close>)

lemma snapshot_ptr:
  assumes "snapshot rs (Set_ptr i t # ss) rs'" "i < length rs"
  shows "rs' = rs \<or> snapshot (rs[i := (fst (rs ! i), t)]) ss rs'"
  using assms(1) by (cases rule: snapshot_ptrE) (use assms(2) in \<open>auto simp: access_simps\<close>)

lemma snapshot_pair:
  assumes "snapshot rs (Set_ptr i a # Set_key i k # ss) rs'" "i < length rs"
  shows "rs' = rs \<or> (\<exists>k'. rs' = rs[i := (k', a)]) \<or> snapshot (rs[i := (k, a)]) ss rs'"
  using snapshot_ptr [OF assms] snapshot_key [of "rs[i := (fst (rs ! i), a)]" i k ss rs'] assms(2) by auto

lemma snapshot_put:
  assumes "snapshot rs [Set_ptr i a, Set_key i k, Set_ptr i v] rs'" "i < length rs"
  shows "rs' = rs \<or> (\<exists>k'. rs' = rs[i := (k', a)]) \<or> rs' = rs[i := (k, v)]"
proof -
  have "rs' = rs[i := (k, a)] \<or> rs' = rs[i := (k, v)]" if "snapshot (rs[i := (k, a)]) [Set_ptr i v] rs'"
    using that by (cases rule: snapshot_ptrE) (use assms(2) in \<open>auto simp: access_simps elim: snapshot_NilE\<close>)
  then show ?thesis using snapshot_pair [OF assms] by blast
qed

definition keeps_shape :: "nat \<Rightarrow> 'k \<Rightarrow> ('k \<times> ptr) list \<Rightarrow> ('k \<times> ptr) list \<Rightarrow> bool" where
  "keeps_shape n w ys rs \<longleftrightarrow> (\<exists>cs. length cs = n \<and> rs = cs @ (w, 0) # ys)"

lemma shift_snapshots:
  assumes "shifting lm v as bs" "sorted_keys (as @ bs)" "\<forall>e \<in> set bs. key < fst e"
    and "if bs = [] then snd g = 0 else g = hd bs" "take (length as) rs0 = as"
    and "shift_stores key v (length as) rs0 = Some (f, ss)"
    and "snapshot (as @ g # bs @ (w, 0) # ys) (ss @ (if f then [] else [Set_ptr 0 lm, Set_key 0 key, Set_ptr 0 v])) rs'"
  shows "keeps_shape (length (as @ bs) + 1) w ys rs' \<and>
    (live_page lm rs' = as @ bs \<or> live_page lm rs' = ins_after key v (as @ bs))"
  using assms
proof (induction as arbitrary: bs g ss rule: rev_induct)
  case Nil
  let ?rs = "g # bs @ (w, 0) # ys"
  have "\<not> f" "ss = []" using Nil.prems(6) by auto
  then have "rs' = ?rs \<or> (\<exists>k'. rs' = ?rs[0 := (k', lm)]) \<or> rs' = ?rs[0 := (key, v)]"
    using Nil.prems(7) snapshot_put [of ?rs 0 lm key v rs'] by simp
  moreover have b: "bs \<noteq> []" "g = hd bs" using Nil.prems(1,4) by (auto simp: shifting_def)
  moreover note live_shifting [OF Nil.prems(1)] ins_after_front [OF Nil.prems(3)]
  ultimately show ?case by (auto simp: keeps_shape_def intro: exI [of _ "_ # bs"])
next
  case (snoc e as)
  let ?as = "as @ [e]" and ?i = "length as + 1"
  let ?rs = "?as @ g # bs @ (w, 0) # ys"
  obtain ka pa where e: "e = (ka, pa)" by (cases e) auto
  have r0: "rd rs0 (length as) = Some e" "take (length as) rs0 = as"
    using snoc.prems(5) by (auto simp: rd_def list_eq_iff_nth_eq nth_append split: if_splits) 
  have i: "?i < length ?rs" "?rs[?i := x] = ?as @ x # bs @ (w, 0) # ys" for x
    by (simp_all add: list_update_append)
  have now: "live_page lm ?rs = ?as @ bs"
    using live_shifting(3,5) [OF snoc.prems(1)] snoc.prems(4) by (cases "bs = []"; cases g) auto
  have dup: "live_page lm (?rs[?i := (k', pa)]) = ?as @ bs" for k'
    using live_shifting(1) [OF snoc.prems(1), of k' w ys] unfolding i by (simp add: e)
  have shape: "keeps_shape (length (?as @ bs) + 1) w ys (?as @ x # bs @ (w, 0) # ys)" for x
    unfolding keeps_shape_def by (rule exI [of _ "?as @ x # bs"]) simp
  show ?case
  proof (cases "key < ka")
    case True
    obtain ss1 where ss: "shift_stores key v (length as) rs0 = Some (f, ss1)" "ss = Set_ptr ?i pa # Set_key ?i ka # ss1"
      using snoc.prems(6) r0(1) True by (auto simp: e split: Option.bind_splits)
    consider "rs' = ?rs" | k' where "rs' = ?rs[?i := (k', pa)]"
      | "snapshot (?rs[?i := (ka, pa)]) (ss1 @ (if f then [] else [Set_ptr 0 lm, Set_key 0 key, Set_ptr 0 v])) rs'"
      using snapshot_pair [of ?rs ?i pa ka _ rs'] snoc.prems(7) i(1) by (auto simp: ss(2))
    then show ?thesis
    proof cases
      case 1
      then show ?thesis using now shape i by (cases g) auto
    next
      case 2
      then show ?thesis using dup shape i by auto
    next
      case 3
      have "shifting lm v as (e # bs)" "sorted_keys (as @ e # bs)" using snoc.prems(1,2) by (auto simp: shifting_def)
      moreover have "snapshot (as @ e # (e # bs) @ (w, 0) # ys) (ss1 @ (if f then [] else [Set_ptr 0 lm, Set_key 0 key, Set_ptr 0 v])) rs'"
        using 3 unfolding i by (simp add: e)
      ultimately show ?thesis using snoc.IH [of "e # bs" e ss1] snoc.prems(3) True ss(1) r0(2) by (simp add: e)
    qed
  next
    case False
    have ss: "f" "ss = [Set_ptr ?i pa, Set_key ?i key, Set_ptr ?i v]" using snoc.prems(6) r0(1) False by (auto simp: e)
    have le: "\<forall>x \<in> set ?as. fst x \<le> key" using snoc.prems(2) False by (auto simp: sorted_append e)
    have new: "live_page lm (?rs[?i := (key, v)]) = ins_after key v (?as @ bs)"
      using live_shifting(4) [OF snoc.prems(1), of key w ys] ins_after_split [OF le snoc.prems(3), of v] unfolding i by simp
    have "rs' = ?rs \<or> (\<exists>k'. rs' = ?rs[?i := (k', pa)]) \<or> rs' = ?rs[?i := (key, v)]"
      using snapshot_put [of ?rs ?i pa key v rs'] snoc.prems(7) i(1) ss by simp
    then show ?thesis using now dup new shape i by (cases g) auto
  qed
qed

section \<open>The whole insert\<close>

text \<open>Done one after the other, the stores make what \<open>insert_key\<close> makes.\<close>

lemma do_stores_append: "do_stores (xs @ ys) rs = do { rs' \<leftarrow> do_stores xs rs; do_stores ys rs' }"
  by (induction xs arbitrary: rs) (auto split: Option.bind_splits)

lemma shift_loop_stores:
  assumes "\<forall>j < i. rd rs j = rd rs0 j"
  shows "shift_loop key v i rs =
    do { (inserted, ss) \<leftarrow> shift_stores key v i rs0; rs' \<leftarrow> do_stores ss rs; Some (inserted, rs') }"
  using assms
proof (induction i arbitrary: rs)
  case (Suc i)
  have e: "rd rs i = rd rs0 i" using Suc.prems by simp
  have low: "rd rs2 j = rd rs0 j" if "wr_ptr rs (i + 1) t = Some rs1" "wr_key rs1 (i + 1) k = Some rs2" "j < i" for t k rs1 rs2 j
    using that Suc.prems by (auto simp: wr_ptr_def wr_key_def rd_def wr_def split: if_splits)
  have IH: "shift_loop key v i rs2 = do { (inserted, ss) \<leftarrow> shift_stores key v i rs0; rs' \<leftarrow> do_stores ss rs2; Some (inserted, rs') }"
    if "wr_ptr rs (i + 1) t = Some rs1" "wr_key rs1 (i + 1) k = Some rs2" for t k rs1 rs2
    by (rule Suc.IH) (use low [OF that] in blast)
  show ?case
    using e IH by (auto split: Option.bind_splits prod.splits)
qed simp

lemma insert_key_stores:
  "insert_key key v n True pg =
     do { ss \<leftarrow> insert_stores key v n pg;
          rs \<leftarrow> do_stores ss (records pg);
          Some (pg\<lparr>hdr := (let h = (if \<not> IS_FORWARD (switch_counter (hdr pg))
                              then (hdr pg)\<lparr>switch_counter := switch_counter (hdr pg) + 1\<rparr> else hdr pg)
                       in h\<lparr>last_index := int n\<rparr>), records := rs\<rparr>, n + 1) }"
proof (cases "n = 0")
  case True
  then show ?thesis by (auto simp: insert_key_def insert_stores_def wr_key_def wr_ptr_def Let_def rd_def wr_def)
next
  case False
  have loop: "wr_ptr (records pg) (n + 1) t = Some rs1 \<Longrightarrow> shift_loop key v n rs1 =
      do { (inserted, ss) \<leftarrow> shift_stores key v n (records pg); rs' \<leftarrow> do_stores ss rs1; Some (inserted, rs') }" for t rs1
    by (rule shift_loop_stores) (auto simp: wr_ptr_def rd_def wr_def split: if_splits)
  show ?thesis
    using False by (auto simp: insert_key_def insert_stores_def Let_def do_stores_append loop split: Option.bind_splits)
qed

lemma page_live:
  assumes "page_ok pg" "distinct (lm # map snd (entries pg))" "entries pg = [] \<longrightarrow> lm = 0"
  shows "live_page lm (records pg) = entries pg \<and> sentinel (records pg)"
proof -
  obtain z zs where rs: "records pg = entries pg @ z # zs" "snd z = 0" by (rule page_split [OF assms(1)])
  show ?thesis
  proof (cases "entries pg = []")
    case True
    have l: "length (records pg) = 6" "snd (records pg ! 1) = 0" using assms(1) True by (auto simp: page_ok_def)
    then obtain y ys where zs: "zs = y # ys" using rs(1) True by (cases zs) auto
    have "live_page lm (records pg) = []" using rs zs l(2) True assms(3) by (cases z; cases y) auto
    moreover have "sentinel (records pg)" unfolding sentinel_def using l by (intro exI [of _ 1]) simp
    ultimately show ?thesis using True by simp
  next
    case False
    have "live_page lm (records pg) = entries pg @ live (snd (last (entries pg))) (z # zs)"
      unfolding rs(1) by (rule live_page_append [OF _ assms(2) False]) (use entries_nonnull in blast)
    moreover have "live q (z # zs) = []" for q using rs(2) by (cases z) simp
    moreover have "sentinel (records pg)" unfolding sentinel_def rs(1) using False rs(2)
      by (intro exI [of _ "length (entries pg)"]) simp
    ultimately show ?thesis by simp
  qed
qed

lemma shape_sentinel: "keeps_shape n w ys rs \<Longrightarrow> 0 < n \<Longrightarrow> sentinel rs"
  by (auto simp: keeps_shape_def sentinel_def nth_append intro: exI [of _ n])

lemma insert_snapshots:
  assumes ok: "page_ok pg" and room: "length (entries pg) + 1 < cardinality" and v: "v \<noteq> 0"
    and ds: "distinct (leftmost_ptr (hdr pg) # v # map snd (entries pg))" and lm: "entries pg = [] \<longrightarrow> leftmost_ptr (hdr pg) = 0"
    and st: "insert_stores key v (length (entries pg)) pg = Some ss" and sn: "snapshot (records pg) ss rs'"
  shows "sentinel rs' \<and> (live_page (leftmost_ptr (hdr pg)) rs' = entries pg \<or>
    live_page (leftmost_ptr (hdr pg)) rs' = ins_after key v (entries pg))"
proof -
  let ?xs = "entries pg" and ?lm = "leftmost_ptr (hdr pg)"
  obtain z zs where rs: "records pg = ?xs @ z # zs" "snd z = 0" by (rule page_split [OF ok])
  have len: "length (records pg) = 6" using ok by (simp add: page_ok_def)
  then obtain y ys where zs: "zs = y # ys" using rs(1) room by (cases zs) auto
  have now: "live_page ?lm (records pg) = ?xs" "sentinel (records pg)" using page_live [OF ok, of ?lm] ds lm by auto
  show ?thesis
  proof (cases "?xs = []")
    case True
    then have y: "snd y = 0" "?lm = 0" using ok rs zs lm by (auto simp: page_ok_def)
    have s: "sentinel (x # y # ys)" for x unfolding sentinel_def using y by (intro exI [of _ 1]) simp
    have l: "live_page 0 ((k', 0) # y # ys) = []" "live_page 0 ((k', v) # y # ys) = [(k', v)]" for k'
      using y(1) v by (cases y; simp)+
    have "ss = [Set_key 0 key, Set_ptr 0 v, Set_ptr 1 0]" using st True by (simp add: insert_stores_def)
    then have "(\<exists>k'. rs' = (k', 0) # y # ys) \<or> rs' = (key, v) # y # ys"
      using sn rs zs True y by (cases z; cases y)
        (auto simp: wr_key_def wr_ptr_def rd_def wr_def elim!: snapshot_keyE snapshot_ptrE snapshot_NilE)
    then show ?thesis using l s True y by (auto simp: ins_after_Nil)
  next
    case False
    have e: "rd (records pg) (length ?xs) = Some z" using rs by (simp add: rd_def nth_append)
    obtain f ss1 where ss: "shift_stores key v (length ?xs) (records pg) = Some (f, ss1)"
      "ss = Set_ptr (length ?xs + 1) 0 # ss1 @ (if f then [] else [Set_ptr 0 ?lm, Set_key 0 key, Set_ptr 0 v])"
      using st False e rs(2) by (auto simp: insert_stores_def split: Option.bind_splits)
    have w: "wr_ptr (records pg) (length ?xs + 1) 0 = Some (?xs @ z # [] @ (fst y, 0) # ys)"
      using rs zs by (simp add: access_simps nth_append list_update_append)
    have "rs' = records pg \<or> snapshot (?xs @ z # [] @ (fst y, 0) # ys) (ss1 @ (if f then [] else [Set_ptr 0 ?lm, Set_key 0 key, Set_ptr 0 v])) rs'"
      using sn w unfolding ss(2) by (auto elim: snapshot_ptrE)
    moreover have sh: "shifting ?lm v ?xs []" using False v ds by (auto simp: shifting_def dest: entries_nonnull)
    have srt: "sorted_keys (?xs @ [])" using ok by (simp add: page_ok_def)
    have "keeps_shape (length (?xs @ []) + 1) (fst y) ys rs' \<and> (live_page ?lm rs' = ?xs @ [] \<or> live_page ?lm rs' = ins_after key v (?xs @ []))"
      if "snapshot (?xs @ z # [] @ (fst y, 0) # ys) (ss1 @ (if f then [] else [Set_ptr 0 ?lm, Set_key 0 key, Set_ptr 0 v])) rs'"
      by (rule shift_snapshots [OF sh srt _ _ take_entries ss(1) that]) (use rs in auto)
    ultimately show ?thesis using now shape_sentinel by fastforce
  qed
qed


text \<open>The second record is being moved up, and its old key is half overwritten.\<close>

definition two_records :: "int page" where
  "two_records = \<lparr>hdr = \<lparr>leftmost_ptr = 0, sibling_ptr = 0, level = 0, switch_counter = 0, is_deleted = False, last_index = 1\<rparr>,
     records = [(10, 1), (20, 2), (0, 0), (0, 0), (0, 0), (0, 0)]\<rparr>"

lemma two_records_entries: "entries two_records = [(10, 1), (20, 2)]"
  by (simp add: entries_def two_records_def)

lemma two_records_length: "length (entries two_records) = 2"
  unfolding two_records_entries by simp

lemma two_records_ok: "page_ok two_records"
  by (simp add: page_ok_def two_records_entries) (simp add: two_records_def IS_FORWARD_def)

lemma two_records_torn:
  "snapshot (records two_records)
     [Set_ptr 3 0, Set_ptr 2 2, Set_key 2 20, Set_ptr 1 1, Set_key 1 15, Set_ptr (Suc 0) 3]
     [(10, 1), (99, 1), (20, 2), (0, 0), (0, 0), (0, 0)]"
  unfolding two_records_def page.simps
  by (rule snapshot.later, simp add: access_simps, rule snapshot.later, simp add: access_simps,
      rule snapshot.later, simp add: access_simps, rule snapshot.later, simp add: access_simps,
      rule snapshot.torn [where k' = 99], simp add: access_simps)


end
