(* ===== verification/KV_Removing.thy ===== *)
theory KV_Removing
  imports KV_Snapshot KV_Remove
begin

text \<open>
  What a reader sees of a leaf while \<open>remove_key\<close> of \<open>bufferevent_single/Hikv/obj/btree.h\<close> runs: the
  removal first turns the scan direction of the page, then makes the record repeat the pointer before
  it and moves the records above it down by single stores ("FAIR").
\<close>

section \<open>The stores of a removal\<close>

function remove_stores :: "ptr \<Rightarrow> 'k \<Rightarrow> nat \<Rightarrow> bool \<Rightarrow> ('k \<times> ptr) list \<Rightarrow> (bool \<times> 'k rec_store list) option" where
  "remove_stores lm key i shift rs =
     (case rd rs i of
        None \<Rightarrow> None
      | Some e \<Rightarrow>
          if snd e = 0 then Some (shift, [])
          else (let hit = (\<not> shift \<and> fst e = key);
                    q = (if i = 0 then lm else snd (rs ! (i - 1)));
                    rs1 = (if hit then rs[i := (fst e, q)] else rs)
                in if shift \<or> hit
                   then (case rd rs1 (i + 1) of
                           None \<Rightarrow> None
                         | Some n \<Rightarrow>
                             do { (f, ss) \<leftarrow> remove_stores lm key (i + 1) True (rs1[i := n]);
                                  Some (f, (if hit then [Set_ptr i q] else []) @ Set_key i (fst n) # Set_ptr i (snd n) # ss) })
                   else remove_stores lm key (i + 1) False rs1))"
  by pat_completeness auto
termination
  by (relation "measure (\<lambda>(lm, key, i, shift, rs). length rs - i)")
     (auto simp: rd_def split: if_splits)

declare remove_stores.simps [simp del]

text \<open>The header as the removal leaves it before it touches the records.\<close>

definition turned :: "'k page \<Rightarrow> 'k page" where
  "turned pg = pg\<lparr>hdr := (if IS_FORWARD (switch_counter (hdr pg))
     then (hdr pg)\<lparr>switch_counter := switch_counter (hdr pg) + 1\<rparr> else hdr pg)\<rparr>"

text \<open>Done one after the other, the stores make what \<open>remove_key\<close> makes.\<close>

lemma remove_loop_stores:
  "remove_loop lm key i shift rs =
     do { (f, ss) \<leftarrow> remove_stores lm key i shift rs; rs' \<leftarrow> do_stores ss rs; Some (f, rs') }"
proof (induction lm key i shift rs rule: remove_loop.induct)
  case (1 lm key i shift rs)
  show ?case
  proof (cases "rd rs i")
    case None
    then show ?thesis by (subst remove_loop.simps, subst remove_stores.simps) simp
  next
    case (Some e)
    then have i: "i < length rs" "rs ! i = e" by (auto simp: rd_def split: if_splits)
    define hit where "hit = (\<not> shift \<and> fst e = key)"
    define q where "q = (if i = 0 then lm else snd (rs ! (i - 1)))"
    define rs1 where "rs1 = (if hit then rs[i := (fst e, q)] else rs)"
    define pre where "pre = (if hit then [Set_ptr i q :: 'a rec_store] else [])"
    note IH = "1.IH" [OF Some _ hit_def, folded q_def, OF _ rs1_def]
    have loop: "remove_loop lm key i shift rs = (if snd e = 0 then Some (shift, rs) else if shift \<or> hit
        then (case rd rs1 (i + 1) of None \<Rightarrow> None | Some n \<Rightarrow> remove_loop lm key (i + 1) True (rs1[i := n]))
        else remove_loop lm key (i + 1) False rs1)"
      by (subst remove_loop.simps) (simp only: Some option.case Let_def hit_def rs1_def q_def)
    have stores: "remove_stores lm key i shift rs = (if snd e = 0 then Some (shift, []) else if shift \<or> hit
        then (case rd rs1 (i + 1) of None \<Rightarrow> None | Some n \<Rightarrow>
            do { (f, ss) \<leftarrow> remove_stores lm key (i + 1) True (rs1[i := n]);
                 Some (f, pre @ Set_key i (fst n) # Set_ptr i (snd n) # ss) })
        else remove_stores lm key (i + 1) False rs1)"
      by (subst remove_stores.simps) (simp only: Some option.case Let_def hit_def rs1_def q_def pre_def)
    have put: "do_stores (pre @ Set_key i k # Set_ptr i t # ss) rs = do_stores ss (rs1[i := (k, t)])" for k t ss
      using i by (simp add: rs1_def pre_def do_stores_append access_simps)
    show ?thesis
    proof (cases "snd e = 0")
      case True
      then show ?thesis unfolding loop stores by simp
    next
      case nz: False
      show ?thesis
      proof (cases "shift \<or> hit")
        case True
        then show ?thesis using nz IH(1) [OF nz True] unfolding loop stores
          by (auto simp: put simp del: do_stores.simps split: option.splits Option.bind_splits)
      next
        case False
        then have "rs1 = rs" by (simp add: rs1_def)
        then show ?thesis using nz False IH(2) [OF nz False] unfolding loop stores by simp
      qed
    qed
  qed
qed

section \<open>Reading from right to left\<close>

text \<open>The records a backward search takes for valid: null pointers are skipped.\<close>

fun valid :: "ptr \<Rightarrow> ('k \<times> ptr) list \<Rightarrow> ('k \<times> ptr) list" where
  "valid q [] = []"
| "valid q ((k, t) # rs) = (if t = q \<or> t = 0 then [] else [(k, t)]) @ valid t rs"

lemma valid_append: "valid q (xs @ ys) = valid q xs @ valid (last (q # map snd xs)) ys"
proof (induction xs arbitrary: q)
  case (Cons x xs)
  then show ?case by (cases x) auto
qed simp

lemma valid_distinct: "\<forall>e \<in> set xs. snd e \<noteq> 0 \<Longrightarrow> distinct (q # map snd xs) \<Longrightarrow> valid q xs = xs"
proof (induction xs arbitrary: q)
  case (Cons x xs)
  then show ?case by (cases x) auto
qed simp

lemma valid_nonnull: "\<forall>e \<in> set (valid q xs). snd e \<noteq> 0"
proof (induction xs arbitrary: q)
  case (Cons x xs)
  then show ?case by (cases x) auto
qed simp

lemma first_ptr_Cons: "snd e \<noteq> 0 \<Longrightarrow> first_ptr (e # xs) key = (if fst e = key then snd e else first_ptr xs key)"
  by (cases e) (simp add: first_ptr_def)

lemma leaf_loop_bwd_valid:
  assumes "i < length rs"
  shows "leaf_loop_bwd key rs i = Some (first_ptr (rev (valid (snd (rs ! 0)) (take i (tl rs)))) key)"
  using assms
proof (induction i)
  case 0
  then show ?case by (simp add: first_ptr_def)
next
  case (Suc i)
  obtain r rs' where rs: "rs = r # rs'" using Suc.prems by (cases rs) auto
  have i: "i < length rs'" using Suc.prems rs by simp
  have tk: "take (Suc i) rs' = take i rs' @ [rs' ! i]" using i by (simp add: take_Suc_conv_app_nth)
  have last: "last (snd r # map snd (take i rs')) = snd (rs ! i)"
    using i by (cases i) (auto simp: rs take_Suc_conv_app_nth)
  obtain k t where e: "rs' ! i = (k, t)" by (cases "rs' ! i") auto
  show ?case
    using Suc.IH Suc.prems i e last
    by (auto simp: rs access_simps tk valid_append first_ptr_Cons)
qed

lemma leaf_search_bwd_valid:
  assumes "0 < n" "n \<le> length rs"
  shows "leaf_search_bwd key n rs = Some (first_ptr (rev (valid 0 (take n rs))) key)"
proof -
  obtain k t rs' where rs: "rs = (k, t) # rs'" using assms by (cases rs) auto
  obtain m where n: "n = Suc m" using assms(1) by (cases n) auto
  let ?v = "valid t (take m rs')"
  have l: "leaf_loop_bwd key rs m = Some (first_ptr (rev ?v) key)" using leaf_loop_bwd_valid [of m rs key] assms(2) by (simp add: rs n)
  have z: "first_ptr (rev ?v) key = 0 \<longleftrightarrow> key \<notin> fst ` set (rev ?v)" by (rule first_ptr_eq_0) (use valid_nonnull [of t] in simp)
  have s: "first_ptr (rev ?v @ [(k, t)]) key = (if first_ptr (rev ?v) key = 0 \<and> k = key then t else first_ptr (rev ?v) key)"
    using z map_of_eq_None_iff [of "rev ?v" key] by (cases "map_of (rev ?v) key") (auto simp: first_ptr_def map_add_def)
  show ?thesis using l s by (auto simp: leaf_search_bwd_def n rs access_simps)
qed

section \<open>Every snapshot shows the records before or after the removal\<close>

lemma valid_moving:
  assumes "\<forall>e \<in> set (as @ bs). snd e \<noteq> 0" "distinct (q # map snd (as @ bs))" "t = last (q # map snd as) \<or> t = 0"
    and "t = 0 \<longrightarrow> bs = [] \<or> last (q # map snd as) = 0"
  shows "valid q (as @ (g, t) # bs) = as @ bs"
proof -
  have a: "valid q as = as" by (rule valid_distinct) (use assms(1,2) in auto)
  have "distinct (last (q # map snd as) # map snd bs)" using assms(2) by (cases as rule: rev_cases) auto
  then have "valid (last (q # map snd as)) bs = bs" by (rule valid_distinct [rotated]) (use assms(1) in simp)
  then have "valid t bs = bs" using assms(3,4) by (metis valid.simps(1))
  moreover have "valid q (as @ (g, t) # bs) = as @ valid t bs" using a assms(3) by (simp only: valid_append valid.simps) simp
  ultimately show ?thesis by simp
qed

lemma move_snapshots:
  assumes "\<forall>e \<in> set (as @ bs). snd e \<noteq> 0" "distinct (0 # map snd (as @ bs))" "snd g = last (0 # map snd as)" "snd z = 0"
    and "remove_stores lm key (length as + 1) True (as @ hd (bs @ [z]) # bs @ z # zs) = Some (f, ss)"
    and "snapshot (as @ g # bs @ z # zs) (Set_key (length as) (fst (hd (bs @ [z]))) # Set_ptr (length as) (snd (hd (bs @ [z]))) # ss) rs'"
  shows "\<exists>cs. length cs = length (as @ bs) + 1 \<and> rs' = cs @ z # zs \<and> valid 0 cs = as @ bs"
  using assms
proof (induction bs arbitrary: as g ss)
  case Nil
  have r: "rd (as @ z # z # zs) (length as + 1) = Some z" by (simp add: rd_def nth_append)
  have "ss = []" using Nil.prems(5) r Nil.prems(4) by (subst (asm) remove_stores.simps) simp
  then have "\<exists>k t. rs' = as @ (k, t) # z # zs \<and> (t = last (0 # map snd as) \<or> t = 0)"
    using Nil.prems(3,4,6)
    by (cases g; cases z) (auto simp: access_simps elim!: snapshot_keyE snapshot_ptrE snapshot_NilE)
  then obtain k t where t: "rs' = as @ (k, t) # z # zs" "t = last (0 # map snd as) \<or> t = 0" by blast
  have "valid 0 (as @ [(k, t)]) = as" using valid_moving [of as "[]" 0 t k] Nil.prems(1,2) t(2) by auto
  then show ?case using t(1) by (intro exI [of _ "as @ [(k, t)]"]) simp
next
  case (Cons b bs)
  let ?n = "hd (bs @ [z])" and ?i = "length as"
  obtain kb tb where b: "b = (kb, tb)" by (cases b) auto
  have nz: "tb \<noteq> 0" using Cons.prems(1) by (simp add: b)
  have r: "rd (as @ b # b # bs @ z # zs) (?i + 1) = Some b" "rd (as @ b # b # bs @ z # zs) (?i + 2) = Some ?n"
    by (cases bs; simp add: rd_def nth_append)+
  obtain ss1 where ss: "ss = Set_key (?i + 1) (fst ?n) # Set_ptr (?i + 1) (snd ?n) # ss1"
    "remove_stores lm key (?i + 2) True (as @ b # ?n # bs @ z # zs) = Some (f, ss1)"
    using Cons.prems(5) r nz
    by (subst (asm) remove_stores.simps) (auto simp: b Let_def list_update_append split: Option.bind_splits)
  have pre: "\<exists>cs. length cs = length (as @ b # bs) + 1 \<and> as @ (k, t) # b # bs @ z # zs = cs @ z # zs \<and> valid 0 cs = as @ b # bs"
    if "t = last (0 # map snd as)" for k t
    using valid_moving [of as "b # bs" 0 t k] Cons.prems(1,2) that by (intro exI [of _ "as @ (k, t) # b # bs"]) auto
  have after: "\<exists>cs. length cs = length (as @ b # bs) + 1 \<and> rs' = cs @ z # zs \<and> valid 0 cs = as @ b # bs"
    if "snapshot (as @ b # b # bs @ z # zs) ss rs'"
  proof -
    have "remove_stores lm key (length (as @ [b]) + 1) True ((as @ [b]) @ ?n # bs @ z # zs) = Some (f, ss1)" using ss(2) by simp
    moreover have "snapshot ((as @ [b]) @ b # bs @ z # zs) (Set_key (length (as @ [b])) (fst ?n) # Set_ptr (length (as @ [b])) (snd ?n) # ss1) rs'"
      using that unfolding ss(1) by simp
    moreover have "\<forall>e \<in> set ((as @ [b]) @ bs). snd e \<noteq> 0" "distinct (0 # map snd ((as @ [b]) @ bs))" "snd b = last (0 # map snd (as @ [b]))"
      using Cons.prems(1,2) by simp_all
    ultimately have "\<exists>cs. length cs = length ((as @ [b]) @ bs) + 1 \<and> rs' = cs @ z # zs \<and> valid 0 cs = (as @ [b]) @ bs"
      using Cons.IH [of "as @ [b]" b ss1] Cons.prems(4) by blast
    then show ?thesis by simp
  qed
  have s: "snapshot (as @ g # b # bs @ z # zs) (Set_key ?i kb # Set_ptr ?i tb # ss) rs'" using Cons.prems(6) by (simp add: b)
  have "(\<exists>k. rs' = as @ (k, snd g) # b # bs @ z # zs) \<or> snapshot (as @ (kb, snd g) # b # bs @ z # zs) (Set_ptr ?i tb # ss) rs'"
    using snapshot_key [OF s] by simp
  moreover have "rs' = as @ (kb, snd g) # b # bs @ z # zs \<or> snapshot (as @ b # b # bs @ z # zs) ss rs'"
    if "snapshot (as @ (kb, snd g) # b # bs @ z # zs) (Set_ptr ?i tb # ss) rs'"
    using snapshot_ptr [OF that] by (simp add: b)
  ultimately have "(\<exists>k. rs' = as @ (k, snd g) # b # bs @ z # zs) \<or> snapshot (as @ b # b # bs @ z # zs) ss rs'" by blast
  then show ?case using pre after Cons.prems(3) by blast
qed

lemma remove_stores_skip:
  assumes "\<forall>x \<in> set xs. snd x \<noteq> 0 \<and> fst x \<noteq> key"
  shows "remove_stores lm key (length as) False (as @ xs @ rest) = remove_stores lm key (length (as @ xs)) False (as @ xs @ rest)"
  using assms
proof (induction xs arbitrary: as)
  case (Cons x xs)
  have "rd (as @ (x # xs) @ rest) (length as) = Some x" by (simp add: rd_def)
  then have "remove_stores lm key (length as) False (as @ (x # xs) @ rest) = remove_stores lm key (length (as @ [x])) False ((as @ [x]) @ xs @ rest)"
    using Cons.prems by (subst remove_stores.simps) simp
  then show ?case using Cons.IH [of "as @ [x]"] Cons.prems by simp
qed simp

lemma removal_snapshots:
  assumes nz: "\<forall>x \<in> set (xs @ e # ys). snd x \<noteq> 0" and d: "distinct (map snd (xs @ e # ys))" and z: "snd z = 0"
    and k: "fst e = key" "key \<notin> fst ` set xs"
    and st: "remove_stores 0 key 0 False (xs @ e # ys @ z # zs) = Some (f, ss)"
    and sn: "snapshot (xs @ e # ys @ z # zs) ss rs'"
  shows "\<exists>cs. length cs = length (xs @ e # ys) \<and> rs' = cs @ z # zs \<and> (valid 0 cs = xs @ e # ys \<or> valid 0 cs = xs @ ys)"
proof -
  let ?i = "length xs" and ?n = "hd (ys @ [z])"
  let ?q = "last (0 # map snd xs)"
  have "0 \<notin> snd ` set (xs @ e # ys)" using nz by (metis (no_types, lifting) imageE)
  then have zz: "distinct (0 # map snd (xs @ e # ys))" using d by (metis distinct.simps(2) set_map)
  have r: "rd (xs @ e # ys @ z # zs) ?i = Some e" "rd (xs @ (fst e, ?q) # ys @ z # zs) (?i + 1) = Some ?n"
    by (cases ys; simp add: rd_def nth_append)+
  have q: "(if ?i = 0 then 0 else snd ((xs @ e # ys @ z # zs) ! (?i - 1))) = ?q"
    by (cases xs rule: rev_cases) (simp_all add: nth_append)
  have "remove_stores 0 key ?i False (xs @ e # ys @ z # zs) = Some (f, ss)"
    using st remove_stores_skip [of xs key 0 "[]" "e # ys @ z # zs"] nz k(2) by force
  then obtain ss1 where ss: "ss = Set_ptr ?i ?q # Set_key ?i (fst ?n) # Set_ptr ?i (snd ?n) # ss1"
    "remove_stores 0 key (?i + 1) True (xs @ ?n # ys @ z # zs) = Some (f, ss1)"
    using r nz k(1) q
    by (subst (asm) remove_stores.simps) (auto simp: Let_def split: Option.bind_splits simp del: last.simps)
  have "rs' = xs @ e # ys @ z # zs \<or>
      snapshot (xs @ (fst e, ?q) # ys @ z # zs) (Set_key ?i (fst ?n) # Set_ptr ?i (snd ?n) # ss1) rs'"
    using snapshot_ptr [of _ ?i ?q _ rs'] sn unfolding ss(1) by fastforce
  then show ?thesis
  proof
    assume "rs' = xs @ e # ys @ z # zs"
    then show ?thesis using valid_distinct [OF nz zz] by (intro exI [of _ "xs @ e # ys"]) simp
  next
    assume s: "snapshot (xs @ (fst e, ?q) # ys @ z # zs) (Set_key ?i (fst ?n) # Set_ptr ?i (snd ?n) # ss1) rs'"
    have "\<forall>x \<in> set (xs @ ys). snd x \<noteq> 0" "distinct (0 # map snd (xs @ ys))" using nz zz by auto
    then show ?thesis using move_snapshots [OF _ _ _ z ss(2) s] by fastforce
  qed
qed

lemma linear_search_bwd:
  assumes "leftmost_ptr (hdr p) = 0" "\<not> IS_FORWARD (switch_counter (hdr p))" "count_page p = Some n" "leaf_search_bwd k n (records p) = Some r"
    and "leftmost_ptr (hdr p') = 0" "\<not> IS_FORWARD (switch_counter (hdr p'))" "count_page p' = Some n'" "leaf_search_bwd k n' (records p') = Some r"
    and "sibling_ptr (hdr p) = sibling_ptr (hdr p')"
  shows "linear_search H p k = linear_search H p' k"
  unfolding linear_search_def Let_def assms(1,5,9) using assms(2-4,6-8) by simp

lemma count_snapshot:
  assumes "last_index h = int n - 1" "n < length rs" "snd (rs ! n) = 0" "\<not> IS_FORWARD (switch_counter h)"
  shows "count_page \<lparr>hdr = h, records = rs\<rparr> = Some n"
  using assms by (simp add: count_page_def) (simp add: scan_count.simps [of False rs "int n"] access_simps)

lemma remove_first_at: "fst e = key \<Longrightarrow> key \<notin> fst ` set xs \<Longrightarrow> remove_first key (xs @ e # ys) = xs @ ys"
  by (induction xs) auto

text \<open>A page read backwards whose records are \<open>cs\<close> before the end mark.\<close>

lemma turned_view:
  assumes "last_index h = int n - 1" "\<not> IS_FORWARD (switch_counter h)" "length cs = n" "snd z = 0" "0 < n"
  shows "count_page \<lparr>hdr = h, records = cs @ z # zs\<rparr> = Some n"
    "leaf_search_bwd k n (cs @ z # zs) = Some (first_ptr (rev (valid 0 cs)) k)"
  using nth_append_length [of cs z zs] count_snapshot [of h n "cs @ z # zs"] leaf_search_bwd_valid [of n "cs @ z # zs" k] assms by auto

lemma valid_entries:
  assumes "distinct (map snd (entries pg))"
  shows "valid 0 (entries pg) = entries pg"
proof (rule valid_distinct)
  show nz: "\<forall>e \<in> set (entries pg). snd e \<noteq> 0" using entries_nonnull by blast
  show "distinct (0 # map snd (entries pg))" using assms nz by force
qed

lemma removed_stores:
  assumes "leftmost_ptr (hdr pg) = 0" "remove_key key pg = Some (True, pg')"
  obtains ss where "remove_stores 0 key 0 False (records pg) = Some (True, ss)" "do_stores ss (records pg) = Some (records pg')"
    "hdr pg' = hdr (turned pg)\<lparr>last_index := last_index (hdr (turned pg)) - 1\<rparr>"
proof -
  have "hdr pg' = hdr (turned pg)\<lparr>last_index := last_index (hdr (turned pg)) - 1\<rparr>"
    using assms(2) by (auto simp: remove_key_def turned_def Let_def split: Option.bind_splits if_splits)
  then show ?thesis using assms remove_loop_stores [of 0 key 0 False "records pg"] that
    by (auto simp: remove_key_def Let_def split: Option.bind_splits if_splits)
qed

lemma removed_split:
  assumes "page_shape pg" "key \<in> fst ` set (entries pg)" "remove_key key pg = Some (True, pg')"
  obtains xs e ys where "entries pg = xs @ e # ys" "fst e = key" "key \<notin> fst ` set xs" "entries pg' = xs @ ys" "page_shape pg'"
proof -
  have rm: "entries pg' = remove_first key (entries pg)" "page_shape pg'"
    using remove_key_ok [OF assms(1), of key] assms(3) by auto
  obtain xs e ys where xs: "entries pg = xs @ e # ys" "fst e = key" "key \<notin> fst ` set xs"
    using assms(2) split_list_first_prop [of "entries pg" "\<lambda>e. fst e = key"] by fastforce
  then show ?thesis using that rm remove_first_at by metis
qed


text \<open>The record of 20 repeats the pointer before it, and its key is half overwritten.\<close>

definition three_records :: "int page" where
  "three_records = \<lparr>hdr = \<lparr>leftmost_ptr = 0, sibling_ptr = 0, level = 0, switch_counter = 0, is_deleted = False, last_index = 2\<rparr>,
     records = [(10, 1), (20, 2), (30, 3), (0, 0), (0, 0), (0, 0)]\<rparr>"

lemma three_records_entries: "entries three_records = [(10, 1), (20, 2), (30, 3)]"
  by (simp add: entries_def three_records_def)

lemma three_records_shape: "page_shape three_records" "leftmost_ptr (hdr three_records) = 0"
  "distinct (map snd (entries three_records))" "20 \<in> fst ` set (entries three_records)"
  by (simp_all add: page_shape_def three_records_entries) (simp_all add: three_records_def)

lemma three_records_torn:
  "snapshot (records three_records) [Set_ptr 1 1, Set_key 1 30, Set_ptr 1 3, Set_key 2 0, Set_ptr 2 0]
     [(10, 1), (99, 1), (30, 3), (0, 0), (0, 0), (0, 0)]"
  unfolding three_records_def page.simps
  by (rule snapshot.later, simp add: access_simps, rule snapshot.torn [where k' = 99], simp add: access_simps)


end
