(* ===== verification/Spec2Isabelle.thy ===== *)
theory Spec2Isabelle
  imports KV_Random KV_TreeFacts KV_StoreFacts KV_HashFacts KV_Crash KV_CityFacts KV_HikvFacts KV_ServerFacts KV_MainFacts KV_BenchFacts KV_ClientFacts KV_EchoFacts KV_Save KV_Sync KV_Rebalance KV_Removing
begin

text \<open>
  A verification of \<open>libevent_test\<close>: three echo programs built on libevent and a key-value server
  and client (\<open>bufferevent_single/\<close>) over the embedded store HiKV (\<open>bufferevent_single/Hikv/\<close>).

  \<^bold>\<open>The program.\<close> The store keeps every record in a log in (persistent) memory, one partition per
  server thread. A put appends the record to the log with a copy that bypasses or flushes the
  cache, enters the record's offset in a hash index under two hashes of its key, and queues an
  insert into a B+-tree, which background threads make later. A get goes through the hash index, a
  scan through the tree. The server turns each \<open>bufferevent_read\<close> into one of these calls; the
  client generates keys and sends requests in phases. The echo programs send a file in chunks and
  read it back.

  \<^bold>\<open>Conventions.\<close> C integers are words of their width, pointers 64-bit words, memory a partial map
  from addresses to bytes with a dirty bit for bytes not yet flushed. A function that may read or
  write outside an array, follow a null or dangling pointer, fail an assertion, use an unset
  variable, lock a mutex twice or loop for ever returns an option, and \<open>None\<close> is "no normal
  return"; so an equation with \<open>Some\<close> also says that the call is safe and ends. Addresses returned by
  \<open>malloc\<close>, random numbers, clock readings and what uninitialised memory holds are arguments.
  Operations of the store are atomic steps that interleave in any order; the page locks of the tree
  are then always free, except where one thread takes a lock twice. Two properties look between the
  single stores of a change to one page.

  \<^bold>\<open>Theories and what they model.\<close>
    \<^item> KV_Prelude: machine types, checked array accesses, \<open>memcmp\<close>, sorted lists of records.
    \<^item> KV_Random: \<open>Hikv/lib/random.h\<close>.
    \<^item> KV_Page, KV_Search, KV_Btree: \<open>Hikv/obj/btree.h\<close> and \<open>btree.cc\<close>: pages, their searches, and the
      tree over a heap of pages. KV_Index is the contract of an ordered index (a locale). KV_Levels,
      KV_Split, KV_Levelins, KV_Descend, KV_Insert, KV_InsertOk and KV_Tree prove it for the tree and
      interpret the locale; KV_Remove, KV_Delete and KV_Rebalance treat removals, KV_TreeFacts states
      the properties. KV_Snapshot and KV_Removing take the shifts of a page store by store, as readers
      without a lock meet them. \<open>btree_insert\<close> gets fuel for twice the height, one unit per call of \<open>store\<close> and
      \<open>btree_insert_internal\<close>, and the properties show that this is enough.
    \<^item> KV_Mem, KV_NtStore, KV_NtCopy, KV_NtMove: \<open>Hikv/ntstore/ntstore.c\<close>, with the contract of a chunk
      copy as a locale interpreted in both directions.
    \<^item> KV_Alloc and KV_Blocks: \<open>Hikv/mem/pm_alloc.cc\<close> under the contract of a block allocator.
    \<^item> KV_Key, KV_Plog: keys and items (\<open>config.h\<close>, \<open>btree.h\<close>) and the log (\<open>Hikv/obj/plog.h\<close>).
    \<^item> KV_City, KV_City128, KV_CityFacts: \<open>Hikv/lib/city.cc\<close>; the CRC instruction is a parameter. The loop
      of \<open>CityMurmur\<close> gets the length of the string as fuel, that of the tail of \<open>CityHash128WithSeed\<close>
      four rounds; KV_CityFacts proves both enough.
    \<^item> KV_Hash, KV_HashFacts: \<open>Hikv/obj/hashtable.h\<close>; KV_FirstPut is the contract it meets. KV_Crash is
      its insert with \<open>PERSIST_HASHTABLE\<close>, over a memory that loses what is not flushed.
    \<^item> KV_TaskQueue: \<open>Hikv/obj/threadpool.h\<close> and \<open>threadpool.cc\<close>, with the concurrent queues of TBB as
      lists.
    \<^item> KV_Hikv: \<open>Hikv/obj/hikv.h\<close>. KV_Store, KV_StoreStep, KV_StoreRun, KV_HikvNew and KV_Reached make it a
      state machine with a history of puts and prove its invariant; KV_StoreFacts and KV_HikvFacts
      state what follows. KV_Save models the metadata file of \<open>save\<close> and \<open>restore\<close>.
    \<^item> KV_Server, KV_ServerRun, KV_ServerFacts: the read callback of \<open>bufferevent_single/server.cc\<close> and
      the ring buffer of \<open>include/server.h\<close>. KV_ServerMain, KV_Decimal, KV_MainFacts: its command line,
      its start and the text forms of numbers. KV_Client, KV_ClientFacts: \<open>client.cc\<close>; a phase that
      retries is bounded by its number of requests.
    \<^item> KV_Bench, KV_BenchFacts: the store's benchmark \<open>Hikv/test_main.cc\<close>: its options, the arguments of
      its threads and the mixed loop of one thread.
    \<^item> KV_Echo, KV_EchoSingle, KV_EchoFacts: the programs of \<open>bufferevent/\<close>, \<open>single_thread/\<close> and
      \<open>multi_thread/\<close>.
    \<^item> KV_Sync: \<open>Hikv/lib/spinlock.h\<close> and \<open>Hikv/lib/pflush.c\<close>.

  \<^bold>\<open>What is shown.\<close> The store's invariant holds from the constructor on under every interleaving; a
  get returns the value of the first accepted put of its key and a scan the moved records between
  its bounds; puts return while there is room, and fair background rounds move everything into the
  tree. The tree refines a sorted list of records, readers of a page
  that is being changed see it before or after the change, the copy routine a \<open>memmove\<close> that is durable when
  it is aligned, the allocator hands out disjoint blocks, the hash table maps each key to its first
  put, and every hash reads only inside its string. The server's replies are stated in terms of the
  store's history, the client's keys and counts in terms of its random numbers. The echo through
  \<open>bufferevent\<close> returns the file in order in every run, and no run goes
  on for ever. A benchmark thread ends, with the records it draws in the store. A saved store is
  restored, a crash of the persistent hash index loses at most the insert in progress, and the spin
  lock excludes.

  Several properties state defects of the code as theorems about it: the first record of a
  partition is never found, two concrete keys are one key to the hash index, a delete of an absent
  key does not return, the rebalancing removal loses a record or locks a page twice, unpadded keys
  carry left-over bytes, requests that do not arrive in one piece are dropped, the echo client hangs
  on files that are a multiple of its chunk size, most lookups of the store's benchmark are for the
  number of an earlier get, the single-threaded echo stops at zero bytes, and
  the multi-threaded server leaks a file per callback.

  \<^bold>\<open>Not modelled.\<close> The headers of TBB and PMDK (\<open>Hikv/tbb/\<close>, \<open>Hikv/pmdk/\<close>) are third-party. The
  older benchmark \<open>Hikv/main.cc\<close>, which the makefile does not build, the threads and the time
  measurements of \<open>Hikv/test_main.cc\<close>, the statistics the programs write to files and all output are
  left out; so are the socket and event set-up calls, whose results the
  callbacks receive as arguments. \<open>PMDK_USED\<close>, \<open>PM_USED\<close> and \<open>PERSIST_*\<close> are off in the
  committed configuration; of \<open>PM_USED\<close> only \<open>save\<close> and \<open>restore\<close> are modelled, of
  \<open>PERSIST_BTREE\<close> nothing.
\<close>

end
